theory Spec2Isabelle
  imports Main "HOL-Library.Word"
begin

unbundle bit_operations_syntax

section \<open>Memory, machine words and the heap-growth provider\<close>

text \<open>
  Memory is byte addressed. An address (a \<open>char *\<close>) is a natural number; \<open>NULL\<close> is 0.
  Pointer arithmetic is arithmetic on the address; the model does not wrap addresses
  (pointer overflow is undefined in C) and \<open>p - k\<close> below address 0 stops at 0.
  Memory is total: an access outside the region the provider has granted is an ordinary
  access in the model (in C it is undefined behaviour).

  The parameter \<open>W\<close> of the operations is the width in bits of \<open>size_t\<close>: every
  \<open>size_t\<close> computation of the source is written out modulo \<open>2 ^ W\<close>. The source is
  written for a 32-bit target (\<open>W = 32\<close>: it stores pointers in \<open>int\<close>);
  \<open>unsigned int\<close> and \<open>int\<close> are 32 bits wide.
\<close>

type_synonym addr = nat
type_synonym byte = "8 word"
type_synonym memory = "addr \<Rightarrow> byte"

record heap =
  mem :: memory
  mem_brk :: addr
  mem_max_addr :: addr
  head :: addr

text \<open>
  Modelled from the spec: \<open>mem_sbrk\<close> is declared in memlib.h, which is not part of the
  sources. The spec (section 6): a single operation \<open>grow(nbytes) -> address | failure\<close>
  that extends the managed region contiguously upward by \<open>nbytes\<close> and returns the
  starting address of the new region, never moving prior memory. The provider owns the
  current break \<open>mem_brk\<close> and a limit \<open>mem_max_addr\<close>; it fails when the extension would
  pass the limit. Failure is the value \<open>None\<close>.
\<close>

definition mem_sbrk :: "heap \<Rightarrow> nat \<Rightarrow> (addr \<times> heap) option" where
  "mem_sbrk s incr =
     (if mem_brk s + incr \<le> mem_max_addr s
      then Some (mem_brk s, s\<lparr>mem_brk := mem_brk s + incr\<rparr>)
      else None)"

subsection \<open>Constants and macros of mm.c\<close>

definition WSIZE :: nat where [simp]: "WSIZE = 4"
definition DWSIZE :: nat where [simp]: "DWSIZE = 8"
definition MINSIZE :: nat where [simp]: "MINSIZE = 16"
definition CHUNKSIZE :: nat where [simp]: "CHUNKSIZE = 4096"
definition ALLOCATED :: nat where [simp]: "ALLOCATED = 1"
definition FREE :: nat where [simp]: "FREE = 0"

text \<open>\<open>ALIGN(size)\<close> is \<open>((size) + (DWSIZE - 1)) & ~0x7\<close> on \<open>size_t\<close>: the sum wraps at
  \<open>2 ^ W\<close> and \<open>~0x7\<close>, an \<open>int\<close>, converts to \<open>2 ^ W - 8\<close>.\<close>

definition ALIGN :: "nat \<Rightarrow> nat \<Rightarrow> nat" where
  "ALIGN W sz = ((sz + (DWSIZE - 1)) mod 2 ^ W) AND (2 ^ W - 8)"

text \<open>\<open>GET\<close> reads and \<open>SET\<close> writes an \<open>unsigned int\<close>: four bytes, least significant
  first. \<open>SET\<close> converts the value it is given to 32 bits.\<close>

definition GET :: "memory \<Rightarrow> addr \<Rightarrow> 32 word" where
  "GET m p = ucast (m p) OR push_bit 8 (ucast (m (p + 1)))
     OR push_bit 16 (ucast (m (p + 2))) OR push_bit 24 (ucast (m (p + 3)))"

definition SET :: "memory \<Rightarrow> addr \<Rightarrow> nat \<Rightarrow> memory" where
  "SET m p v =
     (let w = (word_of_nat v :: 32 word)
      in m(p := ucast w, p + 1 := ucast (drop_bit 8 w),
           p + 2 := ucast (drop_bit 16 w), p + 3 := ucast (drop_bit 24 w)))"

definition PACK :: "nat \<Rightarrow> nat \<Rightarrow> nat" where
  "PACK sz alloc = sz OR alloc"

definition SIZE :: "memory \<Rightarrow> addr \<Rightarrow> nat" where
  "SIZE m hdr = unat (GET m hdr AND NOT 7)"

definition ALLOC :: "memory \<Rightarrow> addr \<Rightarrow> nat" where
  "ALLOC m hdr = unat (GET m hdr AND 1)"

definition HDR :: "addr \<Rightarrow> addr" where
  "HDR ptr = ptr - WSIZE"

definition FTR :: "memory \<Rightarrow> addr \<Rightarrow> addr" where
  "FTR m ptr = ptr + SIZE m (HDR ptr) - DWSIZE"

definition NEXT :: "memory \<Rightarrow> addr \<Rightarrow> addr" where
  "NEXT m ptr = ptr + SIZE m (ptr - WSIZE)"

definition PREV :: "memory \<Rightarrow> addr \<Rightarrow> addr" where
  "PREV m ptr = ptr - SIZE m (ptr - DWSIZE)"

definition PRED :: "addr \<Rightarrow> addr" where
  "PRED fbp = fbp"

definition SUCC :: "addr \<Rightarrow> addr" where
  "SUCC fbp = fbp + WSIZE"

text \<open>The casts of the source: \<open>(int)p\<close> keeps the low 32 bits of an address, and
  \<open>(char *)GET(q)\<close> reads an \<open>unsigned int\<close> as an address.\<close>

definition int_of_ptr :: "addr \<Rightarrow> nat" where
  "int_of_ptr p = p mod 2 ^ 32"

definition ptr_of :: "32 word \<Rightarrow> addr" where
  "ptr_of w = unat w"

text \<open>\<open>memcpy(dst, src, n)\<close> for regions that do not overlap.\<close>

definition memcpy :: "memory \<Rightarrow> addr \<Rightarrow> addr \<Rightarrow> nat \<Rightarrow> memory" where
  "memcpy m dst src n = (\<lambda>a. if dst \<le> a \<and> a < dst + n then m (src + (a - dst)) else m a)"

section \<open>The allocator\<close>

text \<open>Every call of the provider is written \<open>if ((p = mem_sbrk(n)) < 0) return ...\<close> in the
  source. \<open>p\<close> is a \<open>char *\<close>, and the ordered comparison of a pointer with the constant 0
  is never true: the \<open>return\<close> under it is not reached, and when the provider fails the
  statements that follow store through the value it returned, which is no address of the
  managed region. That outcome of a call is \<open>Fault\<close>; otherwise the call returns, with its
  result and the state it leaves.\<close>

datatype 'a outcome = Fault | Returns 'a


subsection \<open>coalesce\<close>

definition coalesce :: "nat \<Rightarrow> heap \<Rightarrow> addr \<Rightarrow> addr \<times> heap" where
  "coalesce W s ptr =
     (let m = mem s;
          prev = PREV m ptr;
          next = NEXT m ptr;
          prev_alloc = ALLOC m (HDR prev);
          next_alloc = ALLOC m (HDR next);
          sz = SIZE m (HDR ptr)
      in
      if prev_alloc \<noteq> 0 \<and> next_alloc \<noteq> 0 then
        let first = ptr_of (GET m (SUCC (head s)));
            m = SET m (SUCC (head s)) (int_of_ptr ptr);
            m = SET m (PRED ptr) (int_of_ptr (head s));
            m = SET m (SUCC ptr) (int_of_ptr first);
            m = (if first \<noteq> 0 then SET m (PRED first) (int_of_ptr ptr) else m)
        in (ptr, s\<lparr>mem := m\<rparr>)
      else if prev_alloc \<noteq> 0 \<and> \<not> next_alloc \<noteq> 0 then
        let sz = (sz + SIZE m (HDR next)) mod 2 ^ W;
            m = SET m (HDR ptr) (PACK sz FREE);
            m = SET m (FTR m ptr) (PACK sz FREE);
            pred = ptr_of (GET m (PRED next));
            succ = ptr_of (GET m (SUCC next));
            m = SET m (SUCC pred) (int_of_ptr succ);
            m = (if succ \<noteq> 0 then SET m (PRED succ) (int_of_ptr pred) else m);
            first = ptr_of (GET m (SUCC (head s)));
            m = SET m (SUCC (head s)) (int_of_ptr ptr);
            m = SET m (PRED ptr) (int_of_ptr (head s));
            m = SET m (SUCC ptr) (int_of_ptr first);
            m = (if first \<noteq> 0 then SET m (PRED first) (int_of_ptr ptr) else m)
        in (ptr, s\<lparr>mem := m\<rparr>)
      else if \<not> prev_alloc \<noteq> 0 \<and> next_alloc \<noteq> 0 then
        let sz = (sz + SIZE m (HDR prev)) mod 2 ^ W;
            m = SET m (HDR prev) (PACK sz FREE);
            m = SET m (FTR m prev) (PACK sz FREE)
        in (prev, s\<lparr>mem := m\<rparr>)
      else
        let sz = (sz + ((SIZE m (HDR prev) + SIZE m (HDR next)) mod 2 ^ 32)) mod 2 ^ W;
            m = SET m (HDR prev) (PACK sz FREE);
            m = SET m (FTR m prev) (PACK sz FREE);
            pred = ptr_of (GET m (PRED next));
            succ = ptr_of (GET m (SUCC next));
            m = SET m (SUCC pred) (int_of_ptr succ);
            m = (if succ \<noteq> 0 then SET m (PRED succ) (int_of_ptr pred) else m)
        in (prev, s\<lparr>mem := m\<rparr>))"

subsection \<open>The first-fit loop\<close>

text \<open>The \<open>while\<close> loop of \<open>mm_malloc\<close> and \<open>mm_realloc\<close> follows the successor links
  until a block is large enough or the link is \<open>NULL\<close>. On a cyclic list with no fit it
  never returns: that is the value \<open>None\<close>.\<close>

partial_function (option) first_fit :: "memory \<Rightarrow> nat \<Rightarrow> addr \<Rightarrow> addr option" where
  "first_fit m asize newptr =
     (if newptr \<noteq> 0
      then (if SIZE m (HDR newptr) \<ge> asize then Some newptr
            else first_fit m asize (ptr_of (GET m (SUCC newptr))))
      else Some newptr)"

declare first_fit.simps [code]

subsection \<open>mm_init\<close>

definition mm_init :: "heap \<Rightarrow> (int \<times> heap) outcome" where
  "mm_init s =
     (case mem_sbrk s (6 * WSIZE) of
        None \<Rightarrow> Fault
      | Some (heap_btm, s) \<Rightarrow>
          let m = mem s;
              m = SET m heap_btm 0;
              m = SET m (heap_btm + 1 * WSIZE) (PACK (4 * WSIZE) ALLOCATED);
              m = SET m (heap_btm + 2 * WSIZE) 0;
              m = SET m (heap_btm + 3 * WSIZE) 0;
              m = SET m (heap_btm + 4 * WSIZE) (PACK (4 * WSIZE) ALLOCATED);
              m = SET m (heap_btm + 5 * WSIZE) (PACK 0 ALLOCATED);
              s = s\<lparr>mem := m, head := heap_btm + 2 * WSIZE\<rparr>
          in
          (case mem_sbrk s CHUNKSIZE of
             None \<Rightarrow> Fault
           | Some (oldbrk, s) \<Rightarrow>
               let m = mem s;
                   m = SET m (HDR oldbrk) (PACK CHUNKSIZE FREE);
                   m = SET m (FTR m oldbrk) (PACK CHUNKSIZE FREE);
                   m = SET m (HDR (NEXT m oldbrk)) (PACK 0 ALLOCATED);
                   m = SET m (SUCC (head s)) (int_of_ptr oldbrk);
                   m = SET m (PRED oldbrk) (int_of_ptr (head s));
                   m = SET m (SUCC oldbrk) 0
               in Returns (0, s\<lparr>mem := m\<rparr>)))"

subsection \<open>mm_malloc\<close>

text \<open>The result is \<open>None\<close> when the first-fit loop does not return, and otherwise the
  outcome of the call: \<open>Fault\<close>, or the returned pointer (0 for \<open>NULL\<close>) with the state the
  call leaves. The inner \<open>None\<close> is the failure of the provider.\<close>

definition mm_malloc :: "nat \<Rightarrow> heap \<Rightarrow> nat \<Rightarrow> (addr \<times> heap) outcome option" where
  "mm_malloc W s sz =
     (if sz = 0 then Some (Returns (0, s))
      else
        let asize = (if sz \<le> MINSIZE - DWSIZE then MINSIZE
                     else (ALIGN W sz + DWSIZE) mod 2 ^ W)
        in
        case first_fit (mem s) asize (ptr_of (GET (mem s) (SUCC (head s)))) of
          None \<Rightarrow> None
        | Some newptr \<Rightarrow>
            (case
               (if newptr = 0 then
                  let exsize = (if asize > CHUNKSIZE then asize else CHUNKSIZE)
                  in
                  (case mem_sbrk s exsize of
                     None \<Rightarrow> None
                   | Some (oldbrk, s) \<Rightarrow>
                       let m = mem s;
                           m = SET m (HDR oldbrk) (PACK exsize FREE);
                           m = SET m (FTR m oldbrk) (PACK exsize FREE);
                           m = SET m (HDR (NEXT m oldbrk)) (PACK 0 ALLOCATED);
                           prev = PREV m oldbrk
                       in
                       if ALLOC m (HDR prev) \<noteq> 0 then
                         let first = ptr_of (GET m (SUCC (head s)));
                             m = SET m (SUCC (head s)) (int_of_ptr oldbrk);
                             m = SET m (PRED oldbrk) (int_of_ptr (head s));
                             m = SET m (SUCC oldbrk) (int_of_ptr first);
                             m = (if first \<noteq> 0 then SET m (PRED first) (int_of_ptr oldbrk) else m)
                         in Some (oldbrk, s\<lparr>mem := m\<rparr>)
                       else
                         let exsize = (exsize + SIZE m (HDR prev)) mod 2 ^ W;
                             m = SET m (HDR prev) (PACK exsize FREE);
                             m = SET m (FTR m prev) (PACK exsize FREE)
                         in Some (prev, s\<lparr>mem := m\<rparr>))
                else Some (newptr, s))
             of
               None \<Rightarrow> Some Fault
             | Some (newptr, s) \<Rightarrow>
                 let m = mem s;
                     fsize = SIZE m (HDR newptr);
                     asize = (if (fsize + 2 ^ W - asize) mod 2 ^ W < MINSIZE then fsize else asize);
                     m = SET m (HDR newptr) (PACK asize ALLOCATED);
                     m = SET m (FTR m newptr) (PACK asize ALLOCATED);
                     pred = ptr_of (GET m (PRED newptr));
                     succ = ptr_of (GET m (SUCC newptr));
                     m = SET m (SUCC pred) (int_of_ptr succ);
                     m = (if succ \<noteq> 0 then SET m (PRED succ) (int_of_ptr pred) else m);
                     s = s\<lparr>mem := m\<rparr>;
                     s = (if asize < fsize then
                            let newfree = NEXT m newptr;
                                m = SET m (HDR newfree) (PACK ((fsize + 2 ^ W - asize) mod 2 ^ W) FREE);
                                m = SET m (FTR m newfree) (PACK ((fsize + 2 ^ W - asize) mod 2 ^ W) FREE)
                            in snd (coalesce W (s\<lparr>mem := m\<rparr>) newfree)
                          else s)
                 in Some (Returns (newptr, s))))"

subsection \<open>mm_free\<close>

definition mm_free :: "nat \<Rightarrow> heap \<Rightarrow> addr \<Rightarrow> heap" where
  "mm_free W s ptr =
     (if ptr \<noteq> 0 then
        let m = mem s;
            sz = SIZE m (HDR ptr);
            m = SET m (HDR ptr) (PACK sz FREE);
            m = SET m (FTR m ptr) (PACK sz FREE)
        in snd (coalesce W (s\<lparr>mem := m\<rparr>) ptr)
      else s)"

subsection \<open>mm_realloc\<close>

text \<open>\<open>oldsize\<close> is read when \<open>ptr\<close> is not \<open>NULL\<close> and used only then.\<close>

definition mm_realloc :: "nat \<Rightarrow> heap \<Rightarrow> addr \<Rightarrow> nat \<Rightarrow> (addr \<times> heap) outcome option" where
  "mm_realloc W s ptr sz =
     (let oldsize = SIZE (mem s) (HDR ptr)
      in
      if sz = 0 then
        (if ptr \<noteq> 0 then
           let m = mem s;
               m = SET m (HDR ptr) (PACK oldsize FREE);
               m = SET m (FTR m ptr) (PACK oldsize FREE)
           in Some (Returns (0, snd (coalesce W (s\<lparr>mem := m\<rparr>) ptr)))
         else Some (Returns (0, s)))
      else
        let asize = (if sz \<le> MINSIZE - DWSIZE then MINSIZE
                     else (ALIGN W sz + DWSIZE) mod 2 ^ W)
        in
        case first_fit (mem s) asize (ptr_of (GET (mem s) (SUCC (head s)))) of
          None \<Rightarrow> None
        | Some newptr \<Rightarrow>
            (case
               (if newptr = 0 then
                  let exsize = (if asize > CHUNKSIZE then asize else CHUNKSIZE)
                  in
                  (case mem_sbrk s exsize of
                     None \<Rightarrow> None
                   | Some (oldbrk, s) \<Rightarrow>
                       let m = mem s;
                           m = SET m (HDR oldbrk) (PACK exsize FREE);
                           m = SET m (FTR m oldbrk) (PACK exsize FREE);
                           m = SET m (HDR (NEXT m oldbrk)) (PACK 0 ALLOCATED);
                           prev = PREV m oldbrk
                       in
                       if ALLOC m (HDR prev) \<noteq> 0 then
                         let first = ptr_of (GET m (SUCC (head s)));
                             m = SET m (SUCC (head s)) (int_of_ptr oldbrk);
                             m = SET m (PRED oldbrk) (int_of_ptr (head s));
                             m = SET m (SUCC oldbrk) (int_of_ptr first);
                             m = (if first \<noteq> 0 then SET m (PRED first) (int_of_ptr oldbrk) else m)
                         in Some (oldbrk, s\<lparr>mem := m\<rparr>)
                       else
                         let exsize = (exsize + SIZE m (HDR prev)) mod 2 ^ W;
                             m = SET m (HDR prev) (PACK exsize FREE);
                             m = SET m (FTR m prev) (PACK exsize FREE)
                         in Some (prev, s\<lparr>mem := m\<rparr>))
                else Some (newptr, s))
             of
               None \<Rightarrow> Some Fault
             | Some (newptr, s) \<Rightarrow>
                 let m = mem s;
                     fsize = SIZE m (HDR newptr);
                     asize = (if (fsize + 2 ^ W - asize) mod 2 ^ W < MINSIZE then fsize else asize);
                     m = SET m (HDR newptr) (PACK asize ALLOCATED);
                     m = SET m (FTR m newptr) (PACK asize ALLOCATED);
                     pred = ptr_of (GET m (PRED newptr));
                     succ = ptr_of (GET m (SUCC newptr));
                     m = SET m (SUCC pred) (int_of_ptr succ);
                     m = (if succ \<noteq> 0 then SET m (PRED succ) (int_of_ptr pred) else m);
                     s = s\<lparr>mem := m\<rparr>;
                     s = (if ptr \<noteq> 0 then
                            let smallsize = (if oldsize < asize then oldsize else asize);
                                m = memcpy (mem s) newptr ptr ((smallsize + 2 ^ W - DWSIZE) mod 2 ^ W);
                                m = SET m (HDR ptr) (PACK oldsize FREE);
                                m = SET m (FTR m ptr) (PACK oldsize FREE)
                            in snd (coalesce W (s\<lparr>mem := m\<rparr>) ptr)
                          else s);
                     s = (if asize < fsize then
                            let m = mem s;
                                newfree = NEXT m newptr;
                                m = SET m (HDR newfree) (PACK ((fsize + 2 ^ W - asize) mod 2 ^ W) FREE);
                                m = SET m (FTR m newfree) (PACK ((fsize + 2 ^ W - asize) mod 2 ^ W) FREE)
                            in snd (coalesce W (s\<lparr>mem := m\<rparr>) newfree)
                          else s)
                 in Some (Returns (newptr, s))))"

section \<open>Observing the heap\<close>

text \<open>A block is written \<open>(p, sz, a)\<close>: the address \<open>p\<close> of its payload (the address the
  allocator hands out), its size in bytes with header and footer, and whether it is
  allocated. \<open>blocks\<close> walks the heap as the allocator does, from the block after the
  prologue with \<open>NEXT\<close>, up to the epilogue (the header of size 0 at the break).\<close>

type_synonym block = "addr \<times> nat \<times> bool"

function blocks_from :: "memory \<Rightarrow> addr \<Rightarrow> addr \<Rightarrow> block list" where
  "blocks_from m p e =
     (if p < e \<and> 0 < SIZE m (HDR p)
      then (p, SIZE m (HDR p), ALLOC m (HDR p) \<noteq> 0) # blocks_from m (NEXT m p) e
      else [])"
  by pat_completeness auto
termination
  by (relation "measure (\<lambda>(m, p, e). e - p)") (auto simp: NEXT_def HDR_def)

declare blocks_from.simps [simp del]

definition blocks :: "heap \<Rightarrow> block list" where
  "blocks s = blocks_from (mem s) (NEXT (mem s) (head s)) (mem_brk s)"

text \<open>The free list, read from the sentinel's successor link along the successor links
  to \<open>NULL\<close>; \<open>None\<close> when the links never reach \<open>NULL\<close>.\<close>

partial_function (option) list_from :: "memory \<Rightarrow> addr \<Rightarrow> addr list option" where
  "list_from m p =
     (if p = 0 then Some []
      else Option.bind (list_from m (ptr_of (GET m (SUCC p)))) (\<lambda>xs. Some (p # xs)))"

declare list_from.simps [code]

definition free_list :: "heap \<Rightarrow> addr list option" where
  "free_list s = list_from (mem s) (ptr_of (GET (mem s) (SUCC (head s))))"

fun no_adjacent_free :: "block list \<Rightarrow> bool" where
  "no_adjacent_free ((p, sz, a) # (q, sz', b) # bs) \<longleftrightarrow>
     (a \<or> b) \<and> no_adjacent_free ((q, sz', b) # bs)"
| "no_adjacent_free bs \<longleftrightarrow> True"

definition free_blocks :: "block list \<Rightarrow> addr list" where
  "free_blocks bs = map fst (filter (\<lambda>(p, sz, a). \<not> a) bs)"

definition live :: "block list \<Rightarrow> addr list" where
  "live bs = map fst (filter (\<lambda>(p, sz, a). a) bs)"

definition used :: "block list \<Rightarrow> block list" where
  "used bs = filter (\<lambda>(p, sz, a). a) bs"

definition total_size :: "block list \<Rightarrow> nat" where
  "total_size bs = sum_list (map (\<lambda>(p, sz, a). sz) bs)"

section \<open>Sequences of calls\<close>

text \<open>A client calls \<open>mm_malloc\<close>, \<open>mm_free\<close> and \<open>mm_realloc\<close>, and between the calls it
  stores bytes into the payload of blocks it holds. \<open>run\<close> executes a sequence of calls;
  it stops at the first call that does not return. A call is \<open>legal\<close> when the address
  given to \<open>mm_free\<close> or \<open>mm_realloc\<close> is \<open>NULL\<close> or the address of a block that is
  allocated at that moment, a store goes to a payload byte of such a block, and the
  requested size is a \<open>size_t\<close> whose rounding \<open>ALIGN(size) + DWSIZE\<close> does not wrap, that
  is \<open>size + 16 \<le> 2 ^ W\<close>. The source has no test for a size whose rounding wraps; what
  it does with one is evaluated on \<open>heap5\<close>, in the last section.\<close>

datatype call = Malloc nat | Free addr | Realloc addr nat | Store addr byte

fun state_of :: "(addr \<times> heap) outcome \<Rightarrow> heap outcome" where
  "state_of Fault = Fault"
| "state_of (Returns (p, s)) = Returns s"

fun exec :: "nat \<Rightarrow> heap \<Rightarrow> call \<Rightarrow> heap outcome option" where
  "exec W s (Malloc n) = map_option state_of (mm_malloc W s n)"
| "exec W s (Free p) = Some (Returns (mm_free W s p))"
| "exec W s (Realloc p n) = map_option state_of (mm_realloc W s p n)"
| "exec W s (Store a b) = Some (Returns (s\<lparr>mem := (mem s)(a := b)\<rparr>))"

fun run :: "nat \<Rightarrow> heap \<Rightarrow> call list \<Rightarrow> heap outcome option" where
  "run W s [] = Some (Returns s)"
| "run W s (c # cs) =
     (case exec W s c of
        None \<Rightarrow> None
      | Some Fault \<Rightarrow> Some Fault
      | Some (Returns s') \<Rightarrow> run W s' cs)"

definition in_payload :: "block list \<Rightarrow> addr \<Rightarrow> bool" where
  "in_payload bs a = list_ex (\<lambda>(p, sz, al). al \<and> p \<le> a \<and> a + DWSIZE < p + sz) bs"

fun legal_call :: "nat \<Rightarrow> heap \<Rightarrow> call \<Rightarrow> bool" where
  "legal_call W s (Malloc n) \<longleftrightarrow> n + 16 \<le> 2 ^ W"
| "legal_call W s (Free p) \<longleftrightarrow> p = 0 \<or> p \<in> set (live (blocks s))"
| "legal_call W s (Realloc p n) \<longleftrightarrow> (p = 0 \<or> p \<in> set (live (blocks s))) \<and> n + 16 \<le> 2 ^ W"
| "legal_call W s (Store a b) \<longleftrightarrow> in_payload (blocks s) a"

fun legal :: "nat \<Rightarrow> heap \<Rightarrow> call list \<Rightarrow> bool" where
  "legal W s [] \<longleftrightarrow> True"
| "legal W s (c # cs) \<longleftrightarrow>
     legal_call W s c \<and> (case exec W s c of Some (Returns s') \<Rightarrow> legal W s' cs | _ \<Rightarrow> True)"

section \<open>The heap invariant\<close>

text \<open>\<open>chain m p bs e\<close>: the bytes from \<open>p\<close> to \<open>e\<close> are tiled by the blocks \<open>bs\<close>. Every
  block is at least \<open>MINSIZE\<close> bytes, a multiple of 8, its header carries its allocation
  bit and its footer its size; a free block's header carries its size too. (The header
  size of an allocated block is stated apart, by \<open>hdrs\<close>: inside \<open>mm_realloc\<close> the header
  of the block being carved is already the carved size while its old footer still
  stands.)\<close>

fun chain :: "memory \<Rightarrow> addr \<Rightarrow> block list \<Rightarrow> addr \<Rightarrow> bool" where
  "chain m p [] e \<longleftrightarrow> p = e"
| "chain m p ((q, sz, a) # bs) e \<longleftrightarrow>
     q = p \<and> 16 \<le> sz \<and> 8 dvd sz \<and>
     ALLOC m (p - 4) = (if a then 1 else 0) \<and>
     SIZE m (p + sz - 8) = sz \<and>
     (\<not> a \<longrightarrow> SIZE m (p - 4) = sz) \<and>
     chain m (p + sz) bs e"

definition hdrs :: "memory \<Rightarrow> block list \<Rightarrow> bool" where
  "hdrs m bs \<longleftrightarrow> (\<forall>(p, sz, a) \<in> set bs. a \<longrightarrow> SIZE m (p - 4) = sz)"

text \<open>\<open>dll m prv xs q\<close>: following the successor links from \<open>q\<close> visits the nodes \<open>xs\<close>
  and ends at \<open>NULL\<close>, and each node's predecessor link points back (the first one's to
  \<open>prv\<close>).\<close>

fun dll :: "memory \<Rightarrow> addr \<Rightarrow> addr list \<Rightarrow> addr \<Rightarrow> bool" where
  "dll m prv [] q \<longleftrightarrow> q = 0"
| "dll m prv (x # xs) q \<longleftrightarrow>
     q = x \<and> x \<noteq> 0 \<and> ptr_of (GET m x) = prv \<and> dll m x xs (ptr_of (GET m (x + 4)))"

definition dlist :: "memory \<Rightarrow> addr \<Rightarrow> addr list \<Rightarrow> bool" where
  "dlist m h xs \<longleftrightarrow> dll m h xs (ptr_of (GET m (h + 4)))"

text \<open>\<open>heap_ok s bs fl\<close>: the structure of the heap without the link between the block
  list and the free list: the prologue, the blocks \<open>bs\<close> and the epilogue tile the region
  up to the break, every address fits 32 bits, and the free list is the list \<open>fl\<close>.\<close>

definition heap_ok :: "heap \<Rightarrow> block list \<Rightarrow> addr list \<Rightarrow> bool" where
  "heap_ok s bs fl \<longleftrightarrow>
     8 \<le> head s \<and> mem_max_addr s \<le> 2 ^ 32 \<and> mem_brk s \<le> mem_max_addr s \<and>
     chain (mem s) (head s) ((head s, 16, True) # bs) (mem_brk s) \<and>
     ALLOC (mem s) (mem_brk s - 4) = 1 \<and>
     dlist (mem s) (head s) fl \<and> distinct fl"

text \<open>\<open>valid s bs fl\<close>: the invariant between calls. The free list holds exactly the
  free blocks, no two neighbours are free, and every header carries its block's size.\<close>

definition valid :: "heap \<Rightarrow> block list \<Rightarrow> addr list \<Rightarrow> bool" where
  "valid s bs fl \<longleftrightarrow>
     heap_ok s bs fl \<and> set fl = set (free_blocks bs) \<and> no_adjacent_free bs \<and>
     hdrs (mem s) ((head s, 16, True) # bs) \<and> SIZE (mem s) (mem_brk s - 4) = 0"

section \<open>The steps the operations share\<close>

text \<open>The source repeats three pieces of code: inserting a block at the head of the
  free list, removing a block from the free list, and writing a header and a footer.
  They are named here for the proofs, with the stages of \<open>mm_malloc\<close> and
  \<open>mm_realloc\<close> (the size computation, the growth of the heap, taking the chosen block,
  copying and freeing the old block, splitting off the rest); the operations above are
  written out as the source has them, and the lemmas \<open>coalesce_steps\<close>,
  \<open>mm_malloc_steps\<close> and \<open>mm_realloc_steps\<close> show that they are made of these pieces.\<close>

definition push_front :: "memory \<Rightarrow> addr \<Rightarrow> addr \<Rightarrow> memory" where
  "push_front m h p =
     (let first = ptr_of (GET m (SUCC h));
          m = SET m (SUCC h) (int_of_ptr p);
          m = SET m (PRED p) (int_of_ptr h);
          m = SET m (SUCC p) (int_of_ptr first)
      in if first \<noteq> 0 then SET m (PRED first) (int_of_ptr p) else m)"

definition unlink :: "memory \<Rightarrow> addr \<Rightarrow> memory" where
  "unlink m x =
     (let pred = ptr_of (GET m (PRED x));
          succ = ptr_of (GET m (SUCC x));
          m = SET m (SUCC pred) (int_of_ptr succ)
      in if succ \<noteq> 0 then SET m (PRED succ) (int_of_ptr pred) else m)"

definition set_tags :: "memory \<Rightarrow> addr \<Rightarrow> nat \<Rightarrow> nat \<Rightarrow> memory" where
  "set_tags m p sz a = (let m = SET m (HDR p) (PACK sz a) in SET m (FTR m p) (PACK sz a))"

definition asize_of :: "nat \<Rightarrow> nat \<Rightarrow> nat" where
  "asize_of W sz =
     (if sz \<le> MINSIZE - DWSIZE then MINSIZE else (ALIGN W sz + DWSIZE) mod 2 ^ W)"

text \<open>The two long stages of \<open>mm_malloc\<close> and \<open>mm_realloc\<close>, copied from the bodies above:
  growing the heap when no block fits (\<open>extend_heap\<close>, the same text in both), and
  placing the request in the chosen block (\<open>place_malloc\<close>, \<open>place_realloc\<close>).\<close>

definition extend_heap :: "nat \<Rightarrow> heap \<Rightarrow> nat \<Rightarrow> (addr \<times> heap) option" where
  "extend_heap W s asize =
                 (let exsize = (if asize > CHUNKSIZE then asize else CHUNKSIZE)
                  in
                  (case mem_sbrk s exsize of
                     None \<Rightarrow> None
                   | Some (oldbrk, s) \<Rightarrow>
                       let m = mem s;
                           m = SET m (HDR oldbrk) (PACK exsize FREE);
                           m = SET m (FTR m oldbrk) (PACK exsize FREE);
                           m = SET m (HDR (NEXT m oldbrk)) (PACK 0 ALLOCATED);
                           prev = PREV m oldbrk
                       in
                       if ALLOC m (HDR prev) \<noteq> 0 then
                         let first = ptr_of (GET m (SUCC (head s)));
                             m = SET m (SUCC (head s)) (int_of_ptr oldbrk);
                             m = SET m (PRED oldbrk) (int_of_ptr (head s));
                             m = SET m (SUCC oldbrk) (int_of_ptr first);
                             m = (if first \<noteq> 0 then SET m (PRED first) (int_of_ptr oldbrk) else m)
                         in Some (oldbrk, s\<lparr>mem := m\<rparr>)
                       else
                         let exsize = (exsize + SIZE m (HDR prev)) mod 2 ^ W;
                             m = SET m (HDR prev) (PACK exsize FREE);
                             m = SET m (FTR m prev) (PACK exsize FREE)
                         in Some (prev, s\<lparr>mem := m\<rparr>)))"

definition place_malloc :: "nat \<Rightarrow> heap \<Rightarrow> addr \<Rightarrow> nat \<Rightarrow> (addr \<times> heap) outcome option" where
  "place_malloc W s newptr asize =
                (let m = mem s;
                     fsize = SIZE m (HDR newptr);
                     asize = (if (fsize + 2 ^ W - asize) mod 2 ^ W < MINSIZE then fsize else asize);
                     m = SET m (HDR newptr) (PACK asize ALLOCATED);
                     m = SET m (FTR m newptr) (PACK asize ALLOCATED);
                     pred = ptr_of (GET m (PRED newptr));
                     succ = ptr_of (GET m (SUCC newptr));
                     m = SET m (SUCC pred) (int_of_ptr succ);
                     m = (if succ \<noteq> 0 then SET m (PRED succ) (int_of_ptr pred) else m);
                     s = s\<lparr>mem := m\<rparr>;
                     s = (if asize < fsize then
                            let newfree = NEXT m newptr;
                                m = SET m (HDR newfree) (PACK ((fsize + 2 ^ W - asize) mod 2 ^ W) FREE);
                                m = SET m (FTR m newfree) (PACK ((fsize + 2 ^ W - asize) mod 2 ^ W) FREE)
                            in snd (coalesce W (s\<lparr>mem := m\<rparr>) newfree)
                          else s)
                 in Some (Returns (newptr, s)))"

definition place_realloc ::
  "nat \<Rightarrow> heap \<Rightarrow> addr \<Rightarrow> nat \<Rightarrow> addr \<Rightarrow> nat \<Rightarrow> (addr \<times> heap) outcome option" where
  "place_realloc W s ptr oldsize newptr asize =
                (let m = mem s;
                     fsize = SIZE m (HDR newptr);
                     asize = (if (fsize + 2 ^ W - asize) mod 2 ^ W < MINSIZE then fsize else asize);
                     m = SET m (HDR newptr) (PACK asize ALLOCATED);
                     m = SET m (FTR m newptr) (PACK asize ALLOCATED);
                     pred = ptr_of (GET m (PRED newptr));
                     succ = ptr_of (GET m (SUCC newptr));
                     m = SET m (SUCC pred) (int_of_ptr succ);
                     m = (if succ \<noteq> 0 then SET m (PRED succ) (int_of_ptr pred) else m);
                     s = s\<lparr>mem := m\<rparr>;
                     s = (if ptr \<noteq> 0 then
                            let smallsize = (if oldsize < asize then oldsize else asize);
                                m = memcpy (mem s) newptr ptr ((smallsize + 2 ^ W - DWSIZE) mod 2 ^ W);
                                m = SET m (HDR ptr) (PACK oldsize FREE);
                                m = SET m (FTR m ptr) (PACK oldsize FREE)
                            in snd (coalesce W (s\<lparr>mem := m\<rparr>) ptr)
                          else s);
                     s = (if asize < fsize then
                            let m = mem s;
                                newfree = NEXT m newptr;
                                m = SET m (HDR newfree) (PACK ((fsize + 2 ^ W - asize) mod 2 ^ W) FREE);
                                m = SET m (FTR m newfree) (PACK ((fsize + 2 ^ W - asize) mod 2 ^ W) FREE)
                            in snd (coalesce W (s\<lparr>mem := m\<rparr>) newfree)
                          else s)
                 in Some (Returns (newptr, s)))"

definition carve_size :: "nat \<Rightarrow> nat \<Rightarrow> nat \<Rightarrow> nat" where
  "carve_size W fsize asize = (if (fsize + 2 ^ W - asize) mod 2 ^ W < MINSIZE then fsize else asize)"

definition take_block :: "nat \<Rightarrow> heap \<Rightarrow> addr \<Rightarrow> nat \<Rightarrow> heap" where
  "take_block W s newptr asize =
     s\<lparr>mem := unlink (set_tags (mem s) newptr
                (carve_size W (SIZE (mem s) (HDR newptr)) asize) ALLOCATED) newptr\<rparr>"

definition move_old :: "nat \<Rightarrow> heap \<Rightarrow> addr \<Rightarrow> addr \<Rightarrow> nat \<Rightarrow> nat \<Rightarrow> heap" where
  "move_old W s newptr ptr oldsize asize =
     (if ptr \<noteq> 0 then
        let smallsize = (if oldsize < asize then oldsize else asize);
            m = memcpy (mem s) newptr ptr ((smallsize + 2 ^ W - DWSIZE) mod 2 ^ W)
        in snd (coalesce W (s\<lparr>mem := set_tags m ptr oldsize FREE\<rparr>) ptr)
      else s)"

definition split_rest :: "nat \<Rightarrow> heap \<Rightarrow> addr \<Rightarrow> nat \<Rightarrow> nat \<Rightarrow> heap" where
  "split_rest W s newptr asize fsize =
     (if asize < fsize then
        snd (coalesce W
          (s\<lparr>mem := set_tags (mem s) (NEXT (mem s) newptr) ((fsize + 2 ^ W - asize) mod 2 ^ W) FREE\<rparr>)
          (NEXT (mem s) newptr))
      else s)"

definition sep8 :: "addr set \<Rightarrow> bool" where
  "sep8 A \<longleftrightarrow> (\<forall>x\<in>A. \<forall>y\<in>A. x = y \<or> x + 8 \<le> y \<or> y + 8 \<le> x)"

text \<open>The memory \<open>mm_init\<close> leaves when both reservations succeed, \<open>b\<close> being the break it
  starts from: its twelve stores in order.\<close>

definition init_mem :: "memory \<Rightarrow> addr \<Rightarrow> memory" where
  "init_mem m b =
     SET (SET (SET (SET (SET (SET (SET (SET (SET (SET (SET (SET m
       b 0) (b + 4) (PACK 16 1)) (b + 8) 0) (b + 12) 0) (b + 16) (PACK 16 1)) (b + 20) (PACK 0 1))
       (b + 20) (PACK 4096 0)) (b + 4112) (PACK 4096 0)) (b + 4116) (PACK 0 1))
       (b + 12) (int_of_ptr (b + 24))) (b + 24) (int_of_ptr (b + 8))) (b + 28) 0"

text \<open>\<open>wvalid\<close> is \<open>valid\<close> without the header sizes of allocated blocks: the state
  inside an operation. \<open>pre_coalesce\<close> is the state in which \<open>coalesce\<close> is called: the
  block \<open>p\<close> carries free tags, is not yet in the free list, and may have free
  neighbours. \<open>frame_ok s bs m'\<close>: the memory \<open>m'\<close> differs from that of \<open>s\<close> only inside
  free blocks of \<open>bs\<close> (header to footer, \<open>in_free\<close>) and in the sentinel's two link
  words.\<close>

definition wvalid :: "heap \<Rightarrow> block list \<Rightarrow> addr list \<Rightarrow> bool" where
  "wvalid s bs fl \<longleftrightarrow>
     heap_ok s bs fl \<and> set fl = set (free_blocks bs) \<and> no_adjacent_free bs"

definition pre_coalesce ::
  "heap \<Rightarrow> block list \<Rightarrow> addr \<Rightarrow> nat \<Rightarrow> block list \<Rightarrow> addr list \<Rightarrow> bool" where
  "pre_coalesce s pre p sz post fl \<longleftrightarrow>
     heap_ok s (pre @ (p, sz, False) # post) fl \<and>
     set fl = set (free_blocks (pre @ post)) \<and>
     no_adjacent_free (pre @ (p, sz, True) # post)"

definition in_free :: "block list \<Rightarrow> addr \<Rightarrow> bool" where
  "in_free bs a = list_ex (\<lambda>(x, sz, al). \<not> al \<and> x - 4 \<le> a \<and> a < x + sz - 4) bs"

definition frame_ok :: "heap \<Rightarrow> block list \<Rightarrow> memory \<Rightarrow> bool" where
  "frame_ok s bs m' \<longleftrightarrow>
     (\<forall>a. \<not> in_free bs a \<longrightarrow> (a < head s \<or> head s + 8 \<le> a) \<longrightarrow> m' a = mem s a)"

text \<open>\<open>ivalid x\<close> is \<open>valid\<close> except that the header size of the block at \<open>x\<close> is not
  constrained (\<open>valid\<close> is \<open>ivalid 0\<close>, no block being at address 0).\<close>

definition hdrs_but :: "addr \<Rightarrow> memory \<Rightarrow> block list \<Rightarrow> bool" where
  "hdrs_but x m bs \<longleftrightarrow> (\<forall>(p, sz, a) \<in> set bs. a \<longrightarrow> p \<noteq> x \<longrightarrow> SIZE m (p - 4) = sz)"

definition ivalid :: "addr \<Rightarrow> heap \<Rightarrow> block list \<Rightarrow> addr list \<Rightarrow> bool" where
  "ivalid x s bs fl \<longleftrightarrow>
     wvalid s bs fl \<and> hdrs_but x (mem s) ((head s, 16, True) # bs) \<and>
     SIZE (mem s) (mem_brk s - 4) = 0"

text \<open>\<open>same_used bs m m'\<close>: the memories \<open>m\<close> and \<open>m'\<close> agree on every allocated block of
  \<open>bs\<close>, from its header to the byte before its footer.\<close>

definition same_used :: "block list \<Rightarrow> memory \<Rightarrow> memory \<Rightarrow> bool" where
  "same_used bs m m' \<longleftrightarrow>
     (\<forall>(y, ysz, al) \<in> set bs. al \<longrightarrow> (\<forall>a \<in> {y - 4 ..< y + ysz - 4}. m' a = m a))"

text \<open>The state \<open>mm_malloc\<close> and \<open>mm_realloc\<close> pass through when the provider grants \<open>ex\<close>
  more bytes: the break has moved, the new bytes carry the tags of a free block, and the
  epilogue header stands at the new break.\<close>

definition grown :: "heap \<Rightarrow> nat \<Rightarrow> heap" where
  "grown s ex =
     s\<lparr>mem_brk := mem_brk s + ex,
       mem := SET (set_tags (mem s) (mem_brk s) ex FREE) (mem_brk s + ex - 4) (PACK 0 ALLOCATED)\<rparr>"

section \<open>Concrete heaps\<close>

text \<open>\<open>heap0\<close> is a provider with 20 MB from address 65536 and nothing granted yet;
  \<open>heap1\<close> is what \<open>mm_init\<close> makes of it, and \<open>heap2\<close> what \<open>mm_malloc(100)\<close> makes of
  \<open>heap1\<close>, with a 64-bit \<open>size_t\<close>. \<open>heap0_lim\<close>, \<open>heap1_lim\<close> and \<open>heap2_lim\<close> are the
  same on a provider whose limit is reached with the 4120 bytes \<open>mm_init\<close> asks for.
  \<open>heap0_top\<close> is a provider whose region starts 100 bytes below \<open>2 ^ 32\<close>, and \<open>heap1_top\<close>
  what \<open>mm_init\<close> makes of it. \<open>heap3\<close> is what a second \<open>mm_malloc(100)\<close> makes of
  \<open>heap2\<close>, and \<open>heap5\<close> what \<open>mm_free\<close> of the first block, 65560, makes of \<open>heap3\<close>.
  \<open>SIZE_MAX_7\<close> is the request \<open>SIZE_MAX - 7\<close> of a 64-bit \<open>size_t\<close>, and \<open>heap5_ovf\<close> what
  \<open>mm_malloc(SIZE_MAX - 7)\<close> makes of \<open>heap5\<close>. \<open>state_or d r\<close> is the state a call
  returned, and \<open>d\<close> if it did not return.\<close>

fun state_or :: "heap \<Rightarrow> (addr \<times> heap) outcome option \<Rightarrow> heap" where
  "state_or d (Some (Returns (p, s))) = s"
| "state_or d (Some Fault) = d"
| "state_or d None = d"

definition heap0 :: heap where
  "heap0 = \<lparr>mem = (\<lambda>a. 0), mem_brk = 65536, mem_max_addr = 21037056, head = 0\<rparr>"

definition heap1 :: heap where
  "heap1 = heap0\<lparr>mem := init_mem (mem heap0) 65536, mem_brk := 69656, head := 65544\<rparr>"

definition heap2 :: heap where
  "heap2 = state_or heap1 (mm_malloc 64 heap1 100)"

definition heap0_lim :: heap where
  "heap0_lim = heap0\<lparr>mem_max_addr := 69656\<rparr>"

definition heap1_lim :: heap where
  "heap1_lim = heap1\<lparr>mem_max_addr := 69656\<rparr>"

definition heap2_lim :: heap where
  "heap2_lim = state_or heap1_lim (mm_malloc 64 heap1_lim 100)"



definition SIZE_MAX_7 :: nat where
  "SIZE_MAX_7 = 18446744073709551608"

definition heap3 :: heap where
  "heap3 = state_or heap2 (mm_malloc 64 heap2 100)"

definition heap5 :: heap where
  "heap5 = mm_free 64 heap3 65560"

definition heap5_ovf :: heap where
  "heap5_ovf = state_or heap5 (mm_malloc 64 heap5 SIZE_MAX_7)"

section \<open>Words in memory\<close>

lemma GET_bytes:
  "GET (m(p := ucast w, p + 1 := ucast (drop_bit 8 w),
           p + 2 := ucast (drop_bit 16 w), p + 3 := ucast (drop_bit 24 w))) p = (w :: 32 word)"
  unfolding GET_def
  apply (rule bit_word_eqI)
  apply (auto simp add: bit_simps)
  subgoal for n by (cases "n < 24") (simp_all add: not_less)
  done

lemma GET_SET_same: "GET (SET m p v) p = word_of_nat v"
  unfolding SET_def Let_def by (rule GET_bytes)

lemma SET_other: "a < p \<or> p + 4 \<le> a \<Longrightarrow> SET m p v a = m a"
  by (auto simp: SET_def Let_def)

lemma GET_cong:
  assumes "\<And>i. i < 4 \<Longrightarrow> m' (p + i) = m (p + i)"
  shows "GET m' p = GET m p"
proof -
  have "m' p = m p" "m' (p + 1) = m (p + 1)" "m' (p + 2) = m (p + 2)" "m' (p + 3) = m (p + 3)"
    using assms[of 0] assms[of 1] assms[of 2] assms[of 3] by simp_all
  then show ?thesis by (simp add: GET_def)
qed

lemma GET_SET_other: "q + 4 \<le> p \<or> p + 4 \<le> q \<Longrightarrow> GET (SET m p v) q = GET m q"
  by (rule GET_cong) (auto simp: SET_other)

lemma and_not7: "(w :: 32 word) AND NOT 7 = push_bit 3 (drop_bit 3 w)"
proof -
  have "(7 :: 32 word) = mask 3" by (simp add: mask_eq_exp_minus_1)
  then show ?thesis
    by (simp add: bit_eq_iff bit_simps) (auto simp: not_less)
qed

lemma unat_lt32: "unat (w::32 word) < 4294967296"
  using unsigned_less[of w, where 'a=nat] by simp

lemma unat_and_not7: "unat ((w::32 word) AND NOT 7) = 8 * (unat w div 8)"
proof -
  have "unat (push_bit 3 (drop_bit 3 w)) = take_bit 32 (push_bit 3 (drop_bit 3 (unat w)))"
    by (simp add: unsigned_push_bit_eq unat_drop_bit_eq)
  also have "\<dots> = (8 * (unat w div 8)) mod 4294967296"
    by (simp add: take_bit_eq_mod push_bit_eq_mult drop_bit_eq_div mult.commute)
  also have "\<dots> = 8 * (unat w div 8)"
    using unat_lt32[of w] by simp
  finally show ?thesis unfolding and_not7 .
qed

lemma unat_and_1: "unat ((w :: 32 word) AND 1) = unat w mod 2"
  by (simp add: and.commute unsigned_and_eq)

lemma unat_of_nat32: "unat (word_of_nat v :: 32 word) = v mod 4294967296"
  by (simp add: unat_of_nat)

lemma SIZE_eq: "SIZE m h = 8 * (unat (GET m h) div 8)"
  unfolding SIZE_def by (rule unat_and_not7)

lemma ALLOC_eq: "ALLOC m h = unat (GET m h) mod 2"
  unfolding ALLOC_def by (rule unat_and_1)

lemma PACK_plus: "8 dvd sz \<Longrightarrow> a \<le> 1 \<Longrightarrow> PACK sz a = sz + a"
proof -
  assume d: "8 dvd sz" and a: "a \<le> 1"
  then have "even sz" by (auto simp: dvd_def)
  from a have "a = 0 \<or> a = Suc 0" by auto
  then show ?thesis using \<open>even sz\<close> by (auto simp: PACK_def or_Suc_0_eq)
qed

lemma SIZE_dvd: "8 dvd SIZE m h"
  by (simp add: SIZE_eq)

lemma SIZE_lt: "SIZE m h < 4294967296"
proof -
  have "SIZE m h \<le> unat (GET m h)" by (simp add: SIZE_eq)
  then show ?thesis using unat_lt32[of "GET m h"] by simp
qed

lemma ALLOC_le: "ALLOC m h \<le> 1"
  by (simp add: ALLOC_eq)

lemma SIZE_cong:
  assumes "\<And>i. i < 4 \<Longrightarrow> m' (p + i) = m (p + i)"
  shows "SIZE m' p = SIZE m p"
  using GET_cong[of m' p m, OF assms] by (simp only: SIZE_eq)

lemma ALLOC_cong:
  assumes "\<And>i. i < 4 \<Longrightarrow> m' (p + i) = m (p + i)"
  shows "ALLOC m' p = ALLOC m p"
  using GET_cong[of m' p m, OF assms] by (simp only: ALLOC_eq)

lemma SIZE_SET_raw: "SIZE (SET m p v) p = 8 * ((v mod 4294967296) div 8)"
  unfolding SIZE_eq GET_SET_same unat_of_nat32 ..

lemma ALLOC_SET_raw: "ALLOC (SET m p v) p = (v mod 4294967296) mod 2"
  unfolding ALLOC_eq GET_SET_same unat_of_nat32 ..

lemma SIZE_SET_same:
  "8 dvd sz \<Longrightarrow> sz < 4294967296 \<Longrightarrow> a \<le> 1 \<Longrightarrow> SIZE (SET m p (PACK sz a)) p = sz"
proof -
  assume d: "8 dvd sz" and l: "sz < 4294967296" and a: "a \<le> 1"
  from d obtain k where k: "sz = 8 * k" by (auto simp: dvd_def)
  have "k < 536870912" using k l by simp
  then have 1: "sz + a < 4294967296" using k a by linarith
  have 2: "(sz + a) div 8 = k" using k a by simp
  show ?thesis
    unfolding SIZE_SET_raw PACK_plus[OF d a] using 1 2 k by simp
qed

lemma ALLOC_SET_same:
  "8 dvd sz \<Longrightarrow> a \<le> 1 \<Longrightarrow> ALLOC (SET m p (PACK sz a)) p = a"
proof -
  assume d: "8 dvd sz" and a: "a \<le> 1"
  from d obtain k where k: "sz = 8 * k" by (auto simp: dvd_def)
  have 1: "((sz + a) mod 4294967296) mod 2 = (sz + a) mod 2"
    by (simp add: mod_mod_cancel)
  have 2: "(sz + a) mod 2 = a" using k a by presburger
  show ?thesis
    unfolding ALLOC_SET_raw PACK_plus[OF d a] using 1 2 by simp
qed

lemma SIZE_SET_other: "q + 4 \<le> p \<or> p + 4 \<le> q \<Longrightarrow> SIZE (SET m p v) q = SIZE m q"
  by (simp add: SIZE_eq GET_SET_other)

lemma ALLOC_SET_other: "q + 4 \<le> p \<or> p + 4 \<le> q \<Longrightarrow> ALLOC (SET m p v) q = ALLOC m q"
  by (simp add: ALLOC_eq GET_SET_other)

lemma ptr_SET_same: "p < 4294967296 \<Longrightarrow> ptr_of (GET (SET m a (int_of_ptr p)) a) = p"
  by (simp add: ptr_of_def GET_SET_same int_of_ptr_def unat_of_nat32)


lemma ptr_SET_zero: "ptr_of (GET (SET m a 0) a) = 0"
  by (simp add: ptr_of_def GET_SET_same)

lemma ptr_SET_other: "q + 4 \<le> p \<or> p + 4 \<le> q \<Longrightarrow> ptr_of (GET (SET m p v) q) = ptr_of (GET m q)"
  by (simp add: GET_SET_other)


section \<open>Request sizes\<close>

lemma and_mask_upper:
  assumes "3 \<le> W" "x < 2 ^ W"
  shows "(x::nat) AND (2 ^ W - 8) = 8 * (x div 8)"
proof -
  have e: "(2::nat) ^ W - 8 = push_bit 3 (mask (W - 3))"
  proof -
    have "(2::nat) ^ W = 2 ^ (3 + (W - 3))" using assms(1) by simp
    also have "\<dots> = 8 * 2 ^ (W - 3)" by (simp only: power_add) simp
    finally show ?thesis by (simp add: push_bit_eq_mult mask_eq_exp_minus_1 diff_mult_distrib2)
  qed
  have r: "8 * (x div 8) = push_bit 3 (drop_bit 3 x)"
    by (simp add: push_bit_eq_mult drop_bit_eq_div)
  have b: "n < W" if "bit x n" for n
  proof (rule ccontr)
    assume "\<not> n < W"
    then have "(2::nat) ^ W \<le> 2 ^ n" by (simp add: power_increasing)
    then have "x < 2 ^ n" using assms(2) by linarith
    then have "x div 2 ^ n = 0" by simp
    then show False using that by (simp add: bit_iff_odd)
  qed
  show ?thesis
    unfolding e r
    by (rule bit_eqI) (auto simp add: bit_simps dest: b)
qed

section \<open>Tiling of the heap by blocks\<close>

lemma chain_le: "chain m p bs e \<Longrightarrow> p \<le> e"
proof (induction bs arbitrary: p)
  case Nil then show ?case by simp
next
  case (Cons b bs)
  obtain q sz a where b: "b = (q, sz, a)" by (cases b)
  from Cons.prems b have "chain m (p + sz) bs e" by simp
  from Cons.IH[OF this] show ?case by simp
qed

lemma chain_append:
  "chain m p (xs @ ys) e \<longleftrightarrow> (\<exists>q. chain m p xs q \<and> chain m q ys e)"
proof (induction xs arbitrary: p)
  case Nil then show ?case by simp
next
  case (Cons b xs)
  obtain q sz a where b: "b = (q, sz, a)" by (cases b)
  show ?case unfolding b by (auto simp: Cons.IH)
qed

lemma chain_end: "chain m p bs e \<Longrightarrow> e = p + total_size bs"
proof (induction bs arbitrary: p)
  case Nil then show ?case by (simp add: total_size_def)
next
  case (Cons b bs)
  obtain q sz a where b: "b = (q, sz, a)" by (cases b)
  from Cons.prems b have "chain m (p + sz) bs e" by simp
  from Cons.IH[OF this] show ?case by (simp add: b total_size_def)
qed

lemma chain_unique_end: "chain m p bs e \<Longrightarrow> chain m p bs e' \<Longrightarrow> e = e'"
  using chain_end[of m p bs e] chain_end[of m p bs e'] by simp

lemma chain_in:
  "chain m p bs e \<Longrightarrow> (x, sz, a) \<in> set bs \<Longrightarrow>
     p \<le> x \<and> x + sz \<le> e \<and> 16 \<le> sz \<and> 8 dvd sz \<and>
     ALLOC m (x - 4) = (if a then 1 else 0) \<and> SIZE m (x + sz - 8) = sz \<and>
     (\<not> a \<longrightarrow> SIZE m (x - 4) = sz)"
proof (induction bs arbitrary: p)
  case Nil then show ?case by simp
next
  case (Cons b bs)
  obtain q sz' a' where b: "b = (q, sz', a')" by (cases b)
  from Cons.prems(1) b have c: "chain m (p + sz') bs e" and h: "q = p" "16 \<le> sz'" "8 dvd sz'"
    "ALLOC m (p - 4) = (if a' then 1 else 0)" "SIZE m (p + sz' - 8) = sz'"
    "\<not> a' \<longrightarrow> SIZE m (p - 4) = sz'" by simp_all
  show ?case
  proof (cases "(x, sz, a) = b")
    case True
    with b h chain_le[OF c] show ?thesis by auto
  next
    case False
    with Cons.prems(2) have "(x, sz, a) \<in> set bs" by simp
    from Cons.IH[OF c this] show ?thesis by auto
  qed
qed

lemma chain_sep:
  "chain m p bs e \<Longrightarrow> (x, sz, a) \<in> set bs \<Longrightarrow> (y, sz', a') \<in> set bs \<Longrightarrow>
     (x, sz, a) = (y, sz', a') \<or> x + sz \<le> y \<or> y + sz' \<le> x"
proof (induction bs arbitrary: p)
  case Nil then show ?case by simp
next
  case (Cons b bs)
  obtain q bsz ba where b: "b = (q, bsz, ba)" by (cases b)
  from Cons.prems(1) b have c: "chain m (p + bsz) bs e" and h: "q = p" by simp_all
  consider "(x, sz, a) = b" "(y, sz', a') = b" | "(x, sz, a) = b" "(y, sz', a') \<in> set bs"
    | "(x, sz, a) \<in> set bs" "(y, sz', a') = b" | "(x, sz, a) \<in> set bs" "(y, sz', a') \<in> set bs"
    using Cons.prems(2,3) by auto
  then show ?case
  proof cases
    case 1 then show ?thesis by simp
  next
    case 2
    from chain_in[OF c 2(2)] 2(1) b h show ?thesis by auto
  next
    case 3
    from chain_in[OF c 3(1)] 3(2) b h show ?thesis by auto
  next
    case 4
    from Cons.IH[OF c 4] show ?thesis .
  qed
qed

lemma chain_addr_inj:
  "chain m p bs e \<Longrightarrow> (x, sz, a) \<in> set bs \<Longrightarrow> (x, sz', a') \<in> set bs \<Longrightarrow> sz = sz' \<and> a = a'"
  using chain_sep[of m p bs e x sz a x sz' a'] chain_in[of m p bs e x sz a]
    chain_in[of m p bs e x sz' a'] by auto

lemma chain_frame:
  assumes "chain m p bs e"
    and "\<And>x sz a i. (x, sz, a) \<in> set bs \<Longrightarrow> i < 4 \<Longrightarrow>
           m' (x - 4 + i) = m (x - 4 + i) \<and> m' (x + sz - 8 + i) = m (x + sz - 8 + i)"
  shows "chain m' p bs e"
  using assms
proof (induction bs arbitrary: p)
  case Nil then show ?case by simp
next
  case (Cons b bs)
  obtain q sz a where b: "b = (q, sz, a)" by (cases b)
  from Cons.prems(1) b have c: "chain m (p + sz) bs e" and h: "q = p" "16 \<le> sz" "8 dvd sz"
    "ALLOC m (p - 4) = (if a then 1 else 0)" "SIZE m (p + sz - 8) = sz"
    "\<not> a \<longrightarrow> SIZE m (p - 4) = sz" by simp_all
  have t: "\<And>i. i < 4 \<Longrightarrow> m' (p - 4 + i) = m (p - 4 + i) \<and> m' (p + sz - 8 + i) = m (p + sz - 8 + i)"
    using Cons.prems(2)[of q sz a] b h(1) by simp
  have 1: "ALLOC m' (p - 4) = ALLOC m (p - 4)" by (rule ALLOC_cong) (simp add: t)
  have 2: "SIZE m' (p - 4) = SIZE m (p - 4)" by (rule SIZE_cong) (simp add: t)
  have 3: "SIZE m' (p + sz - 8) = SIZE m (p + sz - 8)" by (rule SIZE_cong) (simp add: t)
  have "chain m' (p + sz) bs e"
    by (rule Cons.IH[OF c]) (use Cons.prems(2) in auto)
  with h 1 2 3 show ?case by (simp add: b)
qed

lemma chain_frame_region:
  assumes "chain m p bs e" "4 \<le> p"
    and "\<And>a. p - 4 \<le> a \<Longrightarrow> a < e - 4 \<Longrightarrow> m' a = m a"
  shows "chain m' p bs e"
proof (rule chain_frame[OF assms(1)])
  fix x sz a i assume h: "(x, sz, a) \<in> set bs" "(i::nat) < 4"
  from chain_in[OF assms(1) h(1)] have "p \<le> x" "x + sz \<le> e" "16 \<le> sz" by auto
  with h(2) assms(2) show "m' (x - 4 + i) = m (x - 4 + i) \<and> m' (x + sz - 8 + i) = m (x + sz - 8 + i)"
    by (auto intro!: assms(3))
qed

lemma chain_frame_inside:
  assumes "chain m p bs e" "4 \<le> p" "(x, sz, al) \<in> set bs"
    and "\<And>a. a < x \<or> x + sz - 8 \<le> a \<Longrightarrow> m' a = m a"
  shows "chain m' p bs e"
proof (rule chain_frame[OF assms(1)])
  fix y sz' a' i assume h: "(y, sz', a') \<in> set bs" "(i::nat) < 4"
  from chain_in[OF assms(1) h(1)] have y: "p \<le> y" "y + sz' \<le> e" "16 \<le> sz'" by auto
  from chain_in[OF assms(1) assms(3)] have x: "p \<le> x" "x + sz \<le> e" "16 \<le> sz" by auto
  from chain_sep[OF assms(1) assms(3) h(1)]
  have "(x = y \<and> sz = sz') \<or> x + sz \<le> y \<or> y + sz' \<le> x" by auto
  with h(2) assms(2) x y
  show "m' (y - 4 + i) = m (y - 4 + i) \<and> m' (y + sz' - 8 + i) = m (y + sz' - 8 + i)"
    by (auto intro!: assms(4))
qed

lemma chain_SET_inside:
  assumes "chain m p bs e" "4 \<le> p" "(x, sz, al) \<in> set bs" "x \<le> w" "w + 12 \<le> x + sz"
  shows "chain (SET m w v) p bs e"
  by (rule chain_frame_inside[OF assms(1,2,3)]) (use assms(4,5) in \<open>auto intro!: SET_other\<close>)

lemma hdrs_frame:
  assumes "hdrs m bs"
    and "\<And>x sz i. (x, sz, True) \<in> set bs \<Longrightarrow> i < 4 \<Longrightarrow> m' (x - 4 + i) = m (x - 4 + i)"
  shows "hdrs m' bs"
proof -
  have "SIZE m' (x - 4) = sz" if h: "(x, sz, True) \<in> set bs" for x sz
  proof -
    have "SIZE m' (x - 4) = SIZE m (x - 4)" by (rule SIZE_cong) (simp add: assms(2)[OF h])
    with assms(1) h show ?thesis by (auto simp: hdrs_def)
  qed
  then show ?thesis by (auto simp: hdrs_def)
qed

lemma blocks_from_chain:
  "chain m p bs e \<Longrightarrow> hdrs m bs \<Longrightarrow> blocks_from m p e = bs"
proof (induction bs arbitrary: p)
  case Nil
  then show ?case by (simp add: blocks_from.simps)
next
  case (Cons b bs)
  obtain q sz a where b: "b = (q, sz, a)" by (cases b)
  from Cons.prems(1) b have c: "chain m (p + sz) bs e" and h: "q = p" "16 \<le> sz" "8 dvd sz"
    "ALLOC m (p - 4) = (if a then 1 else 0)" "SIZE m (p + sz - 8) = sz"
    "\<not> a \<longrightarrow> SIZE m (p - 4) = sz" by simp_all
  have s: "SIZE m (p - 4) = sz" using h(6) Cons.prems(2) b h(1) by (cases a) (auto simp: hdrs_def)
  have hd: "hdrs m bs" using Cons.prems(2) by (auto simp: hdrs_def)
  have lt: "p < e" using chain_le[OF c] h(2) by simp
  have "blocks_from m p e = (p, sz, a) # blocks_from m (p + sz) e"
    using lt s h(2,4) by (subst blocks_from.simps) (auto simp: HDR_def NEXT_def)
  with Cons.IH[OF c hd] b h(1) show ?case by simp
qed

section \<open>The free list in memory\<close>

lemma ptr_of_lt: "ptr_of w < 4294967296"
  unfolding ptr_of_def by (rule unat_lt32)

lemma int_of_ptr_id: "p < 4294967296 \<Longrightarrow> int_of_ptr p = p"
  by (simp add: int_of_ptr_def)

lemma ptr_cong:
  assumes "\<And>i. i < 4 \<Longrightarrow> m' (p + i) = m (p + i)"
  shows "ptr_of (GET m' p) = ptr_of (GET m p)"
  using GET_cong[of m' p m, OF assms] by simp

lemma dll_frame:
  assumes "dll m prv xs q"
    and "\<And>x i. x \<in> set xs \<Longrightarrow> i < 8 \<Longrightarrow> m' (x + i) = m (x + i)"
  shows "dll m' prv xs q"
  using assms
proof (induction xs arbitrary: prv q)
  case Nil then show ?case by simp
next
  case (Cons x xs)
  have 1: "ptr_of (GET m' x) = ptr_of (GET m x)"
    by (rule ptr_cong) (simp add: Cons.prems(2))
  have 2: "ptr_of (GET m' (x + 4)) = ptr_of (GET m (x + 4))"
  proof (rule ptr_cong)
    fix i :: nat assume "i < 4"
    then have "m' (x + (4 + i)) = m (x + (4 + i))" by (intro Cons.prems(2)) simp_all
    then show "m' (x + 4 + i) = m (x + 4 + i)" by (simp add: add.assoc)
  qed
  from Cons.prems(1) have d: "dll m x xs (ptr_of (GET m (x + 4)))" by simp
  have "dll m' x xs (ptr_of (GET m (x + 4)))"
    by (rule Cons.IH[OF d]) (simp add: Cons.prems(2))
  with Cons.prems(1) 1 2 show ?case by simp
qed

lemma dll_nonzero: "dll m prv xs q \<Longrightarrow> 0 \<notin> set xs"
  by (induction xs arbitrary: prv q) auto

lemma dll_lt: "dll m prv xs q \<Longrightarrow> q < 4294967296 \<Longrightarrow> x \<in> set xs \<Longrightarrow> x < 4294967296"
proof (induction xs arbitrary: prv q)
  case Nil then show ?case by simp
next
  case (Cons y ys)
  from Cons.prems(1) have d: "dll m y ys (ptr_of (GET m (y + 4)))" and q: "q = y" by simp_all
  show ?case
  proof (cases "x = y")
    case True with q Cons.prems(2) show ?thesis by simp
  next
    case False
    with Cons.prems(3) have "x \<in> set ys" by simp
    from Cons.IH[OF d ptr_of_lt this] show ?thesis .
  qed
qed

lemma dlist_lt: "dlist m h xs \<Longrightarrow> x \<in> set xs \<Longrightarrow> x < 4294967296"
  unfolding dlist_def using dll_lt[OF _ ptr_of_lt] by blast

lemma list_from_dll: "dll m prv xs q \<Longrightarrow> list_from m q = Some xs"
proof (induction xs arbitrary: prv q)
  case Nil
  then show ?case by (subst list_from.simps) simp
next
  case (Cons x xs)
  from Cons.prems have d: "dll m x xs (ptr_of (GET m (x + 4)))" and q: "q = x" "x \<noteq> 0" by simp_all
  from Cons.IH[OF d] q show ?case
    by (subst list_from.simps) (simp add: SUCC_def)
qed

lemma first_fit_dll:
  "dll m prv xs q \<Longrightarrow>
     first_fit m asize q =
       Some (case find (\<lambda>x. asize \<le> SIZE m (HDR x)) xs of None \<Rightarrow> 0 | Some x \<Rightarrow> x)"
proof (induction xs arbitrary: prv q)
  case Nil
  then show ?case by (subst first_fit.simps) simp
next
  case (Cons x xs)
  from Cons.prems have d: "dll m x xs (ptr_of (GET m (x + 4)))" and q: "q = x" "x \<noteq> 0" by simp_all
  from Cons.IH[OF d] q show ?case
    by (subst first_fit.simps) (simp add: SUCC_def)
qed

lemma dll_neighbours:
  "dll m h (ys @ x # zs) q \<Longrightarrow>
     ptr_of (GET m x) = (if ys = [] then h else last ys) \<and>
     ptr_of (GET m (x + 4)) = (case zs of [] \<Rightarrow> 0 | z # _ \<Rightarrow> z)"
proof (induction ys arbitrary: h q)
  case Nil
  then show ?case by (cases zs) auto
next
  case (Cons y ys)
  from Cons.prems have d: "dll m y (ys @ x # zs) (ptr_of (GET m (y + 4)))" by simp
  from Cons.IH[OF d] show ?case by auto
qed

lemma sep8_subset: "sep8 A \<Longrightarrow> B \<subseteq> A \<Longrightarrow> sep8 B"
  unfolding sep8_def by blast

lemma sep8D: "sep8 A \<Longrightarrow> x \<in> A \<Longrightarrow> y \<in> A \<Longrightarrow> x \<noteq> y \<Longrightarrow> x + 8 \<le> y \<or> y + 8 \<le> x"
  unfolding sep8_def by blast

lemma push_front_dlist:
  assumes d: "dlist m h xs" and p: "p \<noteq> 0" "p < 4294967296" and h: "h < 4294967296"
    and s: "sep8 (insert p (insert h (set xs)))" and n: "p \<notin> set xs" "p \<noteq> h" "h \<notin> set xs"
    and dist: "distinct xs"
  shows "dlist (push_front m h p) h (p # xs)"
proof (cases xs)
  case Nil
  with d have f: "ptr_of (GET m (h + 4)) = 0" by (simp add: dlist_def)
  have hp: "h + 8 \<le> p \<or> p + 8 \<le> h" using sep8D[OF s, of h p] n by auto
  have m': "push_front m h p = SET (SET (SET m (h + 4) p) p h) (p + 4) 0"
    by (simp add: push_front_def Let_def f SUCC_def PRED_def int_of_ptr_id p h int_of_ptr_def)
  show ?thesis
    unfolding m' dlist_def Nil using hp p h
    by (auto simp add: GET_SET_other GET_SET_same ptr_of_def unat_of_nat32)
next
  case (Cons x xs')
  with d have f: "ptr_of (GET m (h + 4)) = x" and x0: "x \<noteq> 0"
    and d': "dll m x xs' (ptr_of (GET m (x + 4)))"
    by (simp_all add: dlist_def)
  have x: "x < 4294967296" using f ptr_of_lt[of "GET m (h + 4)"] by simp
  have hp: "h + 8 \<le> p \<or> p + 8 \<le> h" using sep8D[OF s, of h p] n by auto
  have xp: "x + 8 \<le> p \<or> p + 8 \<le> x" using sep8D[OF s, of x p] n Cons by auto
  have xh: "x + 8 \<le> h \<or> h + 8 \<le> x" using sep8D[OF s, of x h] n Cons by auto
  have m': "push_front m h p = SET (SET (SET (SET m (h + 4) p) p h) (p + 4) x) x p"
    by (simp add: push_front_def Let_def f SUCC_def PRED_def int_of_ptr_id p h x x0)
  let ?m = "SET (SET (SET (SET m (h + 4) p) p h) (p + 4) x) x p"
  have 1: "ptr_of (GET ?m (h + 4)) = p" using hp xh p
    by (auto simp add: GET_SET_other GET_SET_same ptr_of_def unat_of_nat32)
  have 2: "ptr_of (GET ?m p) = h" using hp xp h
    by (auto simp add: GET_SET_other GET_SET_same ptr_of_def unat_of_nat32)
  have 3: "ptr_of (GET ?m (p + 4)) = x" using hp xp x
    by (auto simp add: GET_SET_other GET_SET_same ptr_of_def unat_of_nat32)
  have 4: "ptr_of (GET ?m x) = p" using p
    by (auto simp add: GET_SET_other GET_SET_same ptr_of_def unat_of_nat32)
  have 5: "ptr_of (GET ?m (x + 4)) = ptr_of (GET m (x + 4))" using xp xh
    by (auto simp add: GET_SET_other)
  have 6: "dll ?m x xs' (ptr_of (GET m (x + 4)))"
  proof (rule dll_frame[OF d'])
    fix y i assume y: "y \<in> set xs'" "(i::nat) < 8"
    have yx: "y \<noteq> x" using dist y(1) Cons by auto
    have "y + 8 \<le> p \<or> p + 8 \<le> y" using sep8D[OF s, of y p] n y Cons by auto
    moreover have "y + 8 \<le> h \<or> h + 8 \<le> y" using sep8D[OF s, of y h] n y Cons by auto
    moreover have "y + 8 \<le> x \<or> x + 8 \<le> y" using sep8D[OF s, of y x] yx y Cons by auto
    ultimately show "?m (y + i) = m (y + i)" using y(2)
      by (auto simp add: SET_other)
  qed
  show ?thesis
    unfolding m' dlist_def Cons using 1 2 3 4 5 6 p x0 by simp
qed

lemma unlink_other:
  assumes "a < ptr_of (GET m x) + 4 \<or> ptr_of (GET m x) + 8 \<le> a"
    and "ptr_of (GET m (x + 4)) = 0 \<or> a < ptr_of (GET m (x + 4)) \<or> ptr_of (GET m (x + 4)) + 4 \<le> a"
  shows "unlink m x a = m a"
  using assms by (auto simp: unlink_def Let_def PRED_def SUCC_def SET_other)

lemma unlink_dlist:
  assumes "dlist m h (ys @ x # zs)" "distinct (h # ys @ x # zs)"
    "sep8 (set (h # ys @ x # zs))" "h < 4294967296"
  shows "dlist (unlink m x) h (ys @ zs)"
  using assms
proof (induction ys arbitrary: h)
  case Nil
  from Nil.prems(1) have f: "ptr_of (GET m (h + 4)) = x" and x0: "x \<noteq> 0"
    and px: "ptr_of (GET m x) = h" and d: "dll m x zs (ptr_of (GET m (x + 4)))"
    by (simp_all add: dlist_def)
  have hx: "h + 8 \<le> x \<or> x + 8 \<le> h" using sep8D[OF Nil.prems(3), of h x] Nil.prems(2) by auto
  show ?case
  proof (cases zs)
    case Nil
    with d have sc: "ptr_of (GET m (x + 4)) = 0" by simp
    have "unlink m x = SET m (h + 4) 0"
      by (simp add: unlink_def Let_def PRED_def SUCC_def px sc int_of_ptr_def)
    then show ?thesis using Nil by (simp add: dlist_def GET_SET_same ptr_of_def)
  next
    case (Cons z zs')
    with d have sc: "ptr_of (GET m (x + 4)) = z" and z0: "z \<noteq> 0"
      and d': "dll m z zs' (ptr_of (GET m (z + 4)))" by simp_all
    have z: "z < 4294967296" using sc ptr_of_lt[of "GET m (x + 4)"] by simp
    have hz: "h + 8 \<le> z \<or> z + 8 \<le> h"
      using sep8D[OF Nil.prems(3), of h z] Nil.prems(2) Cons by auto
    have m': "unlink m x = SET (SET m (h + 4) z) z h"
      by (simp add: unlink_def Let_def PRED_def SUCC_def px sc int_of_ptr_id z z0 Nil.prems(4))
    let ?m = "SET (SET m (h + 4) z) z h"
    have 1: "ptr_of (GET ?m (h + 4)) = z" using hz z
      by (auto simp add: GET_SET_other GET_SET_same ptr_of_def unat_of_nat32)
    have 2: "ptr_of (GET ?m z) = h" using Nil.prems(4)
      by (auto simp add: GET_SET_other GET_SET_same ptr_of_def unat_of_nat32)
    have 3: "ptr_of (GET ?m (z + 4)) = ptr_of (GET m (z + 4))" using hz
      by (auto simp add: GET_SET_other)
    have 4: "dll ?m z zs' (ptr_of (GET m (z + 4)))"
    proof (rule dll_frame[OF d'])
      fix y i assume y: "y \<in> set zs'" "(i::nat) < 8"
      have "y + 8 \<le> h \<or> h + 8 \<le> y"
        using sep8D[OF Nil.prems(3), of y h] Nil.prems(2) y Cons by auto
      moreover have "y + 8 \<le> z \<or> z + 8 \<le> y"
        using sep8D[OF Nil.prems(3), of y z] Nil.prems(2) y Cons by auto
      ultimately show "?m (y + i) = m (y + i)" using y(2)
        by (auto simp add: SET_other)
    qed
    show ?thesis unfolding m' using 1 2 3 4 z0 Cons by (simp add: dlist_def)
  qed
next
  case (Cons y ys)
  from Cons.prems(1) have f: "ptr_of (GET m (h + 4)) = y" and y0: "y \<noteq> 0"
    and py: "ptr_of (GET m y) = h" and d: "dlist m y (ys @ x # zs)"
    by (simp_all add: dlist_def)
  have y: "y < 4294967296" using f ptr_of_lt[of "GET m (h + 4)"] by simp
  have dist: "distinct (y # ys @ x # zs)" using Cons.prems(2) by simp
  have sep: "sep8 (set (y # ys @ x # zs))"
    by (rule sep8_subset[OF Cons.prems(3)]) auto
  have IH: "dlist (unlink m x) y (ys @ zs)" by (rule Cons.IH[OF d dist sep y])
  from d have "dll m y (ys @ x # zs) (ptr_of (GET m (y + 4)))" by (simp add: dlist_def)
  from dll_neighbours[OF this]
  have pr: "ptr_of (GET m x) = (if ys = [] then y else last ys)"
    and sc: "ptr_of (GET m (x + 4)) = (case zs of [] \<Rightarrow> 0 | z # _ \<Rightarrow> z)" by simp_all
  have prin: "ptr_of (GET m x) \<in> set (y # ys)" using pr by auto
  have scin: "ptr_of (GET m (x + 4)) = 0 \<or> ptr_of (GET m (x + 4)) \<in> set zs"
    using sc by (cases zs) auto
  have prh: "ptr_of (GET m x) + 8 \<le> h \<or> h + 8 \<le> ptr_of (GET m x)"
    using sep8D[OF Cons.prems(3), of "ptr_of (GET m x)" h] prin Cons.prems(2) by auto
  have sch: "ptr_of (GET m (x + 4)) = 0 \<or> ptr_of (GET m (x + 4)) + 8 \<le> h \<or> h + 8 \<le> ptr_of (GET m (x + 4))"
    using sep8D[OF Cons.prems(3), of "ptr_of (GET m (x + 4))" h] scin Cons.prems(2) by auto
  have pry: "ptr_of (GET m x) = y \<or> ptr_of (GET m x) + 8 \<le> y \<or> y + 8 \<le> ptr_of (GET m x)"
    using sep8D[OF Cons.prems(3), of "ptr_of (GET m x)" y] prin by auto
  have scy: "ptr_of (GET m (x + 4)) = 0 \<or> ptr_of (GET m (x + 4)) + 8 \<le> y \<or> y + 8 \<le> ptr_of (GET m (x + 4))"
    using sep8D[OF Cons.prems(3), of "ptr_of (GET m (x + 4))" y] scin Cons.prems(2) by auto
  have 1: "ptr_of (GET (unlink m x) (h + 4)) = ptr_of (GET m (h + 4))"
  proof (rule ptr_cong)
    fix i :: nat assume "i < 4"
    then show "unlink m x (h + 4 + i) = m (h + 4 + i)"
      using prh sch by (intro unlink_other) auto
  qed
  have 2: "ptr_of (GET (unlink m x) y) = ptr_of (GET m y)"
  proof (rule ptr_cong)
    fix i :: nat assume "i < 4"
    then show "unlink m x (y + i) = m (y + i)"
      using pry scy by (intro unlink_other) auto
  qed
  from IH 1 2 f py y0 show ?case by (simp add: dlist_def)
qed

section \<open>Block lists\<close>

lemma free_blocks_simps [simp]:
  "free_blocks [] = []"
  "free_blocks ((p, sz, a) # bs) = (if a then free_blocks bs else p # free_blocks bs)"
  "free_blocks (xs @ ys) = free_blocks xs @ free_blocks ys"
  by (simp_all add: free_blocks_def)

lemma live_simps [simp]:
  "live [] = []"
  "live ((p, sz, a) # bs) = (if a then p # live bs else live bs)"
  "live (xs @ ys) = live xs @ live ys"
  by (simp_all add: live_def)

lemma total_size_simps [simp]:
  "total_size [] = 0"
  "total_size ((p, sz, a) # bs) = sz + total_size bs"
  "total_size (xs @ ys) = total_size xs + total_size ys"
  by (simp_all add: total_size_def)

lemma free_blocks_iff: "x \<in> set (free_blocks bs) \<longleftrightarrow> (\<exists>sz. (x, sz, False) \<in> set bs)"
  by (induction bs) (auto split: if_splits)

lemma live_iff: "x \<in> set (live bs) \<longleftrightarrow> (\<exists>sz. (x, sz, True) \<in> set bs)"
  by (induction bs) (auto split: if_splits)

lemma naf_Cons:
  "no_adjacent_free (b # bs) \<longleftrightarrow>
     no_adjacent_free bs \<and> (bs = [] \<or> snd (snd b) \<or> snd (snd (hd bs)))"
proof (cases bs)
  case Nil then show ?thesis by (cases b) simp
next
  case (Cons c cs)
  then show ?thesis by (cases b; cases c) auto
qed

lemma naf_append:
  "no_adjacent_free (xs @ ys) \<longleftrightarrow>
     no_adjacent_free xs \<and> no_adjacent_free ys \<and>
     (xs = [] \<or> ys = [] \<or> snd (snd (last xs)) \<or> snd (snd (hd ys)))"
proof (induction xs)
  case Nil then show ?case by simp
next
  case (Cons b xs)
  show ?case
  proof (cases xs)
    case Nil
    then show ?thesis by (cases ys) (auto simp: naf_Cons)
  next
    case (Cons c cs)
    then show ?thesis using Cons.IH by (auto simp: naf_Cons)
  qed
qed

section \<open>Geometry of a tiled heap\<close>

lemma chain_sep8: "chain m p bs e \<Longrightarrow> sep8 (fst ` set bs)"
  unfolding sep8_def
proof (intro ballI)
  fix x y assume c: "chain m p bs e" and "x \<in> fst ` set bs" "y \<in> fst ` set bs"
  then obtain sz a sz' a' where m: "(x, sz, a) \<in> set bs" "(y, sz', a') \<in> set bs" by auto
  from chain_sep[OF c m] chain_in[OF c m(1)] chain_in[OF c m(2)]
  show "x = y \<or> x + 8 \<le> y \<or> y + 8 \<le> x" by auto
qed

lemma chain_link_tag:
  assumes "chain m p bs e" "(x, sz, a) \<in> set bs" "(y, sz', a') \<in> set bs"
  shows "(y + 8 \<le> x - 4 \<or> x \<le> y) \<and> (y + 8 \<le> x + sz - 8 \<or> x + sz - 4 \<le> y)"
proof -
  from chain_in[OF assms(1,2)] have 1: "16 \<le> sz" by simp
  from chain_in[OF assms(1,3)] have 2: "16 \<le> sz'" by simp
  from chain_sep[OF assms] consider "x = y" "sz = sz'" | "x + sz \<le> y" | "y + sz' \<le> x" by auto
  then show ?thesis
  proof cases
    case 1 with \<open>16 \<le> sz\<close> show ?thesis by arith
  next
    case 2 with \<open>16 \<le> sz\<close> show ?thesis by arith
  next
    case 3 with \<open>16 \<le> sz'\<close> \<open>16 \<le> sz\<close> show ?thesis by arith
  qed
qed

lemma chain_links_frame:
  assumes c: "chain m p bs e" and p: "4 \<le> p"
    and f: "\<And>a. (\<And>y sz al. (y, sz, al) \<in> set bs \<Longrightarrow> a < y \<or> y + 8 \<le> a) \<Longrightarrow> m' a = m a"
  shows "chain m' p bs e"
proof (rule chain_frame[OF c])
  fix x sz a i assume h: "(x, sz, a) \<in> set bs" "(i::nat) < 4"
  from chain_in[OF c h(1)] p have x: "4 \<le> x" "16 \<le> sz" by auto
  have 1: "m' (x - 4 + i) = m (x - 4 + i)"
  proof (rule f)
    fix y sz' al assume y: "(y, sz', al) \<in> set bs"
    from chain_link_tag[OF c h(1) y] h(2) x show "x - 4 + i < y \<or> y + 8 \<le> x - 4 + i" by auto
  qed
  have 2: "m' (x + sz - 8 + i) = m (x + sz - 8 + i)"
  proof (rule f)
    fix y sz' al assume y: "(y, sz', al) \<in> set bs"
    from chain_link_tag[OF c h(1) y] h(2) x show "x + sz - 8 + i < y \<or> y + 8 \<le> x + sz - 8 + i" by auto
  qed
  from 1 2 show "m' (x - 4 + i) = m (x - 4 + i) \<and> m' (x + sz - 8 + i) = m (x + sz - 8 + i)" ..
qed

lemma links_frame_end:
  assumes c: "chain m p bs e" and p: "4 \<le> p"
    and f: "\<And>a. (\<And>y sz al. (y, sz, al) \<in> set bs \<Longrightarrow> a < y \<or> y + 8 \<le> a) \<Longrightarrow> m' a = m a"
    and i: "(i::nat) < 4"
  shows "m' (e - 4 + i) = m (e - 4 + i)"
proof (rule f)
  fix y sz al assume y: "(y, sz, al) \<in> set bs"
  from chain_in[OF c y] p i show "e - 4 + i < y \<or> y + 8 \<le> e - 4 + i" by auto
qed

lemma push_front_other:
  assumes "a < h + 4 \<or> h + 8 \<le> a" "a < p \<or> p + 8 \<le> a"
    and "ptr_of (GET m (h + 4)) = 0 \<or> a < ptr_of (GET m (h + 4)) \<or> ptr_of (GET m (h + 4)) + 4 \<le> a"
  shows "push_front m h p a = m a"
  using assms by (auto simp: push_front_def Let_def PRED_def SUCC_def SET_other)

lemma set_tags_eq:
  assumes "8 dvd sz" "sz < 4294967296" "a \<le> 1" "4 \<le> p"
  shows "set_tags m p sz a = SET (SET m (p - 4) (PACK sz a)) (p + sz - 8) (PACK sz a)"
  using assms by (simp add: set_tags_def Let_def HDR_def FTR_def SIZE_SET_same)

lemma set_tags_other:
  assumes "8 dvd sz" "sz < 4294967296" "a \<le> 1" "4 \<le> p" "16 \<le> sz"
    and "b < p - 4 \<or> p \<le> b" "b < p + sz - 8 \<or> p + sz - 4 \<le> b"
  shows "set_tags m p sz a b = m b"
proof -
  have "b < p + sz - 8 \<or> p + sz - 8 + 4 \<le> b" using assms(4,5,7) by auto
  moreover have "b < p - 4 \<or> p - 4 + 4 \<le> b" using assms(4,6) by auto
  ultimately show ?thesis
    unfolding set_tags_eq[OF assms(1-4)] by (simp add: SET_other)
qed

lemma set_tags_hdr:
  assumes "8 dvd sz" "sz < 4294967296" "a \<le> 1" "4 \<le> p" "16 \<le> sz"
  shows "SIZE (set_tags m p sz a) (p - 4) = sz" "ALLOC (set_tags m p sz a) (p - 4) = a"
    "SIZE (set_tags m p sz a) (p + sz - 8) = sz" "ALLOC (set_tags m p sz a) (p + sz - 8) = a"
proof -
  have d: "p - 4 + 4 \<le> p + sz - 8 \<or> p + sz - 8 + 4 \<le> p - 4" using assms(4,5) by auto
  show "SIZE (set_tags m p sz a) (p - 4) = sz"
    unfolding set_tags_eq[OF assms(1-4)] SIZE_SET_other[OF d]
    by (rule SIZE_SET_same[OF assms(1-3)])
  show "ALLOC (set_tags m p sz a) (p - 4) = a"
    unfolding set_tags_eq[OF assms(1-4)] ALLOC_SET_other[OF d]
    by (rule ALLOC_SET_same[OF assms(1,3)])
  show "SIZE (set_tags m p sz a) (p + sz - 8) = sz"
    unfolding set_tags_eq[OF assms(1-4)] by (rule SIZE_SET_same[OF assms(1-3)])
  show "ALLOC (set_tags m p sz a) (p + sz - 8) = a"
    unfolding set_tags_eq[OF assms(1-4)] by (rule ALLOC_SET_same[OF assms(1,3)])
qed

lemma chain_retag:
  assumes pre: "chain m p pre x" and post: "chain m (x + sz) post e" and p: "4 \<le> p"
    and sz: "16 \<le> sz" "8 dvd sz" "sz < 4294967296" and a: "a \<le> 1"
  shows "chain (set_tags m x sz a) p (pre @ (x, sz, a \<noteq> 0) # post) e"
proof -
  let ?m = "set_tags m x sz a"
  have x: "4 \<le> x" using chain_le[OF pre] p by simp
  have 1: "chain ?m p pre x"
  proof (rule chain_frame_region[OF pre p])
    fix b assume "p - 4 \<le> b" "b < x - 4"
    then show "?m b = m b" using sz a x by (intro set_tags_other) auto
  qed
  have 2: "chain ?m (x + sz) post e"
  proof (rule chain_frame_region[OF post])
    show "4 \<le> x + sz" using x by simp
    fix b assume "x + sz - 4 \<le> b" "b < e - 4"
    then show "?m b = m b" using sz a x by (intro set_tags_other) auto
  qed
  have 3: "a = (if a \<noteq> 0 then 1 else 0)" using a by auto
  show ?thesis
    unfolding chain_append
    apply (rule exI[of _ x])
    using 1 2 sz x set_tags_hdr[of sz a x m] a 3 by auto
qed

section \<open>Steps on a well-formed heap\<close>

lemma mod_W: "x < 4294967296 \<Longrightarrow> 32 \<le> W \<Longrightarrow> x mod 2 ^ W = (x::nat)"
proof -
  assume x: "x < 4294967296" and W: "32 \<le> W"
  have "(2::nat) ^ 32 \<le> 2 ^ W" using W by (intro power_increasing) simp_all
  then have "x < 2 ^ W" using x by simp
  then show ?thesis by simp
qed

lemma chain_distinct: "chain m p bs e \<Longrightarrow> distinct (map fst bs)"
proof (induction bs arbitrary: p)
  case Nil then show ?case by simp
next
  case (Cons b bs)
  obtain q sz a where b: "b = (q, sz, a)" by (cases b)
  from Cons.prems b have c: "chain m (p + sz) bs e" and h: "q = p" "16 \<le> sz" by simp_all
  have "q \<notin> fst ` set bs"
  proof
    assume "q \<in> fst ` set bs"
    then obtain sz' a' where "(q, sz', a') \<in> set bs" by auto
    from chain_in[OF c this] h show False by simp
  qed
  with Cons.IH[OF c] b show ?case by simp
qed

lemma heap_ok_block:
  assumes "heap_ok s bs fl" "(x, sz, a) \<in> set bs"
  shows "head s + 16 \<le> x" "x + sz \<le> mem_brk s" "16 \<le> sz" "8 dvd sz" "x + sz \<le> 4294967296"
    "x < 4294967296" "sz < 4294967296" "x \<noteq> 0"
proof -
  from assms(1) have c: "chain (mem s) (head s + 16) bs (mem_brk s)"
    and b: "mem_brk s \<le> 4294967296" by (auto simp: heap_ok_def)
  from chain_in[OF c assms(2)] b
  show "head s + 16 \<le> x" "x + sz \<le> mem_brk s" "16 \<le> sz" "8 dvd sz" "x + sz \<le> 4294967296"
    "x < 4294967296" "sz < 4294967296" "x \<noteq> 0" by auto
qed

lemma heap_ok_head: "heap_ok s bs fl \<Longrightarrow> 8 \<le> head s \<and> head s < 4294967296"
proof -
  assume h: "heap_ok s bs fl"
  then have "chain (mem s) (head s + 16) bs (mem_brk s)" "mem_brk s \<le> 4294967296" "8 \<le> head s"
    by (auto simp: heap_ok_def)
  with chain_le[of "mem s" "head s + 16" bs "mem_brk s"] show ?thesis by simp
qed

lemma heap_ok_sep8:
  assumes "heap_ok s bs fl"
  shows "sep8 (insert (head s) (fst ` set bs))"
proof -
  from assms have "chain (mem s) (head s) ((head s, 16, True) # bs) (mem_brk s)"
    by (simp add: heap_ok_def)
  from chain_sep8[OF this] show ?thesis by simp
qed

text \<open>Removing a node from the free list.\<close>

lemma heap_ok_unlink:
  assumes ok: "heap_ok s bs fl" and n: "n \<in> set fl"
    and sub: "set fl - {n} \<subseteq> fst ` set bs" and hn: "head s \<notin> set fl"
    and sep: "sep8 (insert (head s) (set fl))"
  shows "heap_ok (s\<lparr>mem := unlink (mem s) n\<rparr>) bs (remove1 n fl)"
proof -
  let ?m = "mem s" and ?h = "head s"
  from ok have c: "chain ?m ?h ((?h, 16, True) # bs) (mem_brk s)" and d: "dlist ?m ?h fl"
    and dist: "distinct fl" and h8: "8 \<le> ?h" and ep: "ALLOC ?m (mem_brk s - 4) = 1"
    by (simp_all add: heap_ok_def)
  from n obtain ys zs where fl: "fl = ys @ n # zs" by (auto simp: in_set_conv_decomp)
  have nn: "n \<notin> set ys" "n \<notin> set zs" using dist fl by auto
  have r: "remove1 n fl = ys @ zs" using fl nn by (simp add: remove1_append)
  have hlt: "?h < 4294967296" using heap_ok_head[OF ok] by simp
  have d': "dlist (unlink ?m n) ?h (ys @ zs)"
  proof (rule unlink_dlist[OF _ _ _ hlt])
    show "dlist ?m ?h (ys @ n # zs)" using d fl by simp
    show "distinct (?h # ys @ n # zs)" using dist hn fl by simp
    show "sep8 (set (?h # ys @ n # zs))" using sep fl by simp
  qed
  from d fl have "dll ?m ?h (ys @ n # zs) (ptr_of (GET ?m (?h + 4)))" by (simp add: dlist_def)
  from dll_neighbours[OF this]
  have pr: "ptr_of (GET ?m n) = (if ys = [] then ?h else last ys)"
    and sc: "ptr_of (GET ?m (n + 4)) = (case zs of [] \<Rightarrow> 0 | z # _ \<Rightarrow> z)" by simp_all
  have prin: "ptr_of (GET ?m n) = ?h \<or> ptr_of (GET ?m n) \<in> fst ` set bs"
  proof (cases "ys = []")
    case True with pr show ?thesis by simp
  next
    case False
    then have "last ys \<in> set ys" by simp
    then have "last ys \<in> set fl - {n}" using fl nn by auto
    with sub pr False show ?thesis by auto
  qed
  have scin: "ptr_of (GET ?m (n + 4)) = 0 \<or> ptr_of (GET ?m (n + 4)) \<in> fst ` set bs"
    using sc sub fl nn by (cases zs) auto
  have other: "unlink ?m n a = ?m a"
    if t: "\<And>y sz al. (y, sz, al) \<in> set ((?h, 16, True) # bs) \<Longrightarrow> a < y \<or> y + 8 \<le> a" for a
  proof -
    have k: "a < y \<or> y + 8 \<le> a" if "y = ?h \<or> y \<in> fst ` set bs" for y
    proof -
      from that obtain sz al where "(y, sz, al) \<in> set ((?h, 16, True) # bs)" by force
      then show ?thesis by (rule t)
    qed
    show ?thesis
    proof (rule unlink_other)
      show "a < ptr_of (GET ?m n) + 4 \<or> ptr_of (GET ?m n) + 8 \<le> a"
        using k[OF prin] by arith
      show "ptr_of (GET ?m (n + 4)) = 0 \<or> a < ptr_of (GET ?m (n + 4)) \<or> ptr_of (GET ?m (n + 4)) + 4 \<le> a"
      proof (cases "ptr_of (GET ?m (n + 4)) = 0")
        case True then show ?thesis by simp
      next
        case False
        with scin have "ptr_of (GET ?m (n + 4)) \<in> fst ` set bs" by simp
        then show ?thesis using k[of "ptr_of (GET ?m (n + 4))"] by arith
      qed
    qed
  qed
  have c': "chain (unlink ?m n) ?h ((?h, 16, True) # bs) (mem_brk s)"
  proof (rule chain_links_frame[OF c])
    show "4 \<le> ?h" using h8 by simp
    fix a assume "\<And>y sz al. (y, sz, al) \<in> set ((?h, 16, True) # bs) \<Longrightarrow> a < y \<or> y + 8 \<le> a"
    then show "unlink ?m n a = ?m a" by (rule other)
  qed
  have "ALLOC (unlink ?m n) (mem_brk s - 4) = ALLOC ?m (mem_brk s - 4)"
  proof (rule ALLOC_cong, rule links_frame_end[OF c])
    show "4 \<le> ?h" using h8 by simp
    fix i a assume "\<And>y sz al. (y, sz, al) \<in> set ((?h, 16, True) # bs) \<Longrightarrow> a < y \<or> y + 8 \<le> a"
    then show "unlink ?m n a = ?m a" by (rule other)
  qed
  moreover have "distinct (remove1 n fl)" using dist by simp
  ultimately show ?thesis using ok c' d' r by (simp add: heap_ok_def)
qed

text \<open>Inserting a block at the head of the free list.\<close>

lemma heap_ok_push:
  assumes ok: "heap_ok s bs fl" and p: "(p, sz, a) \<in> set bs" and pn: "p \<notin> set fl"
    and sub: "set fl \<subseteq> fst ` set bs"
  shows "heap_ok (s\<lparr>mem := push_front (mem s) (head s) p\<rparr>) bs (p # fl)"
proof -
  let ?m = "mem s" and ?h = "head s"
  from ok have c: "chain ?m ?h ((?h, 16, True) # bs) (mem_brk s)" and d: "dlist ?m ?h fl"
    and dist: "distinct fl" and h8: "8 \<le> ?h" and ep: "ALLOC ?m (mem_brk s - 4) = 1"
    by (simp_all add: heap_ok_def)
  have hlt: "?h < 4294967296" using heap_ok_head[OF ok] by simp
  note pb = heap_ok_block[OF ok p]
  have hn: "?h \<notin> set fl"
  proof
    assume "?h \<in> set fl"
    with sub obtain sz' a' where "(?h, sz', a') \<in> set bs" by auto
    from heap_ok_block(1)[OF ok this] show False by simp
  qed
  have d': "dlist (push_front ?m ?h p) ?h (p # fl)"
  proof (rule push_front_dlist[OF d _ _ hlt _ pn _ hn dist])
    show "p \<noteq> 0" "p < 4294967296" "p \<noteq> ?h" using pb by auto
    show "sep8 (insert p (insert ?h (set fl)))"
    proof (rule sep8_subset[OF heap_ok_sep8[OF ok]])
      have "p \<in> fst ` set bs" using p by force
      with sub show "insert p (insert ?h (set fl)) \<subseteq> insert ?h (fst ` set bs)" by blast
    qed
  qed
  have fin: "ptr_of (GET ?m (?h + 4)) = 0 \<or> ptr_of (GET ?m (?h + 4)) \<in> fst ` set bs"
    using d sub by (cases fl) (auto simp: dlist_def)
  have other: "push_front ?m ?h p b = ?m b"
    if t: "\<And>y sz al. (y, sz, al) \<in> set ((?h, 16, True) # bs) \<Longrightarrow> b < y \<or> y + 8 \<le> b" for b
  proof -
    have k: "b < y \<or> y + 8 \<le> b" if "y = ?h \<or> y \<in> fst ` set bs" for y
    proof -
      from that obtain sz al where "(y, sz, al) \<in> set ((?h, 16, True) # bs)" by force
      then show ?thesis by (rule t)
    qed
    show ?thesis
    proof (rule push_front_other)
      show "b < ?h + 4 \<or> ?h + 8 \<le> b" using k[of ?h] by arith
      have "p \<in> fst ` set bs" using p by force
      then show "b < p \<or> p + 8 \<le> b" using k[of p] by simp
      show "ptr_of (GET ?m (?h + 4)) = 0 \<or> b < ptr_of (GET ?m (?h + 4)) \<or> ptr_of (GET ?m (?h + 4)) + 4 \<le> b"
      proof (cases "ptr_of (GET ?m (?h + 4)) = 0")
        case True then show ?thesis by simp
      next
        case False
        with fin have "ptr_of (GET ?m (?h + 4)) \<in> fst ` set bs" by simp
        then show ?thesis using k[of "ptr_of (GET ?m (?h + 4))"] by arith
      qed
    qed
  qed
  have c': "chain (push_front ?m ?h p) ?h ((?h, 16, True) # bs) (mem_brk s)"
  proof (rule chain_links_frame[OF c])
    show "4 \<le> ?h" using h8 by simp
    fix a assume "\<And>y sz al. (y, sz, al) \<in> set ((?h, 16, True) # bs) \<Longrightarrow> a < y \<or> y + 8 \<le> a"
    then show "push_front ?m ?h p a = ?m a" by (rule other)
  qed
  have "ALLOC (push_front ?m ?h p) (mem_brk s - 4) = ALLOC ?m (mem_brk s - 4)"
  proof (rule ALLOC_cong, rule links_frame_end[OF c])
    show "4 \<le> ?h" using h8 by simp
    fix i a assume "\<And>y sz al. (y, sz, al) \<in> set ((?h, 16, True) # bs) \<Longrightarrow> a < y \<or> y + 8 \<le> a"
    then show "push_front ?m ?h p a = ?m a" by (rule other)
  qed
  with ok c' d' dist pn show ?thesis by (simp add: heap_ok_def)
qed

lemma chain_total:
  "chain m p bs e \<Longrightarrow> 8 dvd total_size bs \<and> (bs \<noteq> [] \<longrightarrow> 16 \<le> total_size bs)"
proof (induction bs arbitrary: p)
  case Nil then show ?case by simp
next
  case (Cons b bs)
  obtain q sz a where b: "b = (q, sz, a)" by (cases b)
  from Cons.prems b have c: "chain m (p + sz) bs e" and h: "16 \<le> sz" "8 dvd sz" by simp_all
  from Cons.IH[OF c] h b show ?case by auto
qed

lemma chain_last:
  "chain m p bs e \<Longrightarrow> bs \<noteq> [] \<Longrightarrow> fst (last bs) + fst (snd (last bs)) = e"
proof (induction bs arbitrary: p)
  case Nil then show ?case by simp
next
  case (Cons b bs)
  obtain q sz a where b: "b = (q, sz, a)" by (cases b)
  from Cons.prems b have c: "chain m (p + sz) bs e" and h: "q = p" by simp_all
  show ?case
  proof (cases "bs = []")
    case True with c b h show ?thesis by simp
  next
    case False with Cons.IH[OF c] show ?thesis by simp
  qed
qed

lemma chain_hd: "chain m p bs e \<Longrightarrow> bs \<noteq> [] \<Longrightarrow> fst (hd bs) = p"
  by (cases bs) auto

text \<open>Writing one header and footer over a run of blocks.\<close>

lemma heap_ok_retag:
  assumes ok: "heap_ok s (pre @ mid @ post) fl" and mid: "mid \<noteq> []" "fst (hd mid) = x"
    and a: "a \<le> 1" and sub: "set fl \<subseteq> fst ` set (pre @ mid @ post)"
  shows "heap_ok (s\<lparr>mem := set_tags (mem s) x (total_size mid) a\<rparr>)
           (pre @ (x, total_size mid, a \<noteq> 0) # post) fl"
proof -
  let ?m = "mem s" and ?h = "head s" and ?P = "(head s, 16, True)" and ?sz = "total_size mid"
  let ?m' = "set_tags ?m x ?sz a"
  from ok have c: "chain ?m ?h (?P # pre @ mid @ post) (mem_brk s)" and d: "dlist ?m ?h fl"
    and h8: "8 \<le> ?h" and ep: "ALLOC ?m (mem_brk s - 4) = 1" and b32: "mem_brk s \<le> 4294967296"
    by (simp_all add: heap_ok_def)
  from c have "chain ?m ?h ((?P # pre) @ mid @ post) (mem_brk s)" by simp
  then obtain x' r where c1: "chain ?m ?h (?P # pre) x'" and c2: "chain ?m x' mid r"
    and c3: "chain ?m r post (mem_brk s)" unfolding chain_append by blast
  have x': "x' = x" using chain_hd[OF c2 mid(1)] mid(2) by simp
  have r: "r = x + ?sz" using chain_end[OF c2] x' by simp
  have sz: "16 \<le> ?sz" "8 dvd ?sz" using chain_total[OF c2] mid(1) by auto
  have xh: "?h + 16 \<le> x" using c1 x' chain_le[of ?m "?h + 16" pre x] by simp
  have rb: "r \<le> mem_brk s" using chain_le[OF c3] .
  have szlt: "?sz < 4294967296" using r rb b32 xh by simp
  have x4: "4 \<le> x" using xh by simp
  have c': "chain ?m' ?h ((?P # pre) @ (x, ?sz, a \<noteq> 0) # post) (mem_brk s)"
    by (rule chain_retag) (use c1 c3 x' r sz szlt a h8 in auto)
  have ep': "ALLOC ?m' (mem_brk s - 4) = ALLOC ?m (mem_brk s - 4)"
  proof (rule ALLOC_cong)
    fix i :: nat assume "i < 4"
    show "?m' (mem_brk s - 4 + i) = ?m (mem_brk s - 4 + i)"
      by (rule set_tags_other) (use sz szlt a x4 r rb in auto)
  qed
  obtain hx hs ha where hm: "hd mid = (hx, hs, ha)" by (cases "hd mid")
  obtain lx ls la where lm: "last mid = (lx, ls, la)" by (cases "last mid")
  have hin: "(x, hs, ha) \<in> set (?P # pre @ mid @ post)" using hm mid hd_in_set[OF mid(1)] by auto
  have lin: "(lx, ls, la) \<in> set (?P # pre @ mid @ post)" using lm last_in_set[OF mid(1)] by auto
  have le: "lx + ls = x + ?sz" using chain_last[OF c2 mid(1)] lm r by simp
  have other: "?m' (y + i) = ?m (y + i)"
    if y: "(y, ys, ya) \<in> set (?P # pre @ mid @ post)" and i: "i < 8" for y ys ya i
  proof (rule set_tags_other)
    from chain_link_tag[OF c hin y] i x4
    show "y + i < x - 4 \<or> x \<le> y + i" by auto
    from chain_link_tag[OF c lin y] i le chain_in[OF c lin]
    show "y + i < x + ?sz - 8 \<or> x + ?sz - 4 \<le> y + i" by auto
  qed (use sz szlt a x4 in auto)
  have d': "dlist ?m' ?h fl"
    unfolding dlist_def
  proof -
    have "ptr_of (GET ?m' (?h + 4)) = ptr_of (GET ?m (?h + 4))"
    proof (rule ptr_cong)
      fix i :: nat assume "i < 4"
      then show "?m' (?h + 4 + i) = ?m (?h + 4 + i)"
        using other[of ?h 16 True "4 + i"] by (simp add: add.assoc)
    qed
    moreover have "dll ?m' ?h fl (ptr_of (GET ?m (?h + 4)))"
    proof (rule dll_frame)
      show "dll ?m ?h fl (ptr_of (GET ?m (?h + 4)))" using d by (simp add: dlist_def)
      fix y i assume "y \<in> set fl" "(i::nat) < 8"
      with sub have "y \<in> fst ` set (pre @ mid @ post)" by blast
      then obtain ys ya where "(y, ys, ya) \<in> set (pre @ mid @ post)" by force
      then show "?m' (y + i) = ?m (y + i)" using other[of y ys ya i] \<open>i < 8\<close> by simp
    qed
    ultimately show "dll ?m' ?h fl (ptr_of (GET ?m' (?h + 4)))" by simp
  qed
  from ok c' ep' d' show ?thesis by (simp add: heap_ok_def)
qed

section \<open>coalesce\<close>

lemma coalesce_steps:
  "coalesce W s ptr =
     (let m = mem s;
          prev = PREV m ptr;
          next = NEXT m ptr;
          sz = SIZE m (HDR ptr)
      in
      if ALLOC m (HDR prev) \<noteq> 0 \<and> ALLOC m (HDR next) \<noteq> 0 then
        (ptr, s\<lparr>mem := push_front m (head s) ptr\<rparr>)
      else if ALLOC m (HDR prev) \<noteq> 0 \<and> ALLOC m (HDR next) = 0 then
        (ptr, s\<lparr>mem := push_front
           (unlink (set_tags m ptr ((sz + SIZE m (HDR next)) mod 2 ^ W) FREE) next) (head s) ptr\<rparr>)
      else if ALLOC m (HDR prev) = 0 \<and> ALLOC m (HDR next) \<noteq> 0 then
        (prev, s\<lparr>mem := set_tags m prev ((sz + SIZE m (HDR prev)) mod 2 ^ W) FREE\<rparr>)
      else
        (prev, s\<lparr>mem := unlink (set_tags m prev
           ((sz + ((SIZE m (HDR prev) + SIZE m (HDR next)) mod 2 ^ 32)) mod 2 ^ W) FREE) next\<rparr>))"
  by (simp add: coalesce_def push_front_def unlink_def set_tags_def Let_def)

lemma prev_block:
  assumes ok: "heap_ok s (pre @ (p, sz, a) # post) fl"
  obtains q qsz qa where "last ((head s, 16, True) # pre) = (q, qsz, qa)" "q + qsz = p"
    "PREV (mem s) p = q" "ALLOC (mem s) (HDR q) = (if qa then 1 else 0)"
    "\<not> qa \<longrightarrow> SIZE (mem s) (HDR q) = qsz" "16 \<le> qsz" "8 \<le> q"
proof -
  let ?m = "mem s" and ?B = "(head s, 16, True) # pre"
  obtain q qsz qa where l: "last ?B = (q, qsz, qa)" by (cases "last ?B")
  from ok have c: "chain ?m (head s) (?B @ (p, sz, a) # post) (mem_brk s)" and h8: "8 \<le> head s"
    by (simp_all add: heap_ok_def)
  then obtain r where c1: "chain ?m (head s) ?B r" and c2: "chain ?m r ((p, sz, a) # post) (mem_brk s)"
    unfolding chain_append by blast
  have r: "r = p" using c2 by simp
  have B: "?B = butlast ?B @ [(q, qsz, qa)]" using l by (metis append_butlast_last_id list.distinct(1))
  from c1 obtain t where c3: "chain ?m (head s) (butlast ?B) t" and c4: "chain ?m t [(q, qsz, qa)] r"
    by (subst (asm) B) (auto simp: chain_append)
  from c4 have f: "t = q" "16 \<le> qsz" "ALLOC ?m (q - 4) = (if qa then 1 else 0)"
    "SIZE ?m (q + qsz - 8) = qsz" "\<not> qa \<longrightarrow> SIZE ?m (q - 4) = qsz" "q + qsz = r" by auto
  have q8: "8 \<le> q" using chain_le[OF c3] f(1) h8 by simp
  have "PREV ?m p = q" using f r by (auto simp: PREV_def)
  with l f r q8 show ?thesis by (intro that[of q qsz qa]) (auto simp: HDR_def)
qed

lemma next_block:
  assumes ok: "heap_ok s (pre @ (p, sz, a) # post) fl"
  shows "case post of [] \<Rightarrow> p + sz = mem_brk s \<and> ALLOC (mem s) (HDR (p + sz)) = 1
         | (n, nsz, na) # _ \<Rightarrow> n = p + sz \<and> ALLOC (mem s) (HDR n) = (if na then 1 else 0) \<and>
             (\<not> na \<longrightarrow> SIZE (mem s) (HDR n) = nsz)"
proof -
  from ok have c: "chain (mem s) (head s) (((head s, 16, True) # pre) @ (p, sz, a) # post) (mem_brk s)"
    and ep: "ALLOC (mem s) (mem_brk s - 4) = 1" by (simp_all add: heap_ok_def)
  then obtain r where "chain (mem s) r ((p, sz, a) # post) (mem_brk s)"
    unfolding chain_append by blast
  then have c2: "chain (mem s) (p + sz) post (mem_brk s)" by simp
  show ?thesis
  proof (cases post)
    case Nil with c2 ep show ?thesis by (simp add: HDR_def)
  next
    case (Cons b bs)
    obtain n nsz na where "b = (n, nsz, na)" by (cases b)
    with Cons c2 show ?thesis by (auto simp: HDR_def)
  qed
qed

lemma self_block:
  assumes ok: "heap_ok s (pre @ (p, sz, False) # post) fl"
  shows "SIZE (mem s) (HDR p) = sz" "NEXT (mem s) p = p + sz"
proof -
  from ok have c: "chain (mem s) (head s) (((head s, 16, True) # pre) @ (p, sz, False) # post) (mem_brk s)"
    by (simp_all add: heap_ok_def)
  then obtain r where "chain (mem s) r ((p, sz, False) # post) (mem_brk s)"
    unfolding chain_append by blast
  then show "SIZE (mem s) (HDR p) = sz" "NEXT (mem s) p = p + sz" by (auto simp: HDR_def NEXT_def)
qed

lemma fst_in_set: "(x, sz, a) \<in> set bs \<Longrightarrow> x \<in> fst ` set bs"
  by (metis fst_conv image_eqI)

lemma in_fst_setE:
  assumes "x \<in> fst ` set bs"
  obtains sz a where "(x, sz, a) \<in> set bs"
  using assms by force

lemma free_blocks_subset: "set (free_blocks bs) \<subseteq> fst ` set bs"
proof
  fix x assume "x \<in> set (free_blocks bs)"
  then obtain sz where "(x, sz, False) \<in> set bs" unfolding free_blocks_iff ..
  then show "x \<in> fst ` set bs" by (rule fst_in_set)
qed

lemma pre_coalesce_facts:
  assumes pc: "pre_coalesce s pre p sz post fl"
  shows "heap_ok s (pre @ (p, sz, False) # post) fl"
    "set fl = set (free_blocks (pre @ post))"
    "no_adjacent_free (pre @ (p, sz, True) # post)"
    "p \<notin> set fl" "set fl \<subseteq> fst ` set (pre @ (p, sz, False) # post)"
    "head s \<notin> set fl"
proof -
  show ok: "heap_ok s (pre @ (p, sz, False) # post) fl"
    and fs: "set fl = set (free_blocks (pre @ post))"
    and "no_adjacent_free (pre @ (p, sz, True) # post)"
    using pc by (simp_all add: pre_coalesce_def)
  from ok have "chain (mem s) (head s + 16) (pre @ (p, sz, False) # post) (mem_brk s)"
    by (simp add: heap_ok_def)
  from chain_distinct[OF this] have pn: "p \<notin> fst ` set (pre @ post)" by auto
  show "p \<notin> set fl" using pn free_blocks_subset[of "pre @ post"] fs by blast
  have "fst ` set (pre @ post) \<subseteq> fst ` set (pre @ (p, sz, False) # post)" by auto
  then show sub: "set fl \<subseteq> fst ` set (pre @ (p, sz, False) # post)"
    using free_blocks_subset[of "pre @ post"] fs by blast
  show "head s \<notin> set fl"
  proof
    assume "head s \<in> set fl"
    with sub have "head s \<in> fst ` set (pre @ (p, sz, False) # post)" by blast
    then obtain sz' a' where "(head s, sz', a') \<in> set (pre @ (p, sz, False) # post)"
      by (rule in_fst_setE)
    from heap_ok_block(1)[OF ok this] show False by simp
  qed
qed

lemma in_freeI: "(x, sz, False) \<in> set bs \<Longrightarrow> x - 4 \<le> a \<Longrightarrow> a < x + sz - 4 \<Longrightarrow> in_free bs a"
  unfolding in_free_def list_ex_iff by (rule bexI[of _ "(x, sz, False)"]) simp_all

lemma not_in_free:
  assumes "\<not> in_free bs a" "(x, sz, False) \<in> set bs"
  shows "a < x - 4 \<or> x + sz - 4 \<le> a"
proof (rule ccontr)
  assume "\<not> (a < x - 4 \<or> x + sz - 4 \<le> a)"
  then have "x - 4 \<le> a" "a < x + sz - 4" by auto
  from in_freeI[OF assms(2) this] assms(1) show False by simp
qed

lemma frame_ok_trans:
  "frame_ok s F m1 \<Longrightarrow> frame_ok (s\<lparr>mem := m1\<rparr>) F m2 \<Longrightarrow> frame_ok s F m2"
  by (simp add: frame_ok_def)

lemma frame_ok_refl: "frame_ok s F (mem s)"
  by (simp add: frame_ok_def)

lemma frame_ok_push:
  assumes d: "dlist (mem s) (head s) fl" and fs: "set fl \<subseteq> set (free_blocks F)"
    and big: "\<And>x sz al. (x, sz, al) \<in> set F \<Longrightarrow> 16 \<le> sz"
    and p: "(p, sz, False) \<in> set F"
  shows "frame_ok s F (push_front (mem s) (head s) p)"
  unfolding frame_ok_def
proof (intro allI impI)
  fix a assume f: "\<not> in_free F a" and h: "a < head s \<or> head s + 8 \<le> a"
  let ?f = "ptr_of (GET (mem s) (head s + 4))"
  have "?f = 0 \<or> ?f \<in> set fl" using d by (cases fl) (auto simp: dlist_def)
  then have fin: "?f = 0 \<or> (\<exists>fsz. (?f, fsz, False) \<in> set F)" using fs by (auto simp: free_blocks_iff)
  show "push_front (mem s) (head s) p a = mem s a"
  proof (rule push_front_other)
    show "a < head s + 4 \<or> head s + 8 \<le> a" using h by auto
    show "a < p \<or> p + 8 \<le> a" using not_in_free[OF f p] big[OF p] by auto
    show "?f = 0 \<or> a < ?f \<or> ?f + 4 \<le> a"
    proof (cases "?f = 0")
      case True then show ?thesis by simp
    next
      case False
      with fin obtain fsz where m: "(?f, fsz, False) \<in> set F" by auto
      with not_in_free[OF f m] big[OF m] show ?thesis by auto
    qed
  qed
qed

lemma frame_ok_unlink:
  assumes d: "dlist (mem s) (head s) fl" and fs: "set fl \<subseteq> set (free_blocks F)"
    and big: "\<And>x sz al. (x, sz, al) \<in> set F \<Longrightarrow> 16 \<le> sz"
    and n: "n \<in> set fl"
  shows "frame_ok s F (unlink (mem s) n)"
  unfolding frame_ok_def
proof (intro allI impI)
  fix a assume f: "\<not> in_free F a" and h: "a < head s \<or> head s + 8 \<le> a"
  let ?m = "mem s"
  from n obtain ys zs where fl: "fl = ys @ n # zs" by (auto simp: in_set_conv_decomp)
  from d fl have "dll ?m (head s) (ys @ n # zs) (ptr_of (GET ?m (head s + 4)))" by (simp add: dlist_def)
  from dll_neighbours[OF this]
  have pr: "ptr_of (GET ?m n) = (if ys = [] then head s else last ys)"
    and sc: "ptr_of (GET ?m (n + 4)) = (case zs of [] \<Rightarrow> 0 | z # _ \<Rightarrow> z)" by simp_all
  have prin: "ptr_of (GET ?m n) = head s \<or> ptr_of (GET ?m n) \<in> set fl"
    using pr fl by (cases "ys = []") auto
  have scin: "ptr_of (GET ?m (n + 4)) = 0 \<or> ptr_of (GET ?m (n + 4)) \<in> set fl"
    using sc fl by (cases zs) auto
  have cov: "a < y \<or> y + 8 \<le> a" if "y \<in> set fl" for y
  proof -
    from that fs have "y \<in> set (free_blocks F)" by blast
    then obtain ysz where m: "(y, ysz, False) \<in> set F" unfolding free_blocks_iff by blast
    with not_in_free[OF f m] big[OF m] show ?thesis by auto
  qed
  show "unlink ?m n a = ?m a"
  proof (rule unlink_other)
    show "a < ptr_of (GET ?m n) + 4 \<or> ptr_of (GET ?m n) + 8 \<le> a"
      using prin h cov[of "ptr_of (GET ?m n)"] by auto
    show "ptr_of (GET ?m (n + 4)) = 0 \<or> a < ptr_of (GET ?m (n + 4)) \<or> ptr_of (GET ?m (n + 4)) + 4 \<le> a"
      using scin cov[of "ptr_of (GET ?m (n + 4))"] by auto
  qed
qed

lemma frame_ok_set_tags:
  assumes x: "(x, xs, False) \<in> set F" and z: "(z, zs, False) \<in> set F" and e: "z + zs = x + sz"
    and big: "\<And>x sz al. (x, sz, al) \<in> set F \<Longrightarrow> 16 \<le> sz"
    and sz: "8 dvd sz" "sz < 4294967296" "16 \<le> sz" and a: "a \<le> 1" and x4: "4 \<le> x"
  shows "frame_ok s F (set_tags (mem s) x sz a)"
  unfolding frame_ok_def
proof (intro allI impI)
  fix b assume f: "\<not> in_free F b"
  show "set_tags (mem s) x sz a b = mem s b"
  proof (rule set_tags_other[OF sz(1,2) a x4 sz(3)])
    show "b < x - 4 \<or> x \<le> b" using not_in_free[OF f x] big[OF x] by auto
    show "b < x + sz - 8 \<or> x + sz - 4 \<le> b" using not_in_free[OF f z] big[OF z] e by auto
  qed
qed

lemma coalesce_AA:
  assumes pc: "pre_coalesce s pre p sz post fl"
    and pa: "pre = [] \<or> snd (snd (last pre))" and na: "post = [] \<or> snd (snd (hd post))"
  shows "coalesce W s p = (p, s\<lparr>mem := push_front (mem s) (head s) p\<rparr>)"
    and "wvalid (s\<lparr>mem := push_front (mem s) (head s) p\<rparr>) (pre @ (p, sz, False) # post) (p # fl)"
    and "frame_ok s (pre @ (p, sz, False) # post) (push_front (mem s) (head s) p)"
proof -
  note f = pre_coalesce_facts[OF pc]
  let ?bs = "pre @ (p, sz, False) # post"
  obtain q qsz qa where q: "last ((head s, 16, True) # pre) = (q, qsz, qa)"
    "PREV (mem s) p = q" "ALLOC (mem s) (HDR q) = (if qa then 1 else 0)"
    by (rule prev_block[OF f(1)])
  have qa: "qa" using q(1) pa by (cases "pre = []") auto
  have nx: "ALLOC (mem s) (HDR (p + sz)) = 1"
    using next_block[OF f(1)] na by (cases post) (auto split: prod.splits)
  show "coalesce W s p = (p, s\<lparr>mem := push_front (mem s) (head s) p\<rparr>)"
    unfolding coalesce_steps using q qa nx self_block[OF f(1)] by (simp add: Let_def)
  have ok': "heap_ok (s\<lparr>mem := push_front (mem s) (head s) p\<rparr>) ?bs (p # fl)"
    by (rule heap_ok_push[OF f(1) _ f(4) f(5), of sz False]) simp
  have naf: "no_adjacent_free ?bs"
    using f(3) pa na by (auto simp: naf_append naf_Cons)
  show "wvalid (s\<lparr>mem := push_front (mem s) (head s) p\<rparr>) ?bs (p # fl)"
    unfolding wvalid_def using ok' naf f(2) by auto
  show "frame_ok s ?bs (push_front (mem s) (head s) p)"
  proof (rule frame_ok_push)
    show "dlist (mem s) (head s) fl" using f(1) by (simp add: heap_ok_def)
    show "set fl \<subseteq> set (free_blocks ?bs)" using f(2) by auto
    show "(p, sz, False) \<in> set ?bs" by simp
    show "\<And>x sz' al. (x, sz', al) \<in> set ?bs \<Longrightarrow> 16 \<le> sz'"
      using heap_ok_block(3)[OF f(1)] by blast
  qed
qed

lemma heap_ok_big:
  assumes "heap_ok s bs fl" "(x, sz, al) \<in> set bs"
  shows "16 \<le> sz"
  using heap_ok_block(3)[OF assms] .

lemma heap_ok_dlist: "heap_ok s bs fl \<Longrightarrow> dlist (mem s) (head s) fl"
  by (simp add: heap_ok_def)

lemma heap_ok_fields [simp]:
  "heap_ok (s\<lparr>mem := m\<rparr>) bs fl \<Longrightarrow> head (s\<lparr>mem := m\<rparr>) = head s"
  by simp

lemma coalesce_FA:
  assumes pc: "pre_coalesce s (pre' @ [(q, qsz, False)]) p sz post fl"
    and na: "post = [] \<or> snd (snd (hd post))" and W: "32 \<le> W"
  shows "coalesce W s p = (q, s\<lparr>mem := set_tags (mem s) q (qsz + sz) 0\<rparr>)"
    and "wvalid (s\<lparr>mem := set_tags (mem s) q (qsz + sz) 0\<rparr>) (pre' @ (q, qsz + sz, False) # post) fl"
    and "frame_ok s (pre' @ (q, qsz, False) # (p, sz, False) # post) (set_tags (mem s) q (qsz + sz) 0)"
proof -
  note f = pre_coalesce_facts[OF pc]
  let ?bs = "pre' @ (q, qsz, False) # (p, sz, False) # post"
  have ok: "heap_ok s ?bs fl" using f(1) by simp
  obtain q' qsz' qa where q: "last ((head s, 16, True) # pre' @ [(q, qsz, False)]) = (q', qsz', qa)"
    "q' + qsz' = p" "PREV (mem s) p = q'" "ALLOC (mem s) (HDR q') = (if qa then 1 else 0)"
    "\<not> qa \<longrightarrow> SIZE (mem s) (HDR q') = qsz'" "16 \<le> qsz'" "8 \<le> q'"
    by (rule prev_block[OF f(1)])
  from q(1) have e: "q' = q" "qsz' = qsz" "qa = False" by simp_all
  have nx: "ALLOC (mem s) (HDR (p + sz)) = 1"
    using next_block[OF f(1)] na by (cases post) (auto split: prod.splits)
  have lt: "sz + qsz < 4294967296"
    using heap_ok_block(5)[OF ok, of p sz False] q(2,7) e by simp
  show "coalesce W s p = (q, s\<lparr>mem := set_tags (mem s) q (qsz + sz) 0\<rparr>)"
    unfolding coalesce_steps using q e nx self_block[OF f(1)] mod_W[OF lt W]
    by (simp add: Let_def add.commute)
  have "heap_ok (s\<lparr>mem := set_tags (mem s) q (total_size [(q, qsz, False), (p, sz, False)]) 0\<rparr>)
          (pre' @ (q, total_size [(q, qsz, False), (p, sz, False)], (0::nat) \<noteq> 0) # post) fl"
  proof (rule heap_ok_retag)
    show "heap_ok s (pre' @ [(q, qsz, False), (p, sz, False)] @ post) fl" using ok by simp
    show "set fl \<subseteq> fst ` set (pre' @ [(q, qsz, False), (p, sz, False)] @ post)"
      using f(5) by simp
  qed simp_all
  then have ok': "heap_ok (s\<lparr>mem := set_tags (mem s) q (qsz + sz) 0\<rparr>) (pre' @ (q, qsz + sz, False) # post) fl"
    by simp
  have naf: "no_adjacent_free (pre' @ (q, qsz + sz, False) # post)"
    using f(3) na by (auto simp: naf_append naf_Cons)
  show "wvalid (s\<lparr>mem := set_tags (mem s) q (qsz + sz) 0\<rparr>) (pre' @ (q, qsz + sz, False) # post) fl"
    unfolding wvalid_def using ok' naf f(2) by auto
  show "frame_ok s ?bs (set_tags (mem s) q (qsz + sz) 0)"
  proof (rule frame_ok_set_tags[of q qsz _ p sz])
    show "(q, qsz, False) \<in> set ?bs" "(p, sz, False) \<in> set ?bs" by simp_all
    show "p + sz = q + (qsz + sz)" using q(2) e by simp
    show "\<And>x sz' al. (x, sz', al) \<in> set ?bs \<Longrightarrow> 16 \<le> sz'" by (rule heap_ok_big[OF ok])
    show "8 dvd qsz + sz" using heap_ok_block(4)[OF ok, of q qsz False] heap_ok_block(4)[OF ok, of p sz False]
      by simp
    show "qsz + sz < 4294967296" using lt by simp
    show "16 \<le> qsz + sz" using heap_ok_block(3)[OF ok, of q qsz False] by simp
    show "4 \<le> q" using q(7) e by simp
  qed simp
qed

lemma remove1_set_free:
  assumes "distinct fl" "set fl = insert n A" "n \<notin> A"
  shows "set (remove1 n fl) = A"
  using assms by auto

lemma coalesce_AF:
  assumes pc: "pre_coalesce s pre p sz ((n, nsz, False) # post') fl"
    and pa: "pre = [] \<or> snd (snd (last pre))" and W: "32 \<le> W"
  shows "coalesce W s p =
           (p, s\<lparr>mem := push_front (unlink (set_tags (mem s) p (sz + nsz) 0) n) (head s) p\<rparr>)"
    and "wvalid (s\<lparr>mem := push_front (unlink (set_tags (mem s) p (sz + nsz) 0) n) (head s) p\<rparr>)
           (pre @ (p, sz + nsz, False) # post') (p # remove1 n fl)"
    and "frame_ok s (pre @ (p, sz, False) # (n, nsz, False) # post')
           (push_front (unlink (set_tags (mem s) p (sz + nsz) 0) n) (head s) p)"
proof -
  note f = pre_coalesce_facts[OF pc]
  let ?bs = "pre @ (p, sz, False) # (n, nsz, False) # post'"
  let ?bs' = "pre @ (p, sz + nsz, False) # post'"
  let ?m1 = "set_tags (mem s) p (sz + nsz) 0"
  let ?m2 = "unlink ?m1 n"
  let ?m3 = "push_front ?m2 (head s) p"
  have ok: "heap_ok s ?bs fl" using f(1) by simp
  obtain q qsz qa where q: "last ((head s, 16, True) # pre) = (q, qsz, qa)"
    "q + qsz = p" "PREV (mem s) p = q" "ALLOC (mem s) (HDR q) = (if qa then 1 else 0)"
    "\<not> qa \<longrightarrow> SIZE (mem s) (HDR q) = qsz" "16 \<le> qsz" "8 \<le> q"
    by (rule prev_block[OF f(1)])
  have qa: "qa" using q(1) pa by (cases "pre = []") auto
  have nx: "n = p + sz" "ALLOC (mem s) (HDR n) = 0" "SIZE (mem s) (HDR n) = nsz"
    using next_block[OF f(1)] by auto
  note pb = heap_ok_block[OF ok, of p sz False]
  note nb = heap_ok_block[OF ok, of n nsz False]
  have lt: "sz + nsz < 4294967296" using nb(5) nx(1) pb(1) by simp
  show "coalesce W s p = (p, s\<lparr>mem := ?m3\<rparr>)"
    unfolding coalesce_steps using q qa nx self_block[OF f(1)] mod_W[OF lt W]
    by (simp add: Let_def)
  have "heap_ok (s\<lparr>mem := set_tags (mem s) p (total_size [(p, sz, False), (n, nsz, False)]) 0\<rparr>)
          (pre @ (p, total_size [(p, sz, False), (n, nsz, False)], (0::nat) \<noteq> 0) # post') fl"
  proof (rule heap_ok_retag)
    show "heap_ok s (pre @ [(p, sz, False), (n, nsz, False)] @ post') fl" using ok by simp
    show "set fl \<subseteq> fst ` set (pre @ [(p, sz, False), (n, nsz, False)] @ post')"
      using f(5) by simp
  qed simp_all
  then have ok1: "heap_ok (s\<lparr>mem := ?m1\<rparr>) ?bs' fl" by simp
  from ok have "chain (mem s) (head s + 16) ?bs (mem_brk s)" by (simp add: heap_ok_def)
  from chain_distinct[OF this]
  have nn: "n \<notin> fst ` set (pre @ post')" and pn: "p \<notin> fst ` set (pre @ post')" and np: "n \<noteq> p"
    by auto
  have nf: "n \<notin> set (free_blocks (pre @ post'))" using nn free_blocks_subset by blast
  have fl: "set fl = insert n (set (free_blocks (pre @ post')))" using f(2) by auto
  have nin: "n \<in> set fl" using fl by simp
  have dist: "distinct fl" using ok by (simp add: heap_ok_def)
  have rm: "set (remove1 n fl) = set (free_blocks (pre @ post'))"
    by (rule remove1_set_free[OF dist fl nf])
  have sub1: "set fl - {n} \<subseteq> fst ` set ?bs'"
  proof -
    have "set fl - {n} \<subseteq> set (free_blocks (pre @ post'))" using fl by auto
    also have "\<dots> \<subseteq> fst ` set (pre @ post')" by (rule free_blocks_subset)
    also have "\<dots> \<subseteq> fst ` set ?bs'" by auto
    finally show ?thesis .
  qed
  have sep: "sep8 (insert (head (s\<lparr>mem := ?m1\<rparr>)) (set fl))"
  proof (rule sep8_subset[OF heap_ok_sep8[OF ok]])
    show "insert (head (s\<lparr>mem := ?m1\<rparr>)) (set fl) \<subseteq> insert (head s) (fst ` set ?bs)"
      using f(5) by auto
  qed
  have "heap_ok (s\<lparr>mem := ?m1\<rparr>\<lparr>mem := unlink (mem (s\<lparr>mem := ?m1\<rparr>)) n\<rparr>) ?bs' (remove1 n fl)"
    by (rule heap_ok_unlink[OF ok1 nin sub1 _ sep]) (use f(6) in simp)
  then have ok2: "heap_ok (s\<lparr>mem := ?m2\<rparr>) ?bs' (remove1 n fl)" by simp
  have sub2: "set (remove1 n fl) \<subseteq> fst ` set ?bs'"
  proof -
    have "set (remove1 n fl) \<subseteq> fst ` set (pre @ post')" unfolding rm by (rule free_blocks_subset)
    also have "\<dots> \<subseteq> fst ` set ?bs'" by auto
    finally show ?thesis .
  qed
  have pnr: "p \<notin> set (remove1 n fl)" using f(4) by (metis notin_set_remove1)
  have "heap_ok (s\<lparr>mem := ?m2\<rparr>\<lparr>mem := push_front (mem (s\<lparr>mem := ?m2\<rparr>)) (head (s\<lparr>mem := ?m2\<rparr>)) p\<rparr>)
          ?bs' (p # remove1 n fl)"
    by (rule heap_ok_push[OF ok2 _ pnr sub2, of "sz + nsz" False]) simp
  then have ok3: "heap_ok (s\<lparr>mem := ?m3\<rparr>) ?bs' (p # remove1 n fl)" by simp
  have naf: "no_adjacent_free ?bs'"
    using f(3) pa by (auto simp: naf_append naf_Cons)
  show "wvalid (s\<lparr>mem := ?m3\<rparr>) ?bs' (p # remove1 n fl)"
    unfolding wvalid_def using ok3 naf rm by auto
  have big: "\<And>x sz' al. (x, sz', al) \<in> set ?bs \<Longrightarrow> 16 \<le> sz'" by (rule heap_ok_big[OF ok])
  have fsub: "set fl \<subseteq> set (free_blocks ?bs)" using f(2) by auto
  have fr1: "frame_ok s ?bs ?m1"
  proof (rule frame_ok_set_tags[of p sz _ n nsz])
    show "(p, sz, False) \<in> set ?bs" "(n, nsz, False) \<in> set ?bs" by simp_all
    show "n + nsz = p + (sz + nsz)" using nx(1) by simp
    show "8 dvd sz + nsz" using pb(4) nb(4) by simp
    show "sz + nsz < 4294967296" by (rule lt)
    show "16 \<le> sz + nsz" using pb(3) by simp
    show "4 \<le> p" using pb(1) by simp
  qed (use big in auto)
  have fr2: "frame_ok (s\<lparr>mem := ?m1\<rparr>) ?bs ?m2"
    using frame_ok_unlink[of "s\<lparr>mem := ?m1\<rparr>" fl ?bs n] heap_ok_dlist[OF ok1] fsub big nin
    by simp
  have fr3: "frame_ok (s\<lparr>mem := ?m2\<rparr>) ?bs ?m3"
  proof -
    have "set (remove1 n fl) \<subseteq> set (free_blocks ?bs)" using fsub set_remove1_subset by fast
    then show ?thesis
      using frame_ok_push[of "s\<lparr>mem := ?m2\<rparr>" "remove1 n fl" ?bs p sz] heap_ok_dlist[OF ok2] big
      by simp
  qed
  show "frame_ok s ?bs ?m3"
    using frame_ok_trans[OF frame_ok_trans[OF fr1 fr2]] fr3 by simp
qed

lemma used_simps [simp]:
  "used [] = []"
  "used ((p, sz, a) # bs) = (if a then (p, sz, a) # used bs else used bs)"
  "used (xs @ ys) = used xs @ used ys"
  by (simp_all add: used_def)

lemma coalesce_FF:
  assumes pc: "pre_coalesce s (pre' @ [(q, qsz, False)]) p sz ((n, nsz, False) # post') fl"
    and W: "32 \<le> W"
  shows "coalesce W s p = (q, s\<lparr>mem := unlink (set_tags (mem s) q (qsz + sz + nsz) 0) n\<rparr>)"
    and "wvalid (s\<lparr>mem := unlink (set_tags (mem s) q (qsz + sz + nsz) 0) n\<rparr>)
           (pre' @ (q, qsz + sz + nsz, False) # post') (remove1 n fl)"
    and "frame_ok s (pre' @ (q, qsz, False) # (p, sz, False) # (n, nsz, False) # post')
           (unlink (set_tags (mem s) q (qsz + sz + nsz) 0) n)"
proof -
  note f = pre_coalesce_facts[OF pc]
  let ?bs = "pre' @ (q, qsz, False) # (p, sz, False) # (n, nsz, False) # post'"
  let ?bs' = "pre' @ (q, qsz + sz + nsz, False) # post'"
  let ?m1 = "set_tags (mem s) q (qsz + sz + nsz) 0"
  let ?m2 = "unlink ?m1 n"
  have ok: "heap_ok s ?bs fl" using f(1) by simp
  obtain q' qsz' qa where q: "last ((head s, 16, True) # pre' @ [(q, qsz, False)]) = (q', qsz', qa)"
    "q' + qsz' = p" "PREV (mem s) p = q'" "ALLOC (mem s) (HDR q') = (if qa then 1 else 0)"
    "\<not> qa \<longrightarrow> SIZE (mem s) (HDR q') = qsz'" "16 \<le> qsz'" "8 \<le> q'"
    by (rule prev_block[OF f(1)])
  from q(1) have e: "q' = q" "qsz' = qsz" "qa = False" by simp_all
  have nx: "n = p + sz" "ALLOC (mem s) (HDR n) = 0" "SIZE (mem s) (HDR n) = nsz"
    using next_block[OF f(1)] by auto
  note pb = heap_ok_block[OF ok, of p sz False]
  note nb = heap_ok_block[OF ok, of n nsz False]
  note qb = heap_ok_block[OF ok, of q qsz False]
  have lt: "qsz + sz + nsz < 4294967296" using nb(5) nx(1) q(2,7) e by simp
  then have lt2: "qsz + nsz < 4294967296" by simp
  have sze: "(sz + (qsz + nsz) mod 4294967296) mod 2 ^ W = qsz + sz + nsz"
    using mod_W[OF lt W] lt2 by (simp add: add.commute add.left_commute)
  show "coalesce W s p = (q, s\<lparr>mem := ?m2\<rparr>)"
    unfolding coalesce_steps using q e nx self_block[OF f(1)] sze
    by (simp add: Let_def)
  have "heap_ok (s\<lparr>mem := set_tags (mem s) q
             (total_size [(q, qsz, False), (p, sz, False), (n, nsz, False)]) 0\<rparr>)
          (pre' @ (q, total_size [(q, qsz, False), (p, sz, False), (n, nsz, False)], (0::nat) \<noteq> 0) # post') fl"
  proof (rule heap_ok_retag)
    show "heap_ok s (pre' @ [(q, qsz, False), (p, sz, False), (n, nsz, False)] @ post') fl"
      using ok by simp
    show "set fl \<subseteq> fst ` set (pre' @ [(q, qsz, False), (p, sz, False), (n, nsz, False)] @ post')"
      using f(5) by simp
  qed simp_all
  then have ok1: "heap_ok (s\<lparr>mem := ?m1\<rparr>) ?bs' fl" by (simp add: add.assoc)
  from ok have "chain (mem s) (head s + 16) ?bs (mem_brk s)" by (simp add: heap_ok_def)
  from chain_distinct[OF this]
  have nn: "n \<notin> fst ` set (pre' @ post')" and nq: "n \<noteq> q" by auto
  have nf: "n \<notin> set (free_blocks (pre' @ (q, qsz, False) # post'))"
    using nn nq free_blocks_subset[of "pre' @ post'"] by auto
  have fl: "set fl = insert n (set (free_blocks (pre' @ (q, qsz, False) # post')))" using f(2) by auto
  have nin: "n \<in> set fl" using fl by simp
  have dist: "distinct fl" using ok by (simp add: heap_ok_def)
  have rm: "set (remove1 n fl) = set (free_blocks (pre' @ (q, qsz, False) # post'))"
    by (rule remove1_set_free[OF dist fl nf])
  have sub1: "set fl - {n} \<subseteq> fst ` set ?bs'"
  proof -
    have "set fl - {n} \<subseteq> set (free_blocks (pre' @ (q, qsz, False) # post'))" using fl by auto
    also have "\<dots> \<subseteq> fst ` set (pre' @ (q, qsz, False) # post')" by (rule free_blocks_subset)
    also have "\<dots> \<subseteq> fst ` set ?bs'" by auto
    finally show ?thesis .
  qed
  have sep: "sep8 (insert (head (s\<lparr>mem := ?m1\<rparr>)) (set fl))"
  proof (rule sep8_subset[OF heap_ok_sep8[OF ok]])
    show "insert (head (s\<lparr>mem := ?m1\<rparr>)) (set fl) \<subseteq> insert (head s) (fst ` set ?bs)"
      using f(5) by auto
  qed
  have "heap_ok (s\<lparr>mem := ?m1\<rparr>\<lparr>mem := unlink (mem (s\<lparr>mem := ?m1\<rparr>)) n\<rparr>) ?bs' (remove1 n fl)"
    by (rule heap_ok_unlink[OF ok1 nin sub1 _ sep]) (use f(6) in simp)
  then have ok2: "heap_ok (s\<lparr>mem := ?m2\<rparr>) ?bs' (remove1 n fl)" by simp
  have naf: "no_adjacent_free ?bs'"
    using f(3) by (auto simp: naf_append naf_Cons)
  show "wvalid (s\<lparr>mem := ?m2\<rparr>) ?bs' (remove1 n fl)"
    unfolding wvalid_def using ok2 naf rm by auto
  have big: "\<And>x sz' al. (x, sz', al) \<in> set ?bs \<Longrightarrow> 16 \<le> sz'" by (rule heap_ok_big[OF ok])
  have fsub: "set fl \<subseteq> set (free_blocks ?bs)" using f(2) by auto
  have fr1: "frame_ok s ?bs ?m1"
  proof (rule frame_ok_set_tags[of q qsz _ n nsz])
    show "(q, qsz, False) \<in> set ?bs" "(n, nsz, False) \<in> set ?bs" by simp_all
    show "n + nsz = q + (qsz + sz + nsz)" using nx(1) q(2) e by simp
    show "8 dvd qsz + sz + nsz" using pb(4) nb(4) qb(4) by simp
    show "qsz + sz + nsz < 4294967296" by (rule lt)
    show "16 \<le> qsz + sz + nsz" using pb(3) by simp
    show "4 \<le> q" using q(7) e by simp
  qed (use big in auto)
  have fr2: "frame_ok (s\<lparr>mem := ?m1\<rparr>) ?bs ?m2"
    using frame_ok_unlink[of "s\<lparr>mem := ?m1\<rparr>" fl ?bs n] heap_ok_dlist[OF ok1] fsub big nin
    by simp
  show "frame_ok s ?bs ?m2"
    by (rule frame_ok_trans[OF fr1 fr2])
qed

text \<open>What every call of \<open>coalesce\<close> achieves.\<close>

lemma coalesce_wvalid:
  assumes pc: "pre_coalesce s pre p sz post fl" and W: "32 \<le> W"
  shows "\<exists>bs' fl' rsz. wvalid (snd (coalesce W s p)) bs' fl' \<and>
           frame_ok s (pre @ (p, sz, False) # post) (mem (snd (coalesce W s p))) \<and>
           total_size bs' = total_size (pre @ (p, sz, False) # post) \<and>
           used bs' = used (pre @ post) \<and>
           head (snd (coalesce W s p)) = head s \<and>
           mem_brk (snd (coalesce W s p)) = mem_brk s \<and>
           mem_max_addr (snd (coalesce W s p)) = mem_max_addr s \<and>
           (fst (coalesce W s p), rsz, False) \<in> set bs' \<and> sz \<le> rsz"
proof -
  consider (AA) "pre = [] \<or> snd (snd (last pre))" "post = [] \<or> snd (snd (hd post))"
    | (AF) n nsz post' where "pre = [] \<or> snd (snd (last pre))" "post = (n, nsz, False) # post'"
    | (FA) pre' q qsz where "pre = pre' @ [(q, qsz, False)]" "post = [] \<or> snd (snd (hd post))"
    | (FF) pre' q qsz n nsz post' where "pre = pre' @ [(q, qsz, False)]" "post = (n, nsz, False) # post'"
  proof -
    have a: "(pre = [] \<or> snd (snd (last pre))) \<or> (\<exists>pre' q qsz. pre = pre' @ [(q, qsz, False)])"
    proof (cases pre rule: rev_cases)
      case Nil then show ?thesis by simp
    next
      case (snoc ys y)
      obtain q qsz qa where "y = (q, qsz, qa)" by (cases y)
      with snoc show ?thesis by (cases qa) auto
    qed
    have b: "(post = [] \<or> snd (snd (hd post))) \<or> (\<exists>n nsz post'. post = (n, nsz, False) # post')"
    proof (cases post)
      case Nil then show ?thesis by simp
    next
      case (Cons y ys)
      obtain q qsz qa where "y = (q, qsz, qa)" by (cases y)
      with Cons show ?thesis by (cases qa) auto
    qed
    from a b that show ?thesis by blast
  qed
  then show ?thesis
  proof cases
    case AA
    from coalesce_AA(1)[OF pc AA, of W] coalesce_AA(2,3)[OF pc AA] show ?thesis
      by (intro exI[of _ "pre @ (p, sz, False) # post"] exI[of _ "p # fl"] exI[of _ sz]) simp
  next
    case AF
    from coalesce_AF[OF pc[unfolded AF(2)] AF(1) W] show ?thesis unfolding AF(2)
      by (intro exI[of _ "pre @ (p, sz + nsz, False) # post'"] exI[of _ "p # remove1 n fl"]
          exI[of _ "sz + nsz"]) simp
  next
    case FA
    from coalesce_FA[OF pc[unfolded FA(1)] FA(2) W] show ?thesis unfolding FA(1)
      by (intro exI[of _ "pre' @ (q, qsz + sz, False) # post"] exI[of _ fl] exI[of _ "qsz + sz"]) simp
  next
    case FF
    from coalesce_FF[OF pc[unfolded FF] W] show ?thesis unfolding FF
      by (intro exI[of _ "pre' @ (q, qsz + sz + nsz, False) # post'"] exI[of _ "remove1 n fl"]
          exI[of _ "qsz + sz + nsz"]) simp
  qed
qed

section \<open>What an operation leaves untouched\<close>

lemma valid_ivalid: "valid s bs fl \<longleftrightarrow> ivalid 0 s bs fl"
proof
  assume "valid s bs fl"
  then show "ivalid 0 s bs fl"
    by (auto simp: valid_def ivalid_def wvalid_def hdrs_def hdrs_but_def)
next
  assume iv: "ivalid 0 s bs fl"
  then have ok: "heap_ok s bs fl" by (simp add: ivalid_def wvalid_def)
  have "SIZE (mem s) (p - 4) = sz" if m: "(p, sz, True) \<in> set ((head s, 16, True) # bs)" for p sz
  proof -
    from m consider "p = head s" | "(p, sz, True) \<in> set bs" by auto
    then have "p \<noteq> 0"
    proof cases
      case 1 then show ?thesis using heap_ok_head[OF ok] by auto
    next
      case 2 from heap_ok_block(8)[OF ok 2] show ?thesis .
    qed
    with iv m show "SIZE (mem s) (p - 4) = sz" by (auto simp: ivalid_def hdrs_but_def)
  qed
  then have "hdrs (mem s) ((head s, 16, True) # bs)" by (auto simp: hdrs_def)
  with iv show "valid s bs fl" by (simp add: valid_def ivalid_def wvalid_def)
qed

text \<open>Bytes of allocated blocks, of the prologue's tags and of the epilogue lie outside
  every free block and outside the sentinel's links.\<close>

lemma alloc_not_in_free:
  assumes ok: "heap_ok s F fl" and x: "(x, xsz, True) \<in> set F"
    and a: "x - 4 \<le> a" "a < x + xsz - 4"
  shows "\<not> in_free F a" "a < head s \<or> head s + 8 \<le> a"
proof -
  from ok have c: "chain (mem s) (head s + 16) F (mem_brk s)" by (simp add: heap_ok_def)
  note xb = heap_ok_block[OF ok x]
  show "\<not> in_free F a"
    unfolding in_free_def list_ex_iff
  proof (clarsimp)
    fix y ysz assume y: "(y, ysz, False) \<in> set F" and l: "y - 4 \<le> a" and u: "a < y + ysz - 4"
    note yb = heap_ok_block[OF ok y]
    from chain_sep[OF c x y] have "x + xsz \<le> y \<or> y + ysz \<le> x" by auto
    with a l u xb(1,3) yb(1,3) show False by arith
  qed
  show "a < head s \<or> head s + 8 \<le> a" using a xb(1) by arith
qed

lemma frame_ok_alloc:
  assumes ok: "heap_ok s F fl" and fr: "frame_ok s F m'" and x: "(x, xsz, True) \<in> set F"
    and a: "x - 4 \<le> a" "a < x + xsz - 4"
  shows "m' a = mem s a"
  using fr alloc_not_in_free[OF ok x a] unfolding frame_ok_def by blast

lemma edge_not_in_free:
  assumes ok: "heap_ok s F fl"
    and a: "(head s - 4 \<le> a \<and> a < head s) \<or> (head s + 8 \<le> a \<and> a < head s + 12) \<or> mem_brk s - 4 \<le> a"
  shows "\<not> in_free F a" "a < head s \<or> head s + 8 \<le> a"
proof -
  from ok have c: "chain (mem s) (head s + 16) F (mem_brk s)" by (simp add: heap_ok_def)
  show "\<not> in_free F a"
    unfolding in_free_def list_ex_iff
  proof (clarsimp)
    fix y ysz assume y: "(y, ysz, False) \<in> set F" and l: "y - 4 \<le> a" and u: "a < y + ysz - 4"
    note yb = heap_ok_block[OF ok y]
    with a l u show False by arith
  qed
  have "head s + 16 \<le> mem_brk s" using chain_le[OF c] .
  with a show "a < head s \<or> head s + 8 \<le> a" by arith
qed

lemma frame_ok_edge:
  assumes ok: "heap_ok s F fl" and fr: "frame_ok s F m'"
    and a: "(head s - 4 \<le> a \<and> a < head s) \<or> (head s + 8 \<le> a \<and> a < head s + 12) \<or> mem_brk s - 4 \<le> a"
  shows "m' a = mem s a"
  using fr edge_not_in_free[OF ok a] unfolding frame_ok_def by blast

lemma frame_ok_hdrs:
  assumes ok: "heap_ok s F fl" and fr: "frame_ok s F m'"
    and h: "hdrs_but z (mem s) ((head s, 16, True) # F)"
    and u: "set (used bs') \<subseteq> set (used F)"
  shows "hdrs_but z m' ((head s, 16, True) # bs')"
proof -
  have "SIZE m' (p - 4) = sz"
    if m: "(p, sz, True) \<in> set ((head s, 16, True) # bs')" and pz: "p \<noteq> z" for p sz
  proof -
  from m consider (P) "(p, sz, True) = (head s, 16, True)" | (B) "(p, sz, True) \<in> set bs'" by auto
  then show "SIZE m' (p - 4) = sz"
  proof cases
    case P
    note e = P
    have "SIZE m' (head s - 4) = SIZE (mem s) (head s - 4)"
    proof (rule SIZE_cong, rule frame_ok_edge[OF ok fr])
      fix i :: nat assume "i < 4"
      then show "(head s - 4 \<le> head s - 4 + i \<and> head s - 4 + i < head s) \<or>
        (head s + 8 \<le> head s - 4 + i \<and> head s - 4 + i < head s + 12) \<or>
        mem_brk s - 4 \<le> head s - 4 + i" using heap_ok_head[OF ok] by arith
    qed
    with h e pz show ?thesis by (auto simp: hdrs_but_def)
  next
    case B
    then have "(p, sz, True) \<in> set (used bs')" by (simp add: used_def)
    with u have "(p, sz, True) \<in> set (used F)" by blast
    then have pF: "(p, sz, True) \<in> set F" by (simp add: used_def)
    note pb = heap_ok_block[OF ok pF]
    have "SIZE m' (p - 4) = SIZE (mem s) (p - 4)"
    proof (rule SIZE_cong, rule frame_ok_alloc[OF ok fr pF])
      fix i :: nat assume "i < 4"
      then show "p - 4 \<le> p - 4 + i" "p - 4 + i < p + sz - 4" using pb(1,3) by auto
    qed
    with h pF pz show ?thesis by (auto simp: hdrs_but_def)
  qed
  qed
  then show ?thesis by (auto simp: hdrs_but_def)
qed

lemma frame_ok_epilogue:
  assumes ok: "heap_ok s F fl" and fr: "frame_ok s F m'"
  shows "SIZE m' (mem_brk s - 4) = SIZE (mem s) (mem_brk s - 4)"
  by (rule SIZE_cong, rule frame_ok_edge[OF ok fr]) simp

section \<open>The operations in stages\<close>

lemma mm_free_steps:
  "mm_free W s ptr =
     (if ptr \<noteq> 0 then snd (coalesce W (s\<lparr>mem := set_tags (mem s) ptr (SIZE (mem s) (HDR ptr)) FREE\<rparr>) ptr)
      else s)"
  by (simp add: mm_free_def set_tags_def Let_def)

lemma mm_malloc_stages:
  "mm_malloc W s sz =
     (if sz = 0 then Some (Returns (0, s))
      else case first_fit (mem s) (asize_of W sz) (ptr_of (GET (mem s) (SUCC (head s)))) of
        None \<Rightarrow> None
      | Some newptr \<Rightarrow>
          (case (if newptr = 0 then extend_heap W s (asize_of W sz) else Some (newptr, s)) of
             None \<Rightarrow> Some Fault
           | Some (newptr, s1) \<Rightarrow> place_malloc W s1 newptr (asize_of W sz)))"
  unfolding mm_malloc_def extend_heap_def place_malloc_def asize_of_def
  by (simp only: Let_def[of "if sz \<le> MINSIZE - DWSIZE then MINSIZE else (ALIGN W sz + DWSIZE) mod 2 ^ W"])

lemma mm_realloc_stages:
  "mm_realloc W s ptr sz =
     (if sz = 0 then Some (Returns (0, mm_free W s ptr))
      else case first_fit (mem s) (asize_of W sz) (ptr_of (GET (mem s) (SUCC (head s)))) of
        None \<Rightarrow> None
      | Some newptr \<Rightarrow>
          (case (if newptr = 0 then extend_heap W s (asize_of W sz) else Some (newptr, s)) of
             None \<Rightarrow> Some Fault
           | Some (newptr, s1) \<Rightarrow>
               place_realloc W s1 ptr (SIZE (mem s) (HDR ptr)) newptr (asize_of W sz)))"
proof -
  have z: "Some (Returns (0, mm_free W s ptr))
    = (if ptr \<noteq> 0 then
           let m = mem s;
               m = SET m (HDR ptr) (PACK (SIZE (mem s) (HDR ptr)) FREE);
               m = SET m (FTR m ptr) (PACK (SIZE (mem s) (HDR ptr)) FREE)
           in Some (Returns (0, snd (coalesce W (s\<lparr>mem := m\<rparr>) ptr)))
         else Some (Returns (0, s)))"
    by (simp add: mm_free_def Let_def)
  show ?thesis
    unfolding mm_realloc_def extend_heap_def place_realloc_def asize_of_def z
    by (simp only: Let_def[of "if sz \<le> MINSIZE - DWSIZE then MINSIZE else (ALIGN W sz + DWSIZE) mod 2 ^ W"]
        Let_def[of "SIZE (mem s) (HDR ptr)"])
qed

lemma extend_heap_steps:
  "extend_heap W s asize =
     (let exsize = (if asize > CHUNKSIZE then asize else CHUNKSIZE)
      in case mem_sbrk s exsize of
           None \<Rightarrow> None
         | Some (oldbrk, s) \<Rightarrow>
             let m = set_tags (mem s) oldbrk exsize FREE;
                 m = SET m (HDR (NEXT m oldbrk)) (PACK 0 ALLOCATED);
                 prev = PREV m oldbrk
             in if ALLOC m (HDR prev) \<noteq> 0
                then Some (oldbrk, s\<lparr>mem := push_front m (head s) oldbrk\<rparr>)
                else Some (prev, s\<lparr>mem :=
                       set_tags m prev ((exsize + SIZE m (HDR prev)) mod 2 ^ W) FREE\<rparr>))"
  by (simp add: extend_heap_def push_front_def set_tags_def Let_def split: option.splits)

lemma place_realloc_steps:
  "place_realloc W s ptr oldsize newptr asize =
     (let fsize = SIZE (mem s) (HDR newptr);
          asize' = carve_size W fsize asize
      in Some (Returns (newptr,
           split_rest W (move_old W (take_block W s newptr asize) newptr ptr oldsize asize')
             newptr asize' fsize)))"
  by (simp add: place_realloc_def carve_size_def take_block_def move_old_def split_rest_def
      set_tags_def unlink_def Let_def)

lemma place_malloc_steps:
  "place_malloc W s newptr asize =
     (let fsize = SIZE (mem s) (HDR newptr);
          asize' = carve_size W fsize asize
      in Some (Returns (newptr, split_rest W (take_block W s newptr asize) newptr asize' fsize)))"
  by (simp add: place_malloc_def carve_size_def take_block_def split_rest_def
      set_tags_def unlink_def Let_def)

lemma place_realloc_null: "place_realloc W s 0 oldsize newptr asize = place_malloc W s newptr asize"
  by (simp add: place_realloc_steps place_malloc_steps move_old_def)

section \<open>mm_init\<close>

lemma PACK_0_1 [simp]: "PACK 0 1 = 1" "PACK 0 (Suc 0) = Suc 0"
  by (simp_all add: PACK_def)

lemma SIZE_SET_1: "SIZE (SET m p (Suc 0)) p = 0"
  using SIZE_SET_same[of 0 1 m p] by simp

lemma ALLOC_SET_1: "ALLOC (SET m p (Suc 0)) p = 1"
  using ALLOC_SET_same[of 0 1 m p] by simp

lemma mm_init_fail_first:
  "mem_max_addr s < mem_brk s + 24 \<Longrightarrow> mm_init s = Fault"
  by (simp add: mm_init_def mem_sbrk_def)

lemma mm_init_ok:
  assumes "mem_brk s + 4120 \<le> mem_max_addr s"
  shows "mm_init s = Returns (0, s\<lparr>mem := init_mem (mem s) (mem_brk s),
                                  mem_brk := mem_brk s + 4120, head := mem_brk s + 8\<rparr>)"
proof -
  have 1: "SIZE (SET m (b + 20) (PACK 4096 0)) (b + 20) = 4096" for m b
    by (rule SIZE_SET_same) simp_all
  have 2: "SIZE (SET (SET m (b + 20) (PACK 4096 0)) (b + 4112) v) (b + 20) = 4096" for m b v
    by (simp add: SIZE_SET_other 1)
  show ?thesis
    using assms
    by (simp add: mm_init_def mem_sbrk_def Let_def init_mem_def HDR_def FTR_def NEXT_def SUCC_def
        PRED_def 1 2 add.commute)
qed

lemma SIZE_SET_consts:
  "SIZE (SET m' p (PACK 16 1)) p = 16" "SIZE (SET m' p (PACK 16 (Suc 0))) p = 16"
  "SIZE (SET m' p (PACK 4096 0)) p = 4096"
  using SIZE_SET_same[of 16 1 m' p] SIZE_SET_same[of 4096 0 m' p] by simp_all

lemma ALLOC_SET_consts:
  "ALLOC (SET m' p (PACK 16 1)) p = 1" "ALLOC (SET m' p (PACK 16 (Suc 0))) p = Suc 0"
  "ALLOC (SET m' p (PACK 4096 0)) p = 0"
  using ALLOC_SET_same[of 16 1 m' p] ALLOC_SET_same[of 4096 0 m' p] by simp_all

lemma init_mem_reads:
  "ALLOC (init_mem m b) (b + 4) = 1" "SIZE (init_mem m b) (b + 4) = 16"
  "SIZE (init_mem m b) (b + 16) = 16"
  "ALLOC (init_mem m b) (b + 20) = 0" "SIZE (init_mem m b) (b + 20) = 4096"
  "SIZE (init_mem m b) (b + 4112) = 4096"
  "ALLOC (init_mem m b) (b + 4116) = 1" "SIZE (init_mem m b) (b + 4116) = 0"
  unfolding init_mem_def
  by (simp_all add: SIZE_SET_other ALLOC_SET_other SIZE_SET_consts ALLOC_SET_consts
      SIZE_SET_1 ALLOC_SET_1)

lemma init_mem_links:
  assumes "b + 24 < 2 ^ 32"
  shows "ptr_of (GET (init_mem m b) (b + 12)) = b + 24"
    "ptr_of (GET (init_mem m b) (b + 24)) = b + 8"
    "ptr_of (GET (init_mem m b) (b + 28)) = 0"
  using assms unfolding init_mem_def
  by (simp_all add: ptr_SET_other ptr_SET_same ptr_SET_zero)

lemma mm_init_fail_second:
  "mem_max_addr s < mem_brk s + 4120 \<Longrightarrow> mm_init s = Fault"
  by (simp add: mm_init_def mem_sbrk_def Let_def)

lemma mm_init_cases:
  "mm_init s = (if mem_brk s + 4120 \<le> mem_max_addr s
                then Returns (0, s\<lparr>mem := init_mem (mem s) (mem_brk s),
                                  mem_brk := mem_brk s + 4120, head := mem_brk s + 8\<rparr>)
                else Fault)"
  using mm_init_ok[of s] mm_init_fail_second[of s] by auto

section \<open>The invariant after mm_init, and what it says about the observations\<close>

lemma mm_init_valid:
  assumes a: "mem_brk s + 4120 \<le> mem_max_addr s" and b: "mem_max_addr s \<le> 2 ^ 32"
  shows "valid (s\<lparr>mem := init_mem (mem s) (mem_brk s), mem_brk := mem_brk s + 4120,
                  head := mem_brk s + 8\<rparr>) [(mem_brk s + 24, 4096, False)] [mem_brk s + 24]"
proof -
  let ?b = "mem_brk s"
  have lt: "?b + 24 < 2 ^ 32" using a b by simp
  have "dll (init_mem (mem s) ?b) (?b + 8) [?b + 24] (ptr_of (GET (init_mem (mem s) ?b) (?b + 8 + 4)))"
    using init_mem_links[OF lt, of "mem s"] by (simp add: add.assoc)
  then have d: "dlist (init_mem (mem s) ?b) (?b + 8) [?b + 24]"
    by (simp add: dlist_def)
  show ?thesis
    using a b d init_mem_reads[of "mem s" ?b]
    by (simp add: valid_def heap_ok_def hdrs_def add.commute)
qed

lemma valid_blocks:
  assumes "valid s bs fl"
  shows "blocks s = bs"
proof -
  from assms have c: "chain (mem s) (head s) ((head s, 16, True) # bs) (mem_brk s)"
    and h: "hdrs (mem s) ((head s, 16, True) # bs)"
    by (simp_all add: valid_def heap_ok_def)
  from h have n: "NEXT (mem s) (head s) = head s + 16" by (simp add: hdrs_def NEXT_def)
  from h have h': "hdrs (mem s) bs" by (simp add: hdrs_def)
  from c have "chain (mem s) (head s + 16) bs (mem_brk s)" by simp
  from blocks_from_chain[OF this h'] n show ?thesis by (simp add: blocks_def)
qed

lemma valid_free_list:
  assumes "valid s bs fl"
  shows "free_list s = Some fl"
proof -
  from assms have "dll (mem s) (head s) fl (ptr_of (GET (mem s) (head s + 4)))"
    by (simp add: valid_def heap_ok_def dlist_def)
  from list_from_dll[OF this] show ?thesis by (simp add: free_list_def SUCC_def)
qed

lemma valid_total:
  assumes "valid s bs fl"
  shows "head s + 16 + total_size bs = mem_brk s"
proof -
  from assms have "chain (mem s) (head s + 16) bs (mem_brk s)"
    by (simp add: valid_def heap_ok_def)
  from chain_end[OF this] show ?thesis by simp
qed

section \<open>The rounded request size\<close>

lemma asize_of_bounds:
  assumes W: "32 \<le> W" and n: "n + 16 \<le> 2 ^ W"
  shows "16 \<le> asize_of W n" "8 dvd asize_of W n" "n + 8 \<le> asize_of W n"
    "asize_of W n \<le> n + 16"
proof -
  have W3: "3 \<le> W" using W by simp
  have big: "(16::nat) < 2 ^ W"
  proof -
    have "(2::nat) ^ 32 \<le> 2 ^ W" using W by (intro power_increasing) simp_all
    then show ?thesis by simp
  qed
  have lt: "n + 7 < 2 ^ W" using n by simp
  have al: "ALIGN W n = 8 * ((n + 7) div 8)"
    using and_mask_upper[OF W3 lt] lt by (simp add: ALIGN_def)
  have le: "8 * ((n + 7) div 8) + 8 \<le> n + 15" by simp
  have lt2: "8 * ((n + 7) div 8) + 8 < 2 ^ W" using le n by linarith
  have as: "asize_of W n = (if n \<le> 8 then 16 else 8 * ((n + 7) div 8) + 8)"
    using lt2 by (simp add: asize_of_def al)
  show "16 \<le> asize_of W n" unfolding as by (simp, arith)
  show "8 dvd asize_of W n" unfolding as by simp
  show "n + 8 \<le> asize_of W n" unfolding as by (simp, arith)
  show "asize_of W n \<le> n + 16" unfolding as by (simp, arith)
qed

section \<open>Rewriting the tags inside one stretch of the heap\<close>

lemma heap_ok_tags:
  assumes ok: "heap_ok s bs fl" and x: "(x, sz, a) \<in> set bs"
  shows "ALLOC (mem s) (x - 4) = (if a then 1 else 0)" "SIZE (mem s) (x + sz - 8) = sz"
    "\<not> a \<longrightarrow> SIZE (mem s) (x - 4) = sz"
proof -
  from ok have c: "chain (mem s) (head s) ((head s, 16, True) # bs) (mem_brk s)"
    by (simp add: heap_ok_def)
  have "(x, sz, a) \<in> set ((head s, 16, True) # bs)" using x by simp
  from chain_in[OF c this]
  show "ALLOC (mem s) (x - 4) = (if a then 1 else 0)" "SIZE (mem s) (x + sz - 8) = sz"
    "\<not> a \<longrightarrow> SIZE (mem s) (x - 4) = sz" by simp_all
qed

lemma heap_ok_other_block:
  assumes ok: "heap_ok s (pre @ (x, sz, a) # post) fl" and y: "y \<in> fst ` set (pre @ post)"
  shows "y + 16 \<le> x \<or> x + sz \<le> y"
proof -
  let ?bs = "(head s, 16, True) # pre @ (x, sz, a) # post"
  from ok have c: "chain (mem s) (head s) ?bs (mem_brk s)" by (simp add: heap_ok_def)
  from y obtain ysz ya where yin: "(y, ysz, ya) \<in> set (pre @ post)" by (rule in_fst_setE)
  have d: "distinct (map fst ?bs)" by (rule chain_distinct[OF c])
  then have "x \<notin> fst ` set (pre @ post)" by auto
  with y have ne: "y \<noteq> x" by auto
  have yin': "(y, ysz, ya) \<in> set ?bs" using yin by auto
  have xin: "(x, sz, a) \<in> set ?bs" by simp
  from chain_sep[OF c yin' xin] ne have "y + ysz \<le> x \<or> x + sz \<le> y" by auto
  moreover have "16 \<le> ysz" using chain_in[OF c yin'] by simp
  ultimately show ?thesis by linarith
qed

lemma heap_ok_replace:
  assumes ok: "heap_ok s (pre @ mid @ post) fl" and mid: "mid \<noteq> []" "fst (hd mid) = x"
    and c': "chain m' x mid' (x + total_size mid)"
    and fr: "\<And>a. a < x - 4 \<or> x + total_size mid - 4 \<le> a \<Longrightarrow> m' a = mem s a"
    and links: "\<And>y i. y \<in> set fl \<Longrightarrow> i < 8 \<Longrightarrow> m' (y + i) = mem s (y + i)"
  shows "heap_ok (s\<lparr>mem := m'\<rparr>) (pre @ mid' @ post) fl"
proof -
  let ?m = "mem s" and ?h = "head s" and ?P = "(head s, 16, True)" and ?sz = "total_size mid"
  from ok have c: "chain ?m ?h (?P # pre @ mid @ post) (mem_brk s)" and d: "dlist ?m ?h fl"
    and h8: "8 \<le> ?h" and ep: "ALLOC ?m (mem_brk s - 4) = 1"
    by (simp_all add: heap_ok_def)
  from c have "chain ?m ?h ((?P # pre) @ mid @ post) (mem_brk s)" by simp
  then obtain x' r where c1: "chain ?m ?h (?P # pre) x'" and c2: "chain ?m x' mid r"
    and c3: "chain ?m r post (mem_brk s)" unfolding chain_append by blast
  have x': "x' = x" using chain_hd[OF c2 mid(1)] mid(2) by simp
  have r: "r = x + ?sz" using chain_end[OF c2] x' by simp
  have xh: "?h + 16 \<le> x" using c1 x' chain_le[of ?m "?h + 16" pre x] by simp
  have rb: "r \<le> mem_brk s" using chain_le[OF c3] .
  have h4: "4 \<le> ?h" using h8 by simp
  have r4: "4 \<le> r" using r xh by simp
  have c1': "chain m' ?h (?P # pre) x"
    by (rule chain_frame_region[OF c1[unfolded x'] h4]) (rule fr, simp)
  have c3': "chain m' r post (mem_brk s)"
    by (rule chain_frame_region[OF c3 r4]) (rule fr, use r in simp)
  have cc: "chain m' ?h ((?P # pre) @ mid' @ post) (mem_brk s)"
    unfolding chain_append using c1' c' c3' r by blast
  have ep': "ALLOC m' (mem_brk s - 4) = ALLOC ?m (mem_brk s - 4)"
  proof (rule ALLOC_cong)
    fix i :: nat assume "i < 4"
    show "m' (mem_brk s - 4 + i) = ?m (mem_brk s - 4 + i)"
      by (rule fr) (use r rb in arith)
  qed
  have d': "dlist m' ?h fl"
    unfolding dlist_def
  proof -
    have "ptr_of (GET m' (?h + 4)) = ptr_of (GET ?m (?h + 4))"
    proof (rule ptr_cong)
      fix i :: nat assume "i < 4"
      then show "m' (?h + 4 + i) = ?m (?h + 4 + i)"
        by (intro fr) (use xh in arith)
    qed
    moreover have "dll m' ?h fl (ptr_of (GET ?m (?h + 4)))"
    proof (rule dll_frame)
      show "dll ?m ?h fl (ptr_of (GET ?m (?h + 4)))" using d by (simp add: dlist_def)
    qed (rule links)
    ultimately show "dll m' ?h fl (ptr_of (GET m' (?h + 4)))" by simp
  qed
  have f: "mem_max_addr s \<le> 2 ^ 32" "mem_brk s \<le> mem_max_addr s" "distinct fl"
    using ok by (simp_all add: heap_ok_def)
  have cc': "chain m' ?h (?P # pre @ mid' @ post) (mem_brk s)"
    using cc by (simp only: append_Cons)
  have sel: "mem (s\<lparr>mem := m'\<rparr>) = m'" "head (s\<lparr>mem := m'\<rparr>) = head s"
    "mem_brk (s\<lparr>mem := m'\<rparr>) = mem_brk s" "mem_max_addr (s\<lparr>mem := m'\<rparr>) = mem_max_addr s"
    by simp_all
  have ep1: "ALLOC m' (mem_brk s - 4) = 1" using ep ep' by (simp only:)
  show ?thesis
    unfolding heap_ok_def sel
    using h8 f cc' ep1 d' by (intro conjI)
qed

lemma heap_ok_payload:
  assumes ok: "heap_ok s bs fl" and x: "(x, sz, True) \<in> set bs"
    and sub: "set fl \<subseteq> set (free_blocks bs)"
    and fr: "\<And>a. a < x \<or> x + sz - 8 \<le> a \<Longrightarrow> m' a = mem s a"
  shows "heap_ok (s\<lparr>mem := m'\<rparr>) bs fl"
proof -
  from x obtain pre post where bs: "bs = pre @ (x, sz, True) # post"
    by (auto simp: in_set_conv_decomp)
  have ok': "heap_ok s (pre @ [(x, sz, True)] @ post) fl" using ok bs by simp
  have xin: "(x, sz, True) \<in> set (pre @ (x, sz, True) # post)" by simp
  have b: "16 \<le> sz" "8 dvd sz" "head s + 16 \<le> x"
    using heap_ok_block[OF ok[unfolded bs] xin] by simp_all
  have ci: "ALLOC (mem s) (x - 4) = 1" "SIZE (mem s) (x + sz - 8) = sz"
    using heap_ok_tags[OF ok x] by simp_all
  have a1: "ALLOC m' (x - 4) = ALLOC (mem s) (x - 4)"
    by (rule ALLOC_cong, rule fr) (use b in arith)
  have a2: "SIZE m' (x + sz - 8) = SIZE (mem s) (x + sz - 8)"
    by (rule SIZE_cong, rule fr) arith
  have "heap_ok (s\<lparr>mem := m'\<rparr>) (pre @ [(x, sz, True)] @ post) fl"
  proof (rule heap_ok_replace[OF ok'])
    show "chain m' x [(x, sz, True)] (x + total_size [(x, sz, True)])"
      using b ci a1 a2 by simp
    show "m' a = mem s a" if "a < x - 4 \<or> x + total_size [(x, sz, True)] - 4 \<le> a" for a
      by (rule fr) (use that in auto)
    show "m' (y + i) = mem s (y + i)" if y: "y \<in> set fl" and i: "i < 8" for y i
    proof (rule fr)
      from y sub have "y \<in> set (free_blocks (pre @ post))" by (auto simp: bs)
      then have "y \<in> fst ` set (pre @ post)" using free_blocks_subset by blast
      from heap_ok_other_block[OF ok[unfolded bs] this] i
      show "y + i < x \<or> x + sz - 8 \<le> y + i" by linarith
    qed
  qed simp_all
  then show ?thesis by (simp add: bs)
qed

lemma heap_ok_carve:
  assumes ok: "heap_ok s (pre @ (x, fsize, False) # post) fl"
    and sub: "set fl \<subseteq> fst ` set (pre @ (x, fsize, False) # post)"
    and a: "16 \<le> asz" "8 dvd asz" "asz = fsize \<or> asz + 16 \<le> fsize"
  shows "heap_ok (s\<lparr>mem := set_tags (mem s) x asz 1\<rparr>) (pre @ (x, fsize, True) # post) fl"
    and "SIZE (set_tags (mem s) x asz 1) (x - 4) = asz"
    and "SIZE (set_tags (mem s) x asz 1) (x + asz - 8) = asz"
proof -
  let ?m' = "set_tags (mem s) x asz 1"
  have xin: "(x, fsize, False) \<in> set (pre @ (x, fsize, False) # post)" by simp
  have b: "16 \<le> fsize" "8 dvd fsize" "head s + 16 \<le> x" "fsize < 4294967296"
    using heap_ok_block[OF ok xin] by simp_all
  have al: "asz < 4294967296" "asz \<le> fsize" using a b by auto
  have x4: "4 \<le> x" using b by simp
  note hdr = set_tags_hdr[OF a(2) al(1) _ x4 a(1), of 1 "mem s", simplified]
  show "SIZE ?m' (x - 4) = asz" "SIZE ?m' (x + asz - 8) = asz" using hdr by simp_all
  have other: "?m' b = mem s b" if "b < x - 4 \<or> x \<le> b" "b < x + asz - 8 \<or> x + asz - 4 \<le> b" for b
    by (rule set_tags_other[OF a(2) al(1) _ x4 a(1)]) (use that in simp_all)
  have ft0: "SIZE (mem s) (x + fsize - 8) = fsize"
    using heap_ok_tags[OF ok xin] by simp
  have ft: "SIZE ?m' (x + fsize - 8) = fsize"
  proof (cases "asz = fsize")
    case True then show ?thesis using hdr by simp
  next
    case False
    then have lt: "asz + 16 \<le> fsize" using a by simp
    have "SIZE ?m' (x + fsize - 8) = SIZE (mem s) (x + fsize - 8)"
      by (rule SIZE_cong, rule other) (use lt in arith)+
    then show ?thesis using ft0 by simp
  qed
  have ok': "heap_ok s (pre @ [(x, fsize, False)] @ post) fl" using ok by simp
  have "heap_ok (s\<lparr>mem := ?m'\<rparr>) (pre @ [(x, fsize, True)] @ post) fl"
  proof (rule heap_ok_replace[OF ok'])
    show "chain ?m' x [(x, fsize, True)] (x + total_size [(x, fsize, False)])"
      using b hdr ft by simp
    show "?m' c = mem s c" if "c < x - 4 \<or> x + total_size [(x, fsize, False)] - 4 \<le> c" for c
      by (rule other) (use that al a b in simp, arith)+
    show "?m' (y + i) = mem s (y + i)" if y: "y \<in> set fl" and i: "i < 8" for y i
    proof (cases "y = x")
      case True
      show ?thesis by (rule other) (use True i a in arith)+
    next
      case False
      with y sub have "y \<in> fst ` set (pre @ post)" by auto
      from heap_ok_other_block[OF ok this] i al
      show ?thesis by (intro other) linarith+
    qed
  qed simp_all
  then show "heap_ok (s\<lparr>mem := ?m'\<rparr>) (pre @ (x, fsize, True) # post) fl" by simp
qed

lemma heap_ok_split:
  assumes ok: "heap_ok s (pre @ (x, fsize, True) # post) fl"
    and sub: "set fl \<subseteq> fst ` set (pre @ post)"
    and a: "16 \<le> asz" "8 dvd asz" "asz + 16 \<le> fsize"
    and inner: "SIZE (mem s) (x + asz - 8) = asz"
  shows "heap_ok (s\<lparr>mem := set_tags (mem s) (x + asz) (fsize - asz) 0\<rparr>)
           (pre @ (x, asz, True) # (x + asz, fsize - asz, False) # post) fl"
proof -
  let ?m' = "set_tags (mem s) (x + asz) (fsize - asz) 0"
  have xin: "(x, fsize, True) \<in> set (pre @ (x, fsize, True) # post)" by simp
  have b: "16 \<le> fsize" "8 dvd fsize" "head s + 16 \<le> x" "fsize < 4294967296"
    using heap_ok_block[OF ok xin] by simp_all
  have r: "16 \<le> fsize - asz" "8 dvd fsize - asz" "fsize - asz < 4294967296"
    using a b by simp_all
  have x4: "4 \<le> x + asz" using b by simp
  note hdr = set_tags_hdr[OF r(2) r(3) _ x4 r(1), of 0 "mem s", simplified]
  have other: "?m' b = mem s b"
    if "b < x + asz - 4 \<or> x + asz \<le> b" "b < x + fsize - 8 \<or> x + fsize - 4 \<le> b" for b
    by (rule set_tags_other[OF r(2) r(3) _ x4 r(1)]) (use that a in simp_all)
  have al0: "ALLOC (mem s) (x - 4) = 1"
    using heap_ok_tags[OF ok xin] by simp
  have al: "ALLOC ?m' (x - 4) = 1"
  proof -
    have "ALLOC ?m' (x - 4) = ALLOC (mem s) (x - 4)"
      by (rule ALLOC_cong, rule other) (use a b in arith)+
    then show ?thesis using al0 by simp
  qed
  have inn: "SIZE ?m' (x + asz - 8) = asz"
  proof -
    have "SIZE ?m' (x + asz - 8) = SIZE (mem s) (x + asz - 8)"
      by (rule SIZE_cong, rule other) (use a b in arith)+
    then show ?thesis using inner by simp
  qed
  have e: "x + asz + (fsize - asz) = x + fsize" using a by simp
  have ok': "heap_ok s (pre @ [(x, fsize, True)] @ post) fl" using ok by simp
  have "heap_ok (s\<lparr>mem := ?m'\<rparr>) (pre @ [(x, asz, True), (x + asz, fsize - asz, False)] @ post) fl"
  proof (rule heap_ok_replace[OF ok'])
    show "chain ?m' x [(x, asz, True), (x + asz, fsize - asz, False)]
            (x + total_size [(x, fsize, True)])"
      using a r al inn hdr e by simp
    show "?m' c = mem s c" if "c < x - 4 \<or> x + total_size [(x, fsize, True)] - 4 \<le> c" for c
      by (rule other) (use that a b in simp, arith)+
    show "?m' (y + i) = mem s (y + i)" if y: "y \<in> set fl" and i: "i < 8" for y i
    proof -
      from y sub have "y \<in> fst ` set (pre @ post)" by auto
      from heap_ok_other_block[OF ok this] i a
      show ?thesis by (intro other) linarith+
    qed
  qed simp_all
  then show ?thesis by simp
qed

section \<open>Releasing a block: free tags, then coalesce\<close>

lemma wvalid_heap_ok: "wvalid s bs fl \<Longrightarrow> heap_ok s bs fl"
  by (simp add: wvalid_def)

lemma naf_free_to_alloc:
  "no_adjacent_free (pre @ (p, sz, a) # post) \<Longrightarrow> no_adjacent_free (pre @ (p, sz, True) # post)"
  by (auto simp: naf_append naf_Cons)

lemma release_pre:
  assumes wv: "wvalid s (pre @ (p, sz, True) # post) fl"
  shows "pre_coalesce (s\<lparr>mem := set_tags (mem s) p sz 0\<rparr>) pre p sz post fl"
    and "frame_ok s (pre @ (p, sz, False) # post) (set_tags (mem s) p sz 0)"
proof -
  let ?bs = "pre @ (p, sz, True) # post" and ?F = "pre @ (p, sz, False) # post"
  from wv have ok: "heap_ok s ?bs fl" and fl: "set fl = set (free_blocks ?bs)"
    and naf: "no_adjacent_free ?bs" by (simp_all add: wvalid_def)
  have ok': "heap_ok s (pre @ [(p, sz, True)] @ post) fl" using ok by simp
  have sub: "set fl \<subseteq> fst ` set (pre @ [(p, sz, True)] @ post)"
    using fl free_blocks_subset[of ?bs] by simp
  have "heap_ok (s\<lparr>mem := set_tags (mem s) p (total_size [(p, sz, True)]) 0\<rparr>)
          (pre @ (p, total_size [(p, sz, True)], (0::nat) \<noteq> 0) # post) fl"
    by (rule heap_ok_retag[OF ok' _ _ _ sub]) simp_all
  then have ok1: "heap_ok (s\<lparr>mem := set_tags (mem s) p sz 0\<rparr>) ?F fl" by simp
  show "pre_coalesce (s\<lparr>mem := set_tags (mem s) p sz 0\<rparr>) pre p sz post fl"
    unfolding pre_coalesce_def using ok1 fl naf by simp
  have pin: "(p, sz, True) \<in> set ?bs" by simp
  note pb = heap_ok_block[OF ok pin]
  show "frame_ok s ?F (set_tags (mem s) p sz 0)"
  proof (rule frame_ok_set_tags[where x = p and z = p and xs = sz and zs = sz])
    show "(p, sz, False) \<in> set ?F" by simp
    show "16 \<le> sz'" if "(x, sz', al) \<in> set ?F" for x sz' al
      using heap_ok_big[OF ok1 that] .
  qed (use pb in simp_all)
qed

lemma hdrs_butD:
  "hdrs_but z m bs \<Longrightarrow> (p, sz, True) \<in> set bs \<Longrightarrow> p \<noteq> z \<Longrightarrow> SIZE m (p - 4) = sz"
  unfolding hdrs_but_def by fast

lemma hdrs_butI:
  "(\<And>p sz. (p, sz, True) \<in> set bs \<Longrightarrow> p \<noteq> z \<Longrightarrow> SIZE m (p - 4) = sz) \<Longrightarrow> hdrs_but z m bs"
  unfolding hdrs_but_def by auto

lemma hdrs_but_set_tags:
  assumes ok: "heap_ok s (pre @ (p, sz, a) # post) fl"
    and h: "hdrs_but z (mem s) ((head s, 16, True) # pre @ (p, sz, a) # post)"
    and b: "b \<le> 1"
  shows "hdrs_but z (set_tags (mem s) p sz b) ((head s, 16, True) # pre @ post)"
    and "SIZE (set_tags (mem s) p sz b) (mem_brk s - 4) = SIZE (mem s) (mem_brk s - 4)"
proof -
  let ?m' = "set_tags (mem s) p sz b"
  have pin: "(p, sz, a) \<in> set (pre @ (p, sz, a) # post)" by simp
  note pb = heap_ok_block[OF ok pin]
  have x4: "4 \<le> p" using pb by simp
  have other: "?m' c = mem s c"
    if "c < p - 4 \<or> p \<le> c" "c < p + sz - 8 \<or> p + sz - 4 \<le> c" for c
    by (rule set_tags_other[OF pb(4) pb(7) b x4 pb(3)]) (use that in simp_all)
  have "SIZE ?m' (y - 4) = ysz"
    if m: "(y, ysz, True) \<in> set ((head s, 16, True) # pre @ post)" and yz: "y \<noteq> z" for y ysz
  proof -
    have o: "y + 16 \<le> p \<or> p + sz \<le> y"
    proof (cases "y = head s")
      case True then show ?thesis using pb(1) by simp
    next
      case False
      with m have "(y, ysz, True) \<in> set (pre @ post)" by auto
      from heap_ok_other_block[OF ok fst_in_set[OF this]] show ?thesis .
    qed
    have "SIZE ?m' (y - 4) = SIZE (mem s) (y - 4)"
      by (rule SIZE_cong, rule other) (use o pb in arith)+
    moreover have "SIZE (mem s) (y - 4) = ysz"
      by (rule hdrs_butD[OF h _ yz]) (use m in auto)
    ultimately show ?thesis by simp
  qed
  then show "hdrs_but z ?m' ((head s, 16, True) # pre @ post)"
    by (rule hdrs_butI)
  show "SIZE ?m' (mem_brk s - 4) = SIZE (mem s) (mem_brk s - 4)"
    by (rule SIZE_cong, rule other) (use pb in arith)+
qed

lemma used_iff: "(x, sz, a) \<in> set (used bs) \<longleftrightarrow> a \<and> (x, sz, True) \<in> set bs"
  by (auto simp: used_def)

lemma used_drop_free [simp]: "used (pre @ (p, sz, False) # post) = used (pre @ post)"
  by simp

lemma release_ivalid:
  assumes iv: "ivalid z s (pre @ (p, sz, True) # post) fl" and W: "32 \<le> W"
  shows "\<exists>bs' fl'.
           ivalid z (snd (coalesce W (s\<lparr>mem := set_tags (mem s) p sz 0\<rparr>) p)) bs' fl' \<and>
           frame_ok s (pre @ (p, sz, False) # post)
             (mem (snd (coalesce W (s\<lparr>mem := set_tags (mem s) p sz 0\<rparr>) p))) \<and>
           used bs' = used (pre @ post) \<and>
           head (snd (coalesce W (s\<lparr>mem := set_tags (mem s) p sz 0\<rparr>) p)) = head s \<and>
           mem_brk (snd (coalesce W (s\<lparr>mem := set_tags (mem s) p sz 0\<rparr>) p)) = mem_brk s \<and>
           mem_max_addr (snd (coalesce W (s\<lparr>mem := set_tags (mem s) p sz 0\<rparr>) p)) = mem_max_addr s"
proof -
  let ?bs = "pre @ (p, sz, True) # post" and ?F = "pre @ (p, sz, False) # post"
  let ?s1 = "s\<lparr>mem := set_tags (mem s) p sz 0\<rparr>"
  let ?s2 = "snd (coalesce W ?s1 p)"
  from iv have wv: "wvalid s ?bs fl" and h: "hdrs_but z (mem s) ((head s, 16, True) # ?bs)"
    and e: "SIZE (mem s) (mem_brk s - 4) = 0" by (simp_all add: ivalid_def)
  note ok = wvalid_heap_ok[OF wv]
  note pc = release_pre(1)[OF wv] and fr1 = release_pre(2)[OF wv]
  from pre_coalesce_facts(1)[OF pc] have ok1: "heap_ok ?s1 ?F fl" .
  from coalesce_wvalid[OF pc W] obtain bs' fl' where
    wv2: "wvalid ?s2 bs' fl'" and fr2: "frame_ok ?s1 ?F (mem ?s2)"
    and u: "used bs' = used (pre @ post)" and hd: "head ?s2 = head s"
    and br: "mem_brk ?s2 = mem_brk s" and mx: "mem_max_addr ?s2 = mem_max_addr s"
    by auto
  have fr: "frame_ok s ?F (mem ?s2)" by (rule frame_ok_trans[OF fr1 fr2])
  have h1: "hdrs_but z (mem ?s1) ((head ?s1, 16, True) # ?F)"
  proof (rule hdrs_butI)
    fix y ysz assume "(y, ysz, True) \<in> set ((head ?s1, 16, True) # ?F)" "y \<noteq> z"
    then show "SIZE (mem ?s1) (y - 4) = ysz"
      using hdrs_butD[OF hdrs_but_set_tags(1)[OF ok h, of 0], of y ysz] by auto
  qed
  have e1: "SIZE (mem ?s1) (mem_brk ?s1 - 4) = 0"
    using hdrs_but_set_tags(2)[OF ok h, of 0] e by simp
  have h2: "hdrs_but z (mem ?s2) ((head ?s1, 16, True) # bs')"
    by (rule frame_ok_hdrs[OF ok1 fr2 h1]) (simp add: u)
  have e2: "SIZE (mem ?s2) (mem_brk ?s1 - 4) = 0"
    using frame_ok_epilogue[OF ok1 fr2] e1 by simp
  have "ivalid z ?s2 bs' fl'"
    unfolding ivalid_def using wv2 h2 e2 hd br by simp
  with fr u hd br mx show ?thesis by blast
qed

section \<open>mm_free\<close>

lemma valid_block_hdr:
  assumes v: "ivalid z s bs fl" and x: "(x, sz, a) \<in> set bs" and xz: "x \<noteq> z"
  shows "SIZE (mem s) (HDR x) = sz"
proof (cases a)
  case True
  from v have "hdrs_but z (mem s) ((head s, 16, True) # bs)" by (simp add: ivalid_def)
  from hdrs_butD[OF this _ xz, of sz] x True show ?thesis by (simp add: HDR_def)
next
  case False
  from v have "heap_ok s bs fl" by (simp add: ivalid_def wvalid_def)
  from heap_ok_tags(3)[OF this x] False show ?thesis by (simp add: HDR_def)
qed

lemma mm_free_valid:
  assumes v: "valid s (pre @ (p, sz, True) # post) fl" and W: "32 \<le> W"
  shows "\<exists>bs' fl'. valid (mm_free W s p) bs' fl' \<and>
           frame_ok s (pre @ (p, sz, False) # post) (mem (mm_free W s p)) \<and>
           used bs' = used (pre @ post) \<and>
           head (mm_free W s p) = head s \<and> mem_brk (mm_free W s p) = mem_brk s \<and>
           mem_max_addr (mm_free W s p) = mem_max_addr s"
proof -
  from v have iv: "ivalid 0 s (pre @ (p, sz, True) # post) fl" by (simp add: valid_ivalid)
  have pin: "(p, sz, True) \<in> set (pre @ (p, sz, True) # post)" by simp
  from iv have ok: "heap_ok s (pre @ (p, sz, True) # post) fl" by (simp add: ivalid_def wvalid_def)
  have p0: "p \<noteq> 0" using heap_ok_block(8)[OF ok pin] .
  have sz: "SIZE (mem s) (HDR p) = sz" by (rule valid_block_hdr[OF iv pin p0])
  have e: "mm_free W s p = snd (coalesce W (s\<lparr>mem := set_tags (mem s) p sz 0\<rparr>) p)"
    using p0 sz by (simp add: mm_free_steps)
  show ?thesis unfolding e valid_ivalid by (rule release_ivalid[OF iv W])
qed

lemma mm_free_null: "mm_free W s 0 = s"
  by (simp add: mm_free_def)

section \<open>Agreement on the allocated blocks\<close>

lemma same_usedI:
  "(\<And>y ysz a. (y, ysz, True) \<in> set bs \<Longrightarrow> y - 4 \<le> a \<Longrightarrow> a < y + ysz - 4 \<Longrightarrow> m' a = m a) \<Longrightarrow>
     same_used bs m m'"
  unfolding same_used_def by auto

lemma same_usedD:
  "same_used bs m m' \<Longrightarrow> (y, ysz, True) \<in> set bs \<Longrightarrow> y - 4 \<le> a \<Longrightarrow> a < y + ysz - 4 \<Longrightarrow> m' a = m a"
  unfolding same_used_def by fastforce

lemma same_used_refl: "same_used bs m m"
  by (rule same_usedI) simp

lemma same_used_trans:
  assumes "same_used bs m m'" "same_used bs' m' m''"
    and "\<And>y ysz. (y, ysz, True) \<in> set cs \<Longrightarrow> (y, ysz, True) \<in> set bs \<and> (y, ysz, True) \<in> set bs'"
  shows "same_used cs m m''"
proof (rule same_usedI)
  fix y ysz a assume y: "(y, ysz, True) \<in> set cs" and a: "y - 4 \<le> a" "a < y + ysz - 4"
  from assms(3)[OF y] have 1: "(y, ysz, True) \<in> set bs" and 2: "(y, ysz, True) \<in> set bs'" by simp_all
  show "m'' a = m a"
    using same_usedD[OF assms(1) 1 a] same_usedD[OF assms(2) 2 a] by simp
qed

lemma frame_ok_same_used:
  assumes ok: "heap_ok s F fl" and fr: "frame_ok s F m'"
  shows "same_used F (mem s) m'"
  by (rule same_usedI) (rule frame_ok_alloc[OF ok fr])

section \<open>Growing the heap\<close>

lemma grown_fields [simp]:
  "head (grown s ex) = head s" "mem_brk (grown s ex) = mem_brk s + ex"
  "mem_max_addr (grown s ex) = mem_max_addr s"
  by (simp_all add: grown_def)

lemma grown_pre:
  assumes iv: "ivalid z s bs fl" and ex: "16 \<le> ex" "8 dvd ex"
    and fit: "mem_brk s + ex \<le> mem_max_addr s"
  shows "pre_coalesce (grown s ex) bs (mem_brk s) ex [] fl"
    and "hdrs_but z (mem (grown s ex)) ((head s, 16, True) # bs)"
    and "SIZE (mem (grown s ex)) (mem_brk s + ex - 4) = 0"
    and "\<And>a. a < mem_brk s - 4 \<Longrightarrow> mem (grown s ex) a = mem s a"
proof -
  let ?b = "mem_brk s" and ?m = "mem s" and ?h = "head s" and ?P = "(head s, 16, True)"
  let ?m1 = "set_tags ?m ?b ex 0"
  let ?m2 = "SET ?m1 (?b + ex - 4) (PACK 0 1)"
  have gm: "mem (grown s ex) = ?m2" by (simp add: grown_def)
  from iv have ok: "heap_ok s bs fl" and fl: "set fl = set (free_blocks bs)"
    and naf: "no_adjacent_free bs" and h: "hdrs_but z ?m (?P # bs)"
    by (simp_all add: ivalid_def wvalid_def)
  from ok have c: "chain ?m ?h (?P # bs) ?b" and d: "dlist ?m ?h fl"
    and h8: "8 \<le> ?h" and mx: "mem_max_addr s \<le> 4294967296" and dist: "distinct fl"
    by (simp_all add: heap_ok_def)
  have hb: "?h + 16 \<le> ?b" using c chain_le[of ?m "?h + 16" bs ?b] by simp
  have exlt: "ex < 4294967296" using fit mx hb by simp
  have b4: "4 \<le> ?b" using hb by simp
  note hdr = set_tags_hdr[OF ex(2) exlt _ b4 ex(1), of 0 ?m, simplified]
  have other1: "?m1 a = ?m a" if "a < ?b - 4" for a
    by (rule set_tags_other[OF ex(2) exlt _ b4 ex(1)]) (use that ex in arith)+
  have other: "?m2 a = ?m a" if "a < ?b - 4" for a
  proof -
    have "?m2 a = ?m1 a" by (rule SET_other) (use that ex in arith)
    then show ?thesis using other1[OF that] by simp
  qed
  show "\<And>a. a < mem_brk s - 4 \<Longrightarrow> mem (grown s ex) a = mem s a"
    unfolding gm by (rule other)
  have "ALLOC ?m2 (?b - 4) = ALLOC ?m1 (?b - 4)" "SIZE ?m2 (?b - 4) = SIZE ?m1 (?b - 4)"
    by (rule ALLOC_SET_other SIZE_SET_other, use ex b4 in arith)+
  moreover have "SIZE ?m2 (?b + ex - 8) = SIZE ?m1 (?b + ex - 8)"
    by (rule SIZE_SET_other) (use ex b4 in arith)
  ultimately have t: "ALLOC ?m2 (?b - 4) = 0" "SIZE ?m2 (?b - 4) = ex" "SIZE ?m2 (?b + ex - 8) = ex"
    using hdr by simp_all
  have ep: "ALLOC ?m2 (?b + ex - 4) = 1" "SIZE ?m2 (?b + ex - 4) = 0"
    by (simp_all add: ALLOC_SET_1 SIZE_SET_1)
  show "SIZE (mem (grown s ex)) (mem_brk s + ex - 4) = 0" unfolding gm by (rule ep)
  have c1: "chain ?m2 ?h (?P # bs) ?b"
  proof (rule chain_frame_region[OF c])
    show "4 \<le> ?h" using h8 by simp
    fix a assume "a < ?b - 4" then show "?m2 a = ?m a" by (rule other)
  qed
  have c2: "chain ?m2 ?b [(?b, ex, False)] (?b + ex)" using ex t by simp
  have cc: "chain ?m2 ?h (?P # bs @ [(?b, ex, False)]) (?b + ex)"
    using c1 c2 chain_append[of ?m2 ?h "?P # bs" "[(?b, ex, False)]" "?b + ex"] by auto
  have sub: "set fl \<subseteq> fst ` set bs" using fl free_blocks_subset[of bs] by simp
  have d': "dlist ?m2 ?h fl"
    unfolding dlist_def
  proof -
    have "ptr_of (GET ?m2 (?h + 4)) = ptr_of (GET ?m (?h + 4))"
      by (rule ptr_cong, rule other) (use hb in arith)
    moreover have "dll ?m2 ?h fl (ptr_of (GET ?m (?h + 4)))"
    proof (rule dll_frame)
      show "dll ?m ?h fl (ptr_of (GET ?m (?h + 4)))" using d by (simp add: dlist_def)
      fix y i assume y: "y \<in> set fl" and i: "(i::nat) < 8"
      from y sub have "y \<in> fst ` set bs" by blast
      then obtain ysz ya where yin: "(y, ysz, ya) \<in> set bs" by (rule in_fst_setE)
      from heap_ok_block(2,3)[OF ok yin] i show "?m2 (y + i) = ?m (y + i)"
        by (intro other) arith
    qed
    ultimately show "dll ?m2 ?h fl (ptr_of (GET ?m2 (?h + 4)))" by simp
  qed
  have ok': "heap_ok (grown s ex) (bs @ [(?b, ex, False)]) fl"
    unfolding heap_ok_def grown_fields gm
    using h8 mx fit cc ep(1) d' dist by (intro conjI) simp_all
  have naf': "no_adjacent_free (bs @ [(?b, ex, True)])"
    using naf by (simp add: naf_append)
  show "pre_coalesce (grown s ex) bs (mem_brk s) ex [] fl"
    unfolding pre_coalesce_def using ok' fl naf' by simp
  show "hdrs_but z (mem (grown s ex)) (?P # bs)"
  proof (rule hdrs_butI)
    fix y ysz assume y: "(y, ysz, True) \<in> set (?P # bs)" and yz: "y \<noteq> z"
    have le: "y + 16 \<le> ?b"
    proof (cases "(y, ysz, True) \<in> set bs")
      case True from heap_ok_block(2,3)[OF ok True] show ?thesis by simp
    next
      case False with y hb show ?thesis by simp
    qed
    have "SIZE ?m2 (y - 4) = SIZE ?m (y - 4)"
      by (rule SIZE_cong, rule other) (use le in arith)
    with hdrs_butD[OF h y yz] show "SIZE (mem (grown s ex)) (y - 4) = ysz" by (simp add: gm)
  qed
qed

section \<open>coalesce, with the headers of the allocated blocks\<close>

lemma coalesce_ivalid:
  assumes pc: "pre_coalesce s pre p sz post fl" and W: "32 \<le> W"
    and h: "hdrs_but z (mem s) ((head s, 16, True) # pre @ post)"
    and e: "SIZE (mem s) (mem_brk s - 4) = 0"
  shows "\<exists>bs' fl' rsz.
           ivalid z (snd (coalesce W s p)) bs' fl' \<and>
           frame_ok s (pre @ (p, sz, False) # post) (mem (snd (coalesce W s p))) \<and>
           used bs' = used (pre @ post) \<and>
           head (snd (coalesce W s p)) = head s \<and>
           mem_brk (snd (coalesce W s p)) = mem_brk s \<and>
           mem_max_addr (snd (coalesce W s p)) = mem_max_addr s \<and>
           (fst (coalesce W s p), rsz, False) \<in> set bs' \<and> sz \<le> rsz"
proof -
  let ?F = "pre @ (p, sz, False) # post"
  let ?s2 = "snd (coalesce W s p)"
  from pre_coalesce_facts(1)[OF pc] have ok: "heap_ok s ?F fl" .
  from coalesce_wvalid[OF pc W] obtain bs' fl' rsz where
    wv2: "wvalid ?s2 bs' fl'" and fr2: "frame_ok s ?F (mem ?s2)"
    and u: "used bs' = used (pre @ post)" and hd: "head ?s2 = head s"
    and br: "mem_brk ?s2 = mem_brk s" and mx: "mem_max_addr ?s2 = mem_max_addr s"
    and r: "(fst (coalesce W s p), rsz, False) \<in> set bs'" "sz \<le> rsz"
    by blast
  have h1: "hdrs_but z (mem s) ((head s, 16, True) # ?F)"
  proof (rule hdrs_butI)
    fix y ysz assume "(y, ysz, True) \<in> set ((head s, 16, True) # ?F)" "y \<noteq> z"
    then show "SIZE (mem s) (y - 4) = ysz"
      using hdrs_butD[OF h, of y ysz] by auto
  qed
  have h2: "hdrs_but z (mem ?s2) ((head s, 16, True) # bs')"
    by (rule frame_ok_hdrs[OF ok fr2 h1]) (simp add: u)
  have e2: "SIZE (mem ?s2) (mem_brk s - 4) = 0"
    using frame_ok_epilogue[OF ok fr2] e by simp
  have "ivalid z ?s2 bs' fl'"
    unfolding ivalid_def using wv2 h2 e2 hd br by simp
  with fr2 u hd br mx r show ?thesis by blast
qed

section \<open>extend_heap\<close>

lemma extend_heap_none:
  assumes "mem_sbrk s (if asize > CHUNKSIZE then asize else CHUNKSIZE) = None"
  shows "extend_heap W s asize = None"
  unfolding extend_heap_steps Let_def assms by simp

lemma mem_sbrk_none: "mem_sbrk s n = None \<longleftrightarrow> mem_max_addr s < mem_brk s + n"
  by (simp add: mem_sbrk_def)

lemma extend_heap_some:
  assumes fit: "mem_brk s + ex \<le> mem_max_addr s" and ex: "ex = (if asize > 4096 then asize else 4096)"
    and d: "8 dvd ex" and lt: "ex < 4294967296" and b: "4 \<le> mem_brk s"
  shows "extend_heap W s asize =
     (if ALLOC (mem (grown s ex)) (HDR (PREV (mem (grown s ex)) (mem_brk s))) \<noteq> 0
      then Some (mem_brk s, (grown s ex)\<lparr>mem := push_front (mem (grown s ex)) (head s) (mem_brk s)\<rparr>)
      else Some (PREV (mem (grown s ex)) (mem_brk s),
             (grown s ex)\<lparr>mem := set_tags (mem (grown s ex)) (PREV (mem (grown s ex)) (mem_brk s))
                ((ex + SIZE (mem (grown s ex)) (HDR (PREV (mem (grown s ex)) (mem_brk s)))) mod 2 ^ W) 0\<rparr>))"
proof -
  have big: "16 \<le> ex" using ex by simp
  note hdr = set_tags_hdr[OF d lt _ b big, of 0 "mem s", simplified]
  have n: "HDR (NEXT (set_tags (mem s) (mem_brk s) ex 0) (mem_brk s)) = mem_brk s + ex - 4"
    using hdr by (simp add: NEXT_def HDR_def)
  have sb: "mem_sbrk s ex = Some (mem_brk s, s\<lparr>mem_brk := mem_brk s + ex\<rparr>)"
    using fit by (simp add: mem_sbrk_def)
  have ex': "(if asize > CHUNKSIZE then asize else CHUNKSIZE) = ex" using ex by simp
  show ?thesis
    unfolding extend_heap_steps ex' Let_def sb
    by (simp add: n grown_def)
qed

lemma extend_heap_valid:
  assumes v: "valid s bs fl" and W: "32 \<le> W" and a: "16 \<le> asize" "8 dvd asize"
    and fit: "mem_brk s + (if asize > 4096 then asize else 4096) \<le> mem_max_addr s"
  shows "\<exists>x s' bs' fl' fsz. extend_heap W s asize = Some (x, s') \<and>
           valid s' bs' fl' \<and> (x, fsz, False) \<in> set bs' \<and> asize \<le> fsz \<and>
           used bs' = used bs \<and> same_used bs (mem s) (mem s') \<and>
           head s' = head s \<and> mem_max_addr s' = mem_max_addr s \<and>
           mem_brk s' = mem_brk s + (if asize > 4096 then asize else 4096)"
proof -
  define ex where "ex = (if asize > 4096 then asize else 4096)"
  let ?g = "grown s ex" and ?b = "mem_brk s"
  from v have iv: "ivalid 0 s bs fl" by (simp add: valid_ivalid)
  from iv have ok: "heap_ok s bs fl" by (simp add: ivalid_def wvalid_def)
  have exb: "16 \<le> ex" "8 dvd ex" "asize \<le> ex" using a by (auto simp: ex_def)
  have fit': "?b + ex \<le> mem_max_addr s" using fit by (simp add: ex_def)
  from ok have c: "chain (mem s) (head s) ((head s, 16, True) # bs) ?b"
    and mx: "mem_max_addr s \<le> 4294967296" by (simp_all add: heap_ok_def)
  have hb: "head s + 16 \<le> ?b" using c chain_le[of "mem s" "head s + 16" bs ?b] by simp
  have exlt: "ex < 4294967296" using fit' mx hb by simp
  have b4: "4 \<le> ?b" using hb by simp
  note pc = grown_pre(1)[OF iv exb(1,2) fit'] and hg = grown_pre(2)[OF iv exb(1,2) fit']
    and eg = grown_pre(3)[OF iv exb(1,2) fit'] and fg = grown_pre(4)[OF iv exb(1,2) fit']
  from pre_coalesce_facts(1)[OF pc] have okg: "heap_ok ?g (bs @ (?b, ex, False) # []) fl" .
  obtain q qsz qa where q: "last ((head ?g, 16, True) # bs) = (q, qsz, qa)" "q + qsz = ?b"
    "PREV (mem ?g) ?b = q" "ALLOC (mem ?g) (HDR q) = (if qa then 1 else 0)"
    "\<not> qa \<longrightarrow> SIZE (mem ?g) (HDR q) = qsz" "16 \<le> qsz" "8 \<le> q"
    by (rule prev_block[OF okg])
  have eq: "extend_heap W s asize = Some (coalesce W ?g ?b)"
  proof (cases qa)
    case True
    have pa: "bs = [] \<or> snd (snd (last bs))" using q(1) True by (cases "bs = []") auto
    from coalesce_AA(1)[OF pc pa, of W] q(3,4) True
    show ?thesis
      unfolding extend_heap_some[OF fit' ex_def exb(2) exlt b4] by simp
  next
    case False
    have ne: "bs \<noteq> []" using q(1) False by auto
    then have "last bs = (q, qsz, False)" using q(1) False by simp
    with ne have bs: "bs = butlast bs @ [(q, qsz, False)]"
      by (metis append_butlast_last_id)
    have "ex + qsz < 4294967296" using q(2,7) fit' mx by linarith
    from mod_W[OF this W] have m: "(ex + qsz) mod 2 ^ W = qsz + ex"
      by (simp add: add.commute)
    have pc': "pre_coalesce ?g (butlast bs @ [(q, qsz, False)]) ?b ex [] fl"
      using pc bs by simp
    from coalesce_FA(1)[OF pc' _ W] q(3,4,5) False m
    show ?thesis
      unfolding extend_heap_some[OF fit' ex_def exb(2) exlt b4] by simp
  qed
  have hg': "hdrs_but 0 (mem ?g) ((head ?g, 16, True) # bs @ [])" using hg by simp
  have eg': "SIZE (mem ?g) (mem_brk ?g - 4) = 0" using eg by simp
  from coalesce_ivalid[OF pc W hg' eg'] obtain bs' fl' rsz where
    iv': "ivalid 0 (snd (coalesce W ?g ?b)) bs' fl'"
    and fr: "frame_ok ?g (bs @ (?b, ex, False) # []) (mem (snd (coalesce W ?g ?b)))"
    and u: "used bs' = used (bs @ [])"
    and f: "head (snd (coalesce W ?g ?b)) = head ?g" "mem_brk (snd (coalesce W ?g ?b)) = mem_brk ?g"
      "mem_max_addr (snd (coalesce W ?g ?b)) = mem_max_addr ?g"
    and r: "(fst (coalesce W ?g ?b), rsz, False) \<in> set bs'" "ex \<le> rsz"
    by blast
  have su: "same_used bs (mem s) (mem (snd (coalesce W ?g ?b)))"
  proof (rule same_usedI)
    fix y ysz a assume y: "(y, ysz, True) \<in> set bs" and a: "y - 4 \<le> a" "a < y + ysz - 4"
    have yg: "(y, ysz, True) \<in> set (bs @ (?b, ex, False) # [])" using y by simp
    have "mem (snd (coalesce W ?g ?b)) a = mem ?g a"
      by (rule frame_ok_alloc[OF okg fr yg a])
    moreover have "mem ?g a = mem s a"
      by (rule fg) (use heap_ok_block(2,3)[OF ok y] a in arith)
    ultimately show "mem (snd (coalesce W ?g ?b)) a = mem s a" by simp
  qed
  show ?thesis
    unfolding eq ex_def[symmetric]
    using iv' u f r su exb(3)
    by (intro exI[of _ "fst (coalesce W ?g ?b)"] exI[of _ "snd (coalesce W ?g ?b)"]
        exI[of _ bs'] exI[of _ fl'] exI[of _ rsz]) (simp add: valid_ivalid)
qed

section \<open>Taking the chosen block\<close>

lemma carve_size_cases:
  assumes W: "32 \<le> W" and f: "fsize < 4294967296" and a: "asize \<le> fsize"
  shows "carve_size W fsize asize = (if fsize - asize < 16 then fsize else asize)"
    and "(fsize + 2 ^ W - asize) mod 2 ^ W = fsize - asize"
proof -
  have 1: "fsize + 2 ^ W - asize = (fsize - asize) + 2 ^ W" using a by linarith
  have 2: "fsize - asize < 4294967296" using f by arith
  have "(fsize - asize + 2 ^ W) mod 2 ^ W = (fsize - asize) mod 2 ^ W" by (rule mod_add_self2)
  also have "\<dots> = fsize - asize" by (rule mod_W[OF 2 W])
  finally show m: "(fsize + 2 ^ W - asize) mod 2 ^ W = fsize - asize" unfolding 1 .
  show "carve_size W fsize asize = (if fsize - asize < 16 then fsize else asize)"
    by (simp add: carve_size_def m)
qed

lemma frame_ok_carve:
  assumes x: "(x, fsize, False) \<in> set F" and a: "16 \<le> asz" "8 dvd asz" "asz \<le> fsize"
    and lt: "fsize < 4294967296" and b: "b \<le> 1" and x4: "4 \<le> x"
  shows "frame_ok s F (set_tags (mem s) x asz b)"
  unfolding frame_ok_def
proof (intro allI impI)
  fix c assume nf: "\<not> in_free F c"
  have alt: "asz < 4294967296" using a lt by simp
  from not_in_free[OF nf x] have o: "c < x - 4 \<or> x + fsize - 4 \<le> c" .
  show "set_tags (mem s) x asz b c = mem s c"
    by (rule set_tags_other[OF a(2) alt b x4 a(1)]) (use o a in arith)+
qed

lemma heap_ok_head_notin:
  assumes ok: "heap_ok s bs fl"
  shows "head s \<notin> fst ` set bs"
proof
  assume "head s \<in> fst ` set bs"
  then obtain sz a where "(head s, sz, a) \<in> set bs" by (rule in_fst_setE)
  from heap_ok_block(1)[OF ok this] show False by simp
qed

lemma hdrs_hdrs_but: "hdrs m bs \<Longrightarrow> hdrs_but x m bs"
  unfolding hdrs_def hdrs_but_def by fast

lemma take_block_ivalid:
  assumes v: "ivalid 0 s (pre @ (x, fsize, False) # post) fl" and W: "32 \<le> W"
    and a: "16 \<le> asize" "8 dvd asize" "asize \<le> fsize"
  shows "ivalid x (take_block W s x asize) (pre @ (x, fsize, True) # post) (remove1 x fl)"
    and "SIZE (mem (take_block W s x asize)) (x - 4) = carve_size W fsize asize"
    and "SIZE (mem (take_block W s x asize)) (x + carve_size W fsize asize - 8) =
           carve_size W fsize asize"
    and "frame_ok s (pre @ (x, fsize, False) # post) (mem (take_block W s x asize))"
    and "head (take_block W s x asize) = head s" "mem_brk (take_block W s x asize) = mem_brk s"
      "mem_max_addr (take_block W s x asize) = mem_max_addr s"
proof -
  let ?F = "pre @ (x, fsize, False) # post" and ?B = "pre @ (x, fsize, True) # post"
  define asz where "asz = carve_size W fsize asize"
  from v have ok: "heap_ok s ?F fl" and fl: "set fl = set (free_blocks ?F)"
    and naf: "no_adjacent_free ?F" and h: "hdrs_but 0 (mem s) ((head s, 16, True) # ?F)"
    and e: "SIZE (mem s) (mem_brk s - 4) = 0"
    by (simp_all add: ivalid_def wvalid_def)
  have xin: "(x, fsize, False) \<in> set ?F" by simp
  note xb = heap_ok_block[OF ok xin]
  have hx: "SIZE (mem s) (HDR x) = fsize" using heap_ok_tags(3)[OF ok xin] by (simp add: HDR_def)
  have asz: "asz = (if fsize - asize < 16 then fsize else asize)"
    unfolding asz_def by (rule carve_size_cases(1)[OF W xb(7) a(3)])
  have az: "16 \<le> asz" "8 dvd asz" "asz = fsize \<or> asz + 16 \<le> fsize" "asz \<le> fsize"
    using a xb(3,4) unfolding asz by auto
  let ?m1 = "set_tags (mem s) x asz 1"
  let ?s1 = "s\<lparr>mem := ?m1\<rparr>"
  have tb: "take_block W s x asize = ?s1\<lparr>mem := unlink (mem ?s1) x\<rparr>"
    by (simp add: take_block_def hx asz_def)
  have sub: "set fl \<subseteq> fst ` set ?F" using fl free_blocks_subset[of ?F] by simp
  note c = heap_ok_carve[OF ok sub az(1,2,3)]
  have ok1: "heap_ok ?s1 ?B fl" by (rule c(1))
  have xfl: "x \<in> set fl" using fl by simp
  have sub1: "set fl - {x} \<subseteq> fst ` set ?B" using sub by auto
  have hn: "head ?s1 \<notin> set fl" using heap_ok_head_notin[OF ok] sub by auto
  have sep: "sep8 (insert (head ?s1) (set fl))"
    by (rule sep8_subset[OF heap_ok_sep8[OF ok]]) (use sub in auto)
  have ok2: "heap_ok (?s1\<lparr>mem := unlink (mem ?s1) x\<rparr>) ?B (remove1 x fl)"
    by (rule heap_ok_unlink[OF ok1 xfl sub1 hn sep])
  from ok have dist: "distinct fl" by (simp add: heap_ok_def)
  have dF: "distinct (map fst ((head s, 16, True) # ?F))"
    by (rule chain_distinct[of "mem s" "head s" _ "mem_brk s"]) (use ok in \<open>simp add: heap_ok_def\<close>)
  have xn: "x \<notin> set (free_blocks (pre @ post))"
    using dF free_blocks_subset[of "pre @ post"] by auto
  have fl2: "set (remove1 x fl) = set (free_blocks ?B)"
    using remove1_set_free[OF dist _ xn] fl by simp
  have naf2: "no_adjacent_free ?B" by (rule naf_free_to_alloc[OF naf])
  have wv2: "wvalid (?s1\<lparr>mem := unlink (mem ?s1) x\<rparr>) ?B (remove1 x fl)"
    unfolding wvalid_def using ok2 fl2 naf2 by simp
  have fr1: "frame_ok s ?F ?m1"
    by (rule frame_ok_carve[OF xin az(1,2,4) xb(7)]) (use xb in simp_all)
  have fr2: "frame_ok ?s1 ?F (unlink (mem ?s1) x)"
  proof (rule frame_ok_unlink[OF heap_ok_dlist[OF ok1] _ _ xfl])
    show "set fl \<subseteq> set (free_blocks ?F)" using fl by simp
    show "16 \<le> sz'" if "(y, sz', al) \<in> set ?F" for y sz' al
      using heap_ok_big[OF ok that] .
  qed
  have fr: "frame_ok s ?F (unlink ?m1 x)"
    using frame_ok_trans[OF fr1 fr2] by simp
  from v have "valid s ?F fl" by (simp add: valid_ivalid)
  then have "hdrs (mem s) ((head s, 16, True) # ?F)" by (simp add: valid_def)
  then have hu: "hdrs_but x (mem s) ((head s, 16, True) # ?F)" by (rule hdrs_hdrs_but)
  have h2: "hdrs_but x (unlink ?m1 x) ((head s, 16, True) # pre @ post)"
    by (rule frame_ok_hdrs[OF ok fr hu]) simp
  have h3: "hdrs_but x (unlink ?m1 x) ((head s, 16, True) # ?B)"
    by (rule hdrs_butI) (use hdrs_butD[OF h2] in auto)
  have e2: "SIZE (unlink ?m1 x) (mem_brk s - 4) = 0"
    using frame_ok_epilogue[OF ok fr] e by simp
  show "ivalid x (take_block W s x asize) ?B (remove1 x fl)"
    unfolding tb ivalid_def using wv2 h3 e2 by simp
  show "frame_ok s ?F (mem (take_block W s x asize))" unfolding tb using fr by simp
  show "head (take_block W s x asize) = head s" "mem_brk (take_block W s x asize) = mem_brk s"
    "mem_max_addr (take_block W s x asize) = mem_max_addr s" unfolding tb by simp_all
  have d1: "dlist ?m1 (head s) fl" using heap_ok_dlist[OF ok1] by simp
  obtain ys zs where spl: "fl = ys @ x # zs" using xfl by (auto simp: in_set_conv_decomp)
  have nb: "ptr_of (GET ?m1 x) = (if ys = [] then head s else last ys)"
    "ptr_of (GET ?m1 (x + 4)) = (case zs of [] \<Rightarrow> 0 | z # _ \<Rightarrow> z)"
    using dll_neighbours[of ?m1 "head s" ys x zs] d1 unfolding dlist_def spl by simp_all
  have pin: "ptr_of (GET ?m1 x) \<in> insert (head s) (set fl) - {x}"
    using nb(1) dist hn unfolding spl by (cases "ys = []") auto
  have sin: "ptr_of (GET ?m1 (x + 4)) = 0 \<or> ptr_of (GET ?m1 (x + 4)) \<in> set fl - {x}"
    using nb(2) dist unfolding spl by (cases zs) auto
  have far: "y + 16 \<le> x \<or> x + fsize \<le> y" if "y \<in> insert (head s) (set fl) - {x}" for y
  proof (cases "y = head s")
    case True then show ?thesis using xb(1) by simp
  next
    case False
    with that sub have yF: "y \<in> fst ` set ?F" "y \<noteq> x" by auto
    then have "y \<in> fst ` set (pre @ post)" by auto
    from heap_ok_other_block[OF ok this] show ?thesis .
  qed
  have keep: "unlink ?m1 x c = ?m1 c" if "x - 4 \<le> c" "c < x + fsize - 4" for c
  proof (rule unlink_other)
    from far[OF pin] that
    show "c < ptr_of (GET ?m1 x) + 4 \<or> ptr_of (GET ?m1 x) + 8 \<le> c" by arith
    from sin show "ptr_of (GET ?m1 (x + 4)) = 0 \<or> c < ptr_of (GET ?m1 (x + 4)) \<or>
      ptr_of (GET ?m1 (x + 4)) + 4 \<le> c"
    proof
      assume "ptr_of (GET ?m1 (x + 4)) = 0" then show ?thesis by simp
    next
      assume "ptr_of (GET ?m1 (x + 4)) \<in> set fl - {x}"
      then have "ptr_of (GET ?m1 (x + 4)) \<in> insert (head s) (set fl) - {x}" by simp
      from far[OF this] that show ?thesis by arith
    qed
  qed
  have "SIZE (unlink ?m1 x) (x - 4) = SIZE ?m1 (x - 4)"
    by (rule SIZE_cong, rule keep) (use xb az in arith)+
  then show "SIZE (mem (take_block W s x asize)) (x - 4) = carve_size W fsize asize"
    unfolding tb using c(2) by (simp add: asz_def)
  have "SIZE (unlink ?m1 x) (x + asz - 8) = SIZE ?m1 (x + asz - 8)"
    by (rule SIZE_cong, rule keep) (use xb az in arith)+
  then show "SIZE (mem (take_block W s x asize)) (x + carve_size W fsize asize - 8) =
           carve_size W fsize asize"
    unfolding tb using c(3) by (simp add: asz_def)
qed

section \<open>Splitting off the rest of the chosen block\<close>

lemma heap_ok_sep:
  assumes ok: "heap_ok s bs fl" and x: "(x, sz, a) \<in> set bs"
    and y: "(y, sz', a') \<in> set ((head s, 16, True) # bs)"
  shows "(x, sz, a) = (y, sz', a') \<or> x + sz \<le> y \<or> y + sz' \<le> x"
proof -
  from ok have c: "chain (mem s) (head s) ((head s, 16, True) # bs) (mem_brk s)"
    by (simp add: heap_ok_def)
  have "(x, sz, a) \<in> set ((head s, 16, True) # bs)" using x by simp
  from chain_sep[OF c this y] show ?thesis .
qed

lemma heap_ok_inj:
  assumes ok: "heap_ok s bs fl" and x: "(x, sz, a) \<in> set bs" and y: "(x, sz', a') \<in> set bs"
  shows "sz = sz' \<and> a = a'"
proof -
  from ok have c: "chain (mem s) (head s) ((head s, 16, True) # bs) (mem_brk s)"
    by (simp add: heap_ok_def)
  have "(x, sz, a) \<in> set ((head s, 16, True) # bs)" "(x, sz', a') \<in> set ((head s, 16, True) # bs)"
    using x y by simp_all
  from chain_addr_inj[OF c this] show ?thesis .
qed

lemma ivalid_full:
  assumes iv: "ivalid x s bs fl" and x: "(x, sz, True) \<in> set bs" and hx: "SIZE (mem s) (x - 4) = sz"
  shows "valid s bs fl"
proof -
  from iv have ok: "heap_ok s bs fl" and h: "hdrs_but x (mem s) ((head s, 16, True) # bs)"
    by (simp_all add: ivalid_def wvalid_def)
  have "hdrs_but 0 (mem s) ((head s, 16, True) # bs)"
  proof (rule hdrs_butI)
    fix y ysz assume y: "(y, ysz, True) \<in> set ((head s, 16, True) # bs)" and "y \<noteq> 0"
    show "SIZE (mem s) (y - 4) = ysz"
    proof (cases "y = x")
      case False from hdrs_butD[OF h y False] show ?thesis .
    next
      case True
      have "x \<noteq> head s" using heap_ok_block(1)[OF ok x] by simp
      with y True have "(x, ysz, True) \<in> set bs" by simp
      from heap_ok_inj[OF ok x this] hx True show ?thesis by simp
    qed
  qed
  with iv show ?thesis by (simp add: valid_ivalid ivalid_def)
qed

lemma naf_split:
  "no_adjacent_free (pre @ (x, fsize, True) # post) \<Longrightarrow>
     no_adjacent_free ((pre @ [(x, asz, True)]) @ (y, r, True) # post)"
  by (cases post; cases pre rule: rev_cases) (auto simp: naf_append naf_Cons)

lemma split_rest_valid:
  assumes iv: "ivalid x s (pre @ (x, fsize, True) # post) fl"
    and hx: "SIZE (mem s) (x - 4) = asz" and inner: "SIZE (mem s) (x + asz - 8) = asz"
    and a: "16 \<le> asz" "8 dvd asz" "asz = fsize \<or> asz + 16 \<le> fsize" and W: "32 \<le> W"
  shows "\<exists>bs' fl'. valid (split_rest W s x asz fsize) bs' fl' \<and>
           used bs' = used (pre @ (x, asz, True) # post) \<and>
           same_used (pre @ (x, asz, True) # post) (mem s) (mem (split_rest W s x asz fsize)) \<and>
           head (split_rest W s x asz fsize) = head s \<and>
           mem_brk (split_rest W s x asz fsize) = mem_brk s \<and>
           mem_max_addr (split_rest W s x asz fsize) = mem_max_addr s"
proof (cases "asz = fsize")
  case True
  have e: "split_rest W s x asz fsize = s" using True by (simp add: split_rest_def)
  have "valid s (pre @ (x, fsize, True) # post) fl"
    by (rule ivalid_full[OF iv]) (use hx True in simp_all)
  then show ?thesis unfolding e using True same_used_refl by blast
next
  case False
  with a have lt: "asz + 16 \<le> fsize" by simp
  let ?B = "pre @ (x, fsize, True) # post" and ?r = "fsize - asz" and ?y = "x + asz"
  let ?F = "(pre @ [(x, asz, True)]) @ (?y, ?r, False) # post"
  let ?s4 = "s\<lparr>mem := set_tags (mem s) ?y ?r 0\<rparr>"
  from iv have ok: "heap_ok s ?B fl" and fl: "set fl = set (free_blocks ?B)"
    and naf: "no_adjacent_free ?B" and h: "hdrs_but x (mem s) ((head s, 16, True) # ?B)"
    and e: "SIZE (mem s) (mem_brk s - 4) = 0"
    by (simp_all add: ivalid_def wvalid_def)
  have xin: "(x, fsize, True) \<in> set ?B" by simp
  note xb = heap_ok_block[OF ok xin]
  have nx: "NEXT (mem s) x = ?y" using hx by (simp add: NEXT_def)
  have md: "(fsize + 2 ^ W - asz) mod 2 ^ W = ?r"
    by (rule carve_size_cases(2)[OF W xb(7)]) (use lt in simp)
  have sr: "split_rest W s x asz fsize = snd (coalesce W ?s4 ?y)"
    using lt by (simp add: split_rest_def nx md)
  have sub: "set fl \<subseteq> fst ` set (pre @ post)"
    using fl free_blocks_subset[of "pre @ post"] by simp
  have ok4': "heap_ok ?s4 (pre @ (x, asz, True) # (?y, ?r, False) # post) fl"
    by (rule heap_ok_split[OF ok sub a(1,2) lt inner])
  then have ok4: "heap_ok ?s4 ?F fl" by simp
  have pc: "pre_coalesce ?s4 (pre @ [(x, asz, True)]) ?y ?r post fl"
    unfolding pre_coalesce_def using ok4 fl naf_split[OF naf] by simp
  have r: "16 \<le> ?r" "8 dvd ?r" "?r < 4294967296"
    using a lt xb by simp_all
  have y4: "4 \<le> ?y" using xb by simp
  have other: "set_tags (mem s) ?y ?r 0 c = mem s c"
    if "c < x + asz - 4 \<or> x + fsize - 4 \<le> c" for c
    by (rule set_tags_other[OF r(2) r(3) _ y4 r(1)]) (use that lt in arith)+
  have yin: "(?y, ?r, False) \<in> set ?F" by simp
  have away: "y + ysz \<le> x + asz \<or> x + fsize \<le> y"
    if "(y, ysz, True) \<in> set ((head s, 16, True) # pre @ (x, asz, True) # post)" for y ysz
  proof -
    have "(y, ysz, True) \<in> set ((head ?s4, 16, True) # ?F)" using that by auto
    from heap_ok_sep[OF ok4 yin this] lt show ?thesis by auto
  qed
  have hdr_s: "SIZE (mem s) (y - 4) = ysz"
    if y: "(y, ysz, True) \<in> set ((head s, 16, True) # pre @ (x, asz, True) # post)" for y ysz
  proof (cases "y = x")
    case True
    have "x \<noteq> head s" using xb(1) by simp
    with y True have "(x, ysz, True) \<in> set ?F" by auto
    moreover have "(x, asz, True) \<in> set ?F" by simp
    ultimately have "ysz = asz" using heap_ok_inj[OF ok4] by blast
    with hx True show ?thesis by simp
  next
    case False
    with y have "(y, ysz, True) \<in> set ((head s, 16, True) # ?B)" by auto
    from hdrs_butD[OF h this False] show ?thesis .
  qed
  have big: "16 \<le> ysz"
    if y: "(y, ysz, True) \<in> set ((head s, 16, True) # pre @ (x, asz, True) # post)" for y ysz
  proof (cases "(y, ysz, True) = (head s, 16, True)")
    case True then show ?thesis by simp
  next
    case False
    with y have "(y, ysz, True) \<in> set ?F" by auto
    from heap_ok_big[OF ok4 this] show ?thesis .
  qed
  have h4: "hdrs_but 0 (mem ?s4) ((head ?s4, 16, True) # (pre @ [(x, asz, True)]) @ post)"
  proof (rule hdrs_butI)
    fix y ysz
    assume "(y, ysz, True) \<in> set ((head ?s4, 16, True) # (pre @ [(x, asz, True)]) @ post)"
    then have y: "(y, ysz, True) \<in> set ((head s, 16, True) # pre @ (x, asz, True) # post)"
      by auto
    have "SIZE (set_tags (mem s) ?y ?r 0) (y - 4) = SIZE (mem s) (y - 4)"
      by (rule SIZE_cong, rule other) (use away[OF y] big[OF y] in arith)
    with hdr_s[OF y] show "SIZE (mem ?s4) (y - 4) = ysz" by simp
  qed
  have e4: "SIZE (mem ?s4) (mem_brk ?s4 - 4) = 0"
  proof -
    have "SIZE (set_tags (mem s) ?y ?r 0) (mem_brk s - 4) = SIZE (mem s) (mem_brk s - 4)"
      by (rule SIZE_cong, rule other) (use xb(2) in arith)
    with e show ?thesis by simp
  qed
  from coalesce_ivalid[OF pc W h4 e4] obtain bs' fl' where
    iv': "ivalid 0 (snd (coalesce W ?s4 ?y)) bs' fl'"
    and fr: "frame_ok ?s4 ?F (mem (snd (coalesce W ?s4 ?y)))"
    and u: "used bs' = used ((pre @ [(x, asz, True)]) @ post)"
    and f: "head (snd (coalesce W ?s4 ?y)) = head ?s4"
      "mem_brk (snd (coalesce W ?s4 ?y)) = mem_brk ?s4"
      "mem_max_addr (snd (coalesce W ?s4 ?y)) = mem_max_addr ?s4"
    by blast
  have su: "same_used (pre @ (x, asz, True) # post) (mem s) (mem (snd (coalesce W ?s4 ?y)))"
  proof (rule same_usedI)
    fix y ysz c
    assume y: "(y, ysz, True) \<in> set (pre @ (x, asz, True) # post)"
      and c: "y - 4 \<le> c" "c < y + ysz - 4"
    have yF: "(y, ysz, True) \<in> set ?F" using y by auto
    have y': "(y, ysz, True) \<in> set ((head s, 16, True) # pre @ (x, asz, True) # post)"
      using y by simp
    have "mem (snd (coalesce W ?s4 ?y)) c = mem ?s4 c"
      by (rule frame_ok_alloc[OF ok4 fr yF c])
    moreover have "set_tags (mem s) ?y ?r 0 c = mem s c"
      by (rule other) (use away[OF y'] c in arith)
    ultimately show "mem (snd (coalesce W ?s4 ?y)) c = mem s c" by simp
  qed
  show ?thesis
    unfolding sr using iv' u f su
    by (intro exI[of _ bs'] exI[of _ fl']) (simp add: valid_ivalid)
qed

section \<open>Placing a request in a free block (mm_malloc)\<close>

lemma place_malloc_valid:
  assumes v: "valid s (pre @ (x, fsize, False) # post) fl" and W: "32 \<le> W"
    and a: "16 \<le> asize" "8 dvd asize" "asize \<le> fsize"
  shows "\<exists>s' bs' fl' asz. place_malloc W s x asize = Some (Returns (x, s')) \<and> valid s' bs' fl' \<and>
           asize \<le> asz \<and> used bs' = used (pre @ (x, asz, True) # post) \<and>
           same_used (pre @ post) (mem s) (mem s') \<and>
           head s' = head s \<and> mem_brk s' = mem_brk s \<and> mem_max_addr s' = mem_max_addr s"
proof -
  let ?F = "pre @ (x, fsize, False) # post"
  define asz where "asz = carve_size W fsize asize"
  let ?s2 = "take_block W s x asize"
  from v have iv: "ivalid 0 s ?F fl" by (simp add: valid_ivalid)
  from iv have ok: "heap_ok s ?F fl" by (simp add: ivalid_def wvalid_def)
  have xin: "(x, fsize, False) \<in> set ?F" by simp
  note xb = heap_ok_block[OF ok xin]
  have hx: "SIZE (mem s) (HDR x) = fsize" using heap_ok_tags(3)[OF ok xin] by (simp add: HDR_def)
  have asz: "asz = (if fsize - asize < 16 then fsize else asize)"
    unfolding asz_def by (rule carve_size_cases(1)[OF W xb(7) a(3)])
  have az: "16 \<le> asz" "8 dvd asz" "asz = fsize \<or> asz + 16 \<le> fsize" "asize \<le> asz"
    using a xb(3,4) unfolding asz by auto
  note tb = take_block_ivalid[OF iv W a, folded asz_def]
  from split_rest_valid[OF tb(1) tb(2) tb(3) az(1,2,3) W] obtain bs' fl' where
    v': "valid (split_rest W ?s2 x asz fsize) bs' fl'"
    and u: "used bs' = used (pre @ (x, asz, True) # post)"
    and su: "same_used (pre @ (x, asz, True) # post) (mem ?s2) (mem (split_rest W ?s2 x asz fsize))"
    and f: "head (split_rest W ?s2 x asz fsize) = head ?s2"
      "mem_brk (split_rest W ?s2 x asz fsize) = mem_brk ?s2"
      "mem_max_addr (split_rest W ?s2 x asz fsize) = mem_max_addr ?s2"
    by blast
  have su1: "same_used ?F (mem s) (mem ?s2)" by (rule frame_ok_same_used[OF ok tb(4)])
  have su2: "same_used (pre @ post) (mem s) (mem (split_rest W ?s2 x asz fsize))"
    by (rule same_used_trans[OF su1 su]) auto
  have pm: "place_malloc W s x asize = Some (Returns (x, split_rest W ?s2 x asz fsize))"
    by (simp add: place_malloc_steps hx asz_def)
  show ?thesis
    unfolding pm using v' u su2 f tb(5,6,7) az(4)
    by (intro exI[of _ "split_rest W ?s2 x asz fsize"] exI[of _ bs'] exI[of _ fl'] exI[of _ asz])
      simp
qed

section \<open>The first-fit search on a valid heap\<close>

lemma valid_first_fit:
  assumes v: "valid s bs fl"
  shows "first_fit (mem s) asize (ptr_of (GET (mem s) (SUCC (head s)))) =
           Some (case find (\<lambda>x. asize \<le> SIZE (mem s) (HDR x)) fl of None \<Rightarrow> 0 | Some x \<Rightarrow> x)"
proof -
  from v have "dll (mem s) (head s) fl (ptr_of (GET (mem s) (head s + 4)))"
    by (simp add: valid_def heap_ok_def dlist_def)
  from first_fit_dll[OF this] show ?thesis by (simp add: SUCC_def)
qed

lemma valid_found:
  assumes v: "valid s bs fl" and f: "find (\<lambda>x. asize \<le> SIZE (mem s) (HDR x)) fl = Some x"
  obtains pre fsize post where "bs = pre @ (x, fsize, False) # post" "asize \<le> fsize" "x \<noteq> 0"
    "SIZE (mem s) (HDR x) = fsize"
proof -
  from f have xfl: "x \<in> set fl" and sz: "asize \<le> SIZE (mem s) (HDR x)"
    by (auto simp: find_Some_iff)
  from v have ok: "heap_ok s bs fl" and fl: "set fl = set (free_blocks bs)"
    by (simp_all add: valid_def)
  from xfl fl obtain fsize where xin: "(x, fsize, False) \<in> set bs"
    by (auto simp: free_blocks_iff)
  then obtain pre post where bs: "bs = pre @ (x, fsize, False) # post"
    by (auto simp: in_set_conv_decomp)
  have hx: "SIZE (mem s) (HDR x) = fsize" using heap_ok_tags(3)[OF ok xin] by (simp add: HDR_def)
  show thesis
    by (rule that[OF bs _ heap_ok_block(8)[OF ok xin] hx]) (use sz hx in simp)
qed

section \<open>mm_malloc keeps the invariant\<close>

lemma same_used_used: "same_used (used bs) m m' \<Longrightarrow> same_used bs m m'"
  by (rule same_usedI) (auto dest: same_usedD simp: used_iff)

lemma used_eq_mem: "used bs1 = used bs \<Longrightarrow> (y, ysz, True) \<in> set bs \<Longrightarrow> (y, ysz, True) \<in> set bs1"
  using used_iff[of y ysz True bs] used_iff[of y ysz True bs1] by simp

lemma mm_malloc_valid:
  assumes v: "valid s bs fl" and W: "32 \<le> W" and n: "0 < n" "n + 16 \<le> 2 ^ W"
  shows "(mm_malloc W s n = Some Fault \<and>
            find (\<lambda>x. asize_of W n \<le> SIZE (mem s) (HDR x)) fl = None \<and>
            mem_max_addr s < mem_brk s + (if asize_of W n > 4096 then asize_of W n else 4096)) \<or>
         (\<exists>r s' bs' fl' rsz. mm_malloc W s n = Some (Returns (r, s')) \<and> r \<noteq> 0 \<and>
            valid s' bs' fl' \<and>
            head s' = head s \<and> mem_max_addr s' = mem_max_addr s \<and> mem_brk s \<le> mem_brk s' \<and>
            same_used bs (mem s) (mem s') \<and>
            n + 8 \<le> rsz \<and> (r, rsz, True) \<in> set bs' \<and>
            set (used bs') = insert (r, rsz, True) (set (used bs)))"
proof -
  define asize where "asize = asize_of W n"
  note ab = asize_of_bounds[OF W n(2), folded asize_def]
  let ?ff = "find (\<lambda>x. asize \<le> SIZE (mem s) (HDR x)) fl"
  note ff = valid_first_fit[OF v, of asize]
  have st: "mm_malloc W s n =
      (case (if (case ?ff of None \<Rightarrow> 0 | Some x \<Rightarrow> x) = 0 then extend_heap W s asize
             else Some (case ?ff of None \<Rightarrow> 0 | Some x \<Rightarrow> x, s)) of
         None \<Rightarrow> Some Fault
       | Some (newptr, s1) \<Rightarrow> place_malloc W s1 newptr asize)"
    using n(1) unfolding mm_malloc_stages asize_def[symmetric] ff by simp
  have place: "\<exists>r s' bs' fl' rsz. place_malloc W s1 x asize = Some (Returns (r, s')) \<and> r \<noteq> 0 \<and>
           valid s' bs' fl' \<and>
           head s' = head s1 \<and> mem_max_addr s' = mem_max_addr s1 \<and> mem_brk s1 = mem_brk s' \<and>
           same_used (used bs1) (mem s1) (mem s') \<and>
           n + 8 \<le> rsz \<and> (r, rsz, True) \<in> set bs' \<and>
           set (used bs') = insert (r, rsz, True) (set (used bs1))"
    if v1: "valid s1 bs1 fl1" and xin: "(x, fsize, False) \<in> set bs1" and le: "asize \<le> fsize"
    for s1 bs1 fl1 x fsize
  proof -
    from xin obtain pre post where bs1: "bs1 = pre @ (x, fsize, False) # post"
      by (auto simp: in_set_conv_decomp)
    from v1 have ok1: "heap_ok s1 bs1 fl1" by (simp add: valid_def)
    have x0: "x \<noteq> 0" by (rule heap_ok_block(8)[OF ok1 xin])
    from place_malloc_valid[OF v1[unfolded bs1] W ab(1,2) le] obtain s' bs' fl' asz where
      p: "place_malloc W s1 x asize = Some (Returns (x, s'))" "valid s' bs' fl'" "asize \<le> asz"
        "used bs' = used (pre @ (x, asz, True) # post)"
        "same_used (pre @ post) (mem s1) (mem s')"
        "head s' = head s1" "mem_brk s' = mem_brk s1" "mem_max_addr s' = mem_max_addr s1"
      by blast
    have u1: "used bs1 = used (pre @ post)" by (simp add: bs1)
    have xu: "(x, asz, True) \<in> set (used bs')" unfolding p(4) by simp
    then have xb': "(x, asz, True) \<in> set bs'" by (simp add: used_iff)
    have su: "same_used (used bs1) (mem s1) (mem s')"
      by (rule same_usedI) (use same_usedD[OF p(5)] in \<open>auto simp: u1 used_iff\<close>)
    have us: "set (used bs') = insert (x, asz, True) (set (used bs1))"
      unfolding p(4) u1 by auto
    have sz: "n + 8 \<le> asz" using ab(3) p(3) by simp
    from p(1,2,6,7,8) x0 su sz xb' us show ?thesis
      by (intro exI[of _ x] exI[of _ s'] exI[of _ bs'] exI[of _ fl'] exI[of _ asz]) simp
  qed
  show ?thesis
  proof (cases ?ff)
    case (Some x)
    from valid_found[OF v Some] obtain pre fsize post where
      b: "bs = pre @ (x, fsize, False) # post" "asize \<le> fsize" "x \<noteq> 0" by blast
    have e: "mm_malloc W s n = place_malloc W s x asize"
      unfolding st using Some b(3) by simp
    have xin: "(x, fsize, False) \<in> set bs" using b(1) by simp
    from place[OF v xin b(2)] obtain r s' bs' fl' rsz where
      p: "place_malloc W s x asize = Some (Returns (r, s'))" "r \<noteq> 0" "valid s' bs' fl'"
        "head s' = head s" "mem_max_addr s' = mem_max_addr s" "mem_brk s = mem_brk s'"
        "same_used (used bs) (mem s) (mem s')"
        "n + 8 \<le> rsz" "(r, rsz, True) \<in> set bs'"
        "set (used bs') = insert (r, rsz, True) (set (used bs))"
      by blast
    have "\<exists>r s' bs' fl' rsz. mm_malloc W s n = Some (Returns (r, s')) \<and> r \<noteq> 0 \<and>
            valid s' bs' fl' \<and>
            head s' = head s \<and> mem_max_addr s' = mem_max_addr s \<and> mem_brk s \<le> mem_brk s' \<and>
            same_used bs (mem s) (mem s') \<and>
            n + 8 \<le> rsz \<and> (r, rsz, True) \<in> set bs' \<and>
            set (used bs') = insert (r, rsz, True) (set (used bs))"
      unfolding e using p same_used_used[OF p(7)]
      by (intro exI[of _ r] exI[of _ s'] exI[of _ bs'] exI[of _ fl'] exI[of _ rsz]) simp
    then show ?thesis ..
  next
    case None
    have e: "mm_malloc W s n =
      (case extend_heap W s asize of None \<Rightarrow> Some Fault
       | Some (newptr, s1) \<Rightarrow> place_malloc W s1 newptr asize)"
      unfolding st using None by simp
    show ?thesis
    proof (cases "mem_brk s + (if asize > 4096 then asize else 4096) \<le> mem_max_addr s")
      case False
      then have "mem_sbrk s (if asize > CHUNKSIZE then asize else CHUNKSIZE) = None"
        by (simp add: mem_sbrk_none split: if_splits)
      from extend_heap_none[OF this] have "mm_malloc W s n = Some Fault"
        unfolding e by simp
      with None False show ?thesis unfolding asize_def by simp
    next
      case True
      from extend_heap_valid[OF v W ab(1,2) True] obtain x s1 bs1 fl1 fsz where
        x: "extend_heap W s asize = Some (x, s1)" "valid s1 bs1 fl1"
          "(x, fsz, False) \<in> set bs1" "asize \<le> fsz" "used bs1 = used bs"
          "same_used bs (mem s) (mem s1)" "head s1 = head s" "mem_max_addr s1 = mem_max_addr s"
          "mem_brk s1 = mem_brk s + (if asize > 4096 then asize else 4096)"
        by blast
      from place[OF x(2,3,4)] obtain r s' bs' fl' rsz where
        p: "place_malloc W s1 x asize = Some (Returns (r, s'))" "r \<noteq> 0" "valid s' bs' fl'"
          "head s' = head s1" "mem_max_addr s' = mem_max_addr s1" "mem_brk s1 = mem_brk s'"
          "same_used (used bs1) (mem s1) (mem s')"
          "n + 8 \<le> rsz" "(r, rsz, True) \<in> set bs'"
          "set (used bs') = insert (r, rsz, True) (set (used bs1))"
        by blast
      have su: "same_used bs (mem s) (mem s')"
        by (rule same_used_trans[OF x(6) same_used_used[OF p(7)]]) (simp add: used_eq_mem[OF x(5)])
      have br: "mem_brk s \<le> mem_brk s'" using x(9) p(6) by simp
      have "\<exists>r s' bs' fl' rsz. mm_malloc W s n = Some (Returns (r, s')) \<and> r \<noteq> 0 \<and>
            valid s' bs' fl' \<and>
            head s' = head s \<and> mem_max_addr s' = mem_max_addr s \<and> mem_brk s \<le> mem_brk s' \<and>
            same_used bs (mem s) (mem s') \<and>
            n + 8 \<le> rsz \<and> (r, rsz, True) \<in> set bs' \<and>
            set (used bs') = insert (r, rsz, True) (set (used bs))"
        unfolding e using p(1,2,3,4,5,8,9,10) su br x(1,5,7,8)
        by (intro exI[of _ r] exI[of _ s'] exI[of _ bs'] exI[of _ fl'] exI[of _ rsz]) simp
      then show ?thesis ..
    qed
  qed
qed

section \<open>Copying into the new block and releasing the old one (mm_realloc)\<close>

lemma release_keeps:
  assumes wv: "wvalid s (pre @ (p, sz, True) # post) fl"
    and fr: "frame_ok s (pre @ (p, sz, False) # post) m'"
    and y: "(y, ysz, True) \<in> set (pre @ post)" and a: "y - 4 \<le> a" "a < y + ysz - 4"
  shows "m' a = mem s a"
proof -
  let ?F = "pre @ (p, sz, False) # post"
  let ?s1 = "s\<lparr>mem := set_tags (mem s) p sz 0\<rparr>"
  from pre_coalesce_facts(1)[OF release_pre(1)[OF wv]] have ok1: "heap_ok ?s1 ?F fl" .
  have yF: "(y, ysz, True) \<in> set ?F" using y by auto
  from alloc_not_in_free[OF ok1 yF a] have "\<not> in_free ?F a" "a < head s \<or> head s + 8 \<le> a"
    by simp_all
  with fr show ?thesis unfolding frame_ok_def by blast
qed

lemma min_size_mod:
  assumes W: "32 \<le> W" and s: "8 \<le> small" "small < 4294967296"
  shows "(small + 2 ^ W - DWSIZE) mod 2 ^ W = small - 8"
  using carve_size_cases(2)[OF W s(2) s(1)] by simp

lemma move_old_ivalid:
  assumes iv: "ivalid x s bs fl" and xin: "(x, fsize, True) \<in> set bs"
    and pin: "(ptr, osz, True) \<in> set bs" and ne: "ptr \<noteq> x"
    and hx: "SIZE (mem s) (x - 4) = asz" and inner: "SIZE (mem s) (x + asz - 8) = asz"
    and a: "16 \<le> asz" "asz \<le> fsize" and W: "32 \<le> W"
  shows "\<exists>bs' fl'. ivalid x (move_old W s x ptr osz asz) bs' fl' \<and>
           set (used bs') = set (used bs) - {(ptr, osz, True)} \<and>
           SIZE (mem (move_old W s x ptr osz asz)) (x - 4) = asz \<and>
           SIZE (mem (move_old W s x ptr osz asz)) (x + asz - 8) = asz \<and>
           (\<forall>i < min osz asz - 8. mem (move_old W s x ptr osz asz) (x + i) = mem s (ptr + i)) \<and>
           (\<forall>y ysz c. (y, ysz, True) \<in> set bs \<longrightarrow> y \<noteq> ptr \<longrightarrow> y \<noteq> x \<longrightarrow>
               y - 4 \<le> c \<longrightarrow> c < y + ysz - 4 \<longrightarrow> mem (move_old W s x ptr osz asz) c = mem s c) \<and>
           head (move_old W s x ptr osz asz) = head s \<and>
           mem_brk (move_old W s x ptr osz asz) = mem_brk s \<and>
           mem_max_addr (move_old W s x ptr osz asz) = mem_max_addr s"
proof -
  define small where "small = (if osz < asz then osz else asz)"
  define k where "k = small - 8"
  let ?m1 = "memcpy (mem s) x ptr k"
  let ?sm = "s\<lparr>mem := ?m1\<rparr>"
  let ?s' = "snd (coalesce W (?sm\<lparr>mem := set_tags (mem ?sm) ptr osz 0\<rparr>) ptr)"
  from iv have ok: "heap_ok s bs fl" and fl: "set fl = set (free_blocks bs)"
    and naf: "no_adjacent_free bs" and h: "hdrs_but x (mem s) ((head s, 16, True) # bs)"
    and e: "SIZE (mem s) (mem_brk s - 4) = 0"
    by (simp_all add: ivalid_def wvalid_def)
  note xb = heap_ok_block[OF ok xin] and pb = heap_ok_block[OF ok pin]
  have sm: "small = min osz asz" "8 \<le> small" "small < 4294967296" "small \<le> asz"
    using a pb(3,7) by (auto simp: small_def)
  have kk: "(small + 2 ^ W - 8) mod 2 ^ W = k"
    unfolding k_def using min_size_mod[OF W sm(2,3)] by simp
  have kle: "x + k \<le> x + fsize - 8" using sm a by (simp add: k_def)
  have p0: "ptr \<noteq> 0" by (rule pb(8))
  have mo: "move_old W s x ptr osz asz = ?s'"
    using p0 by (simp add: move_old_def small_def[symmetric] kk Let_def)
  have out: "?m1 c = mem s c" if "c < x \<or> x + k \<le> c" for c
    using that by (auto simp: memcpy_def)
  have cp: "?m1 (x + i) = mem s (ptr + i)" if "i < k" for i
    using that by (simp add: memcpy_def)
  have okm: "heap_ok ?sm bs fl"
  proof (rule heap_ok_payload[OF ok xin])
    show "set fl \<subseteq> set (free_blocks bs)" using fl by simp
    show "?m1 c = mem s c" if "c < x \<or> x + fsize - 8 \<le> c" for c
      by (rule out) (use that kle in arith)
  qed
  have away: "y + ysz \<le> x \<or> x + fsize \<le> y"
    if "(y, ysz, True) \<in> set ((head s, 16, True) # bs)" "y \<noteq> x" for y ysz
    using heap_ok_sep[OF ok xin that(1)] that(2) by auto
  have big: "16 \<le> ysz" if y: "(y, ysz, True) \<in> set ((head s, 16, True) # bs)" for y ysz
  proof (cases "(y, ysz, True) = (head s, 16, True)")
    case True then show ?thesis by simp
  next
    case False
    with y have "(y, ysz, True) \<in> set bs" by auto
    from heap_ok_big[OF ok this] show ?thesis .
  qed
  have hm: "hdrs_but x ?m1 ((head s, 16, True) # bs)"
  proof (rule hdrs_butI)
    fix y ysz assume y: "(y, ysz, True) \<in> set ((head s, 16, True) # bs)" and yx: "y \<noteq> x"
    have "SIZE ?m1 (y - 4) = SIZE (mem s) (y - 4)"
      by (rule SIZE_cong, rule out) (use away[OF y yx] big[OF y] kle in arith)
    with hdrs_butD[OF h y yx] show "SIZE ?m1 (y - 4) = ysz" by simp
  qed
  have em: "SIZE ?m1 (mem_brk s - 4) = 0"
  proof -
    have "SIZE ?m1 (mem_brk s - 4) = SIZE (mem s) (mem_brk s - 4)"
      by (rule SIZE_cong, rule out) (use xb(2) kle in arith)
    with e show ?thesis by simp
  qed
  have ivm: "ivalid x ?sm bs fl"
    unfolding ivalid_def wvalid_def using okm fl naf hm em by simp
  from pin obtain pre post where bs: "bs = pre @ (ptr, osz, True) # post"
    by (auto simp: in_set_conv_decomp)
  from ivm have wvm: "wvalid ?sm (pre @ (ptr, osz, True) # post) fl"
    by (simp add: ivalid_def bs)
  from release_ivalid[OF ivm[unfolded bs] W] obtain bs' fl' where
    iv': "ivalid x ?s' bs' fl'"
    and fr: "frame_ok ?sm (pre @ (ptr, osz, False) # post) (mem ?s')"
    and u: "used bs' = used (pre @ post)"
    and f: "head ?s' = head ?sm" "mem_brk ?s' = mem_brk ?sm" "mem_max_addr ?s' = mem_max_addr ?sm"
    by blast
  have dB: "distinct (map fst ((head s, 16, True) # bs))"
    by (rule chain_distinct[of "mem s" "head s" _ "mem_brk s"]) (use ok in \<open>simp add: heap_ok_def\<close>)
  have pn: "(ptr, osz, True) \<notin> set (pre @ post)"
    using dB unfolding bs by (auto dest: fst_in_set)
  have us: "set (used bs') = set (used bs) - {(ptr, osz, True)}"
    unfolding u bs using pn by (auto simp: used_iff)
  have keep1: "mem ?s' c = ?m1 c"
    if "(y, ysz, True) \<in> set bs" "y \<noteq> ptr" "y - 4 \<le> c" "c < y + ysz - 4" for y ysz c
  proof -
    have "(y, ysz, True) \<in> set (pre @ post)" using that(1,2) unfolding bs by auto
    from release_keeps[OF wvm fr this that(3,4)] show ?thesis by simp
  qed
  have xp: "x \<noteq> ptr" using ne by simp
  have 1: "SIZE (mem ?s') (x - 4) = asz"
  proof -
    have "SIZE (mem ?s') (x - 4) = SIZE ?m1 (x - 4)"
      by (rule SIZE_cong, rule keep1[OF xin xp]) (use xb in arith)+
    also have "\<dots> = SIZE (mem s) (x - 4)"
      by (rule SIZE_cong, rule out) (use xb in arith)
    finally show ?thesis using hx by simp
  qed
  have 2: "SIZE (mem ?s') (x + asz - 8) = asz"
  proof -
    have "SIZE (mem ?s') (x + asz - 8) = SIZE ?m1 (x + asz - 8)"
      by (rule SIZE_cong, rule keep1[OF xin xp]) (use xb a in arith)+
    also have "\<dots> = SIZE (mem s) (x + asz - 8)"
      by (rule SIZE_cong, rule out) (use sm(2,4) a in \<open>unfold k_def, arith\<close>)
    finally show ?thesis using inner by simp
  qed
  have 3: "mem ?s' (x + i) = mem s (ptr + i)" if "i < min osz asz - 8" for i
  proof -
    have ik: "i < k" using that sm(1) by (simp add: k_def)
    have "mem ?s' (x + i) = ?m1 (x + i)"
      by (rule keep1[OF xin xp]) (use ik kle xb in arith)+
    with cp[OF ik] show ?thesis by simp
  qed
  have 4: "mem ?s' c = mem s c"
    if y: "(y, ysz, True) \<in> set bs" "y \<noteq> ptr" "y \<noteq> x" and c: "y - 4 \<le> c" "c < y + ysz - 4"
    for y ysz c
  proof -
    have y': "(y, ysz, True) \<in> set ((head s, 16, True) # bs)" using y(1) by simp
    have "?m1 c = mem s c"
      by (rule out) (use away[OF y' y(3)] c kle big[OF y'] in arith)
    with keep1[OF y(1,2) c] show ?thesis by simp
  qed
  show ?thesis
    unfolding mo using iv' us 1 2 3 4 f
    by (intro exI[of _ bs'] exI[of _ fl']) simp
qed

section \<open>Placing a request in a free block (mm_realloc)\<close>

lemma heap_ok_distinct:
  assumes ok: "heap_ok s (pre @ (x, sz, a) # post) fl"
  shows "x \<notin> fst ` set (pre @ post)"
proof -
  from ok have c: "chain (mem s) (head s) ((head s, 16, True) # pre @ (x, sz, a) # post) (mem_brk s)"
    by (simp add: heap_ok_def)
  have "distinct (map fst (pre @ (x, sz, a) # post))" using chain_distinct[OF c] by simp
  then have "x \<notin> set (map fst pre)" "x \<notin> set (map fst post)" by simp_all
  then show ?thesis by (simp add: image_Un)
qed

lemma set_swap:
  assumes "U3 = insert X A3" "X \<notin> A3" "UB = insert X A" "X \<notin> A" "U3 = UB - {P}" "P \<noteq> X"
  shows "A3 = A - {P}"
proof -
  from assms(1,3,5) have e: "insert X A3 = insert X A - {P}" by simp
  show ?thesis
  proof (rule set_eqI)
    fix y
    from e have "y \<in> insert X A3 \<longleftrightarrow> y \<in> insert X A - {P}" by simp
    with assms(2,4,6) show "y \<in> A3 \<longleftrightarrow> y \<in> A - {P}" by (cases "y = X") auto
  qed
qed

lemma place_realloc_valid:
  assumes v: "valid s (pre @ (x, fsize, False) # post) fl" and W: "32 \<le> W"
    and a: "16 \<le> asize" "8 dvd asize" "asize \<le> fsize"
    and pin: "(ptr, osz, True) \<in> set (pre @ post)"
  shows "\<exists>s' bs' fl' asz. place_realloc W s ptr osz x asize = Some (Returns (x, s')) \<and> valid s' bs' fl' \<and>
           asize \<le> asz \<and> (x, asz, True) \<in> set bs' \<and>
           set (used bs') = insert (x, asz, True) (set (used (pre @ post)) - {(ptr, osz, True)}) \<and>
           (\<forall>i < min osz asz - 8. mem s' (x + i) = mem s (ptr + i)) \<and>
           (\<forall>y ysz c. (y, ysz, True) \<in> set (pre @ post) \<longrightarrow> y \<noteq> ptr \<longrightarrow>
               y - 4 \<le> c \<longrightarrow> c < y + ysz - 4 \<longrightarrow> mem s' c = mem s c) \<and>
           head s' = head s \<and> mem_brk s' = mem_brk s \<and> mem_max_addr s' = mem_max_addr s"
proof -
  let ?F = "pre @ (x, fsize, False) # post" and ?B = "pre @ (x, fsize, True) # post"
  define asz where "asz = carve_size W fsize asize"
  let ?s2 = "take_block W s x asize"
  let ?s3 = "move_old W ?s2 x ptr osz asz"
  let ?s' = "split_rest W ?s3 x asz fsize"
  from v have iv: "ivalid 0 s ?F fl" by (simp add: valid_ivalid)
  from iv have ok: "heap_ok s ?F fl" by (simp add: ivalid_def wvalid_def)
  have xin: "(x, fsize, False) \<in> set ?F" by simp
  note xb = heap_ok_block[OF ok xin]
  have hx: "SIZE (mem s) (HDR x) = fsize" using heap_ok_tags(3)[OF ok xin] by (simp add: HDR_def)
  have asz: "asz = (if fsize - asize < 16 then fsize else asize)"
    unfolding asz_def by (rule carve_size_cases(1)[OF W xb(7) a(3)])
  have az: "16 \<le> asz" "8 dvd asz" "asz = fsize \<or> asz + 16 \<le> fsize" "asize \<le> asz"
    "asz \<le> fsize"
    using a xb(3,4) unfolding asz by auto
  note tb = take_block_ivalid[OF iv W a, folded asz_def]
  have xnot: "x \<notin> fst ` set (pre @ post)" by (rule heap_ok_distinct[OF ok])
  have ne: "ptr \<noteq> x" using pin xnot by (auto dest: fst_in_set)
  have pinB: "(ptr, osz, True) \<in> set ?B" and pinF: "(ptr, osz, True) \<in> set ?F"
    using pin by auto
  have xinB: "(x, fsize, True) \<in> set ?B" by simp
  from move_old_ivalid[OF tb(1) xinB pinB ne tb(2) tb(3) az(1,5) W] obtain bs3 fl3 where
    iv3: "ivalid x ?s3 bs3 fl3"
    and u3: "set (used bs3) = set (used ?B) - {(ptr, osz, True)}"
    and hx3: "SIZE (mem ?s3) (x - 4) = asz" and in3: "SIZE (mem ?s3) (x + asz - 8) = asz"
    and cp3: "\<And>i. i < min osz asz - 8 \<Longrightarrow> mem ?s3 (x + i) = mem ?s2 (ptr + i)"
    and kp3: "\<And>y ysz c. (y, ysz, True) \<in> set ?B \<Longrightarrow> y \<noteq> ptr \<Longrightarrow> y \<noteq> x \<Longrightarrow>
               y - 4 \<le> c \<Longrightarrow> c < y + ysz - 4 \<Longrightarrow> mem ?s3 c = mem ?s2 c"
    and f3: "head ?s3 = head ?s2" "mem_brk ?s3 = mem_brk ?s2" "mem_max_addr ?s3 = mem_max_addr ?s2"
    by blast
  have "(x, fsize, True) \<in> set (used bs3)" unfolding u3 using ne by simp
  then have xin3: "(x, fsize, True) \<in> set bs3" by (simp add: used_iff)
  then obtain pre3 post3 where bs3: "bs3 = pre3 @ (x, fsize, True) # post3"
    by (auto simp: in_set_conv_decomp)
  from iv3 have ok3: "heap_ok ?s3 (pre3 @ (x, fsize, True) # post3) fl3"
    by (simp add: ivalid_def wvalid_def bs3)
  have xnot3: "x \<notin> fst ` set (pre3 @ post3)" by (rule heap_ok_distinct[OF ok3])
  from split_rest_valid[OF iv3[unfolded bs3] hx3 in3 az(1,2,3) W] obtain bs' fl' where
    v': "valid ?s' bs' fl'"
    and u: "used bs' = used (pre3 @ (x, asz, True) # post3)"
    and su: "same_used (pre3 @ (x, asz, True) # post3) (mem ?s3) (mem ?s')"
    and f: "head ?s' = head ?s3" "mem_brk ?s' = mem_brk ?s3" "mem_max_addr ?s' = mem_max_addr ?s3"
    by blast
  have r3: "set (used (pre3 @ post3)) = set (used (pre @ post)) - {(ptr, osz, True)}"
  proof -
    have 1: "set (used bs3) = insert (x, fsize, True) (set (used (pre3 @ post3)))"
      unfolding bs3 by auto
    have 2: "(x, fsize, True) \<notin> set (used (pre3 @ post3))"
      using xnot3 by (auto simp: used_iff dest: fst_in_set)
    have 3: "set (used ?B) = insert (x, fsize, True) (set (used (pre @ post)))" by auto
    have 4: "(x, fsize, True) \<notin> set (used (pre @ post))"
      using xnot by (auto simp: used_iff dest: fst_in_set)
    have 5: "(ptr, osz, True) \<noteq> (x, fsize, True)" using ne by simp
    show ?thesis by (rule set_swap[OF 1 2 3 4 u3 5])
  qed
  have "set (used (pre3 @ (x, asz, True) # post3)) =
          insert (x, asz, True) (set (used (pre3 @ post3)))" by auto
  then have us: "set (used bs') =
      insert (x, asz, True) (set (used (pre @ post)) - {(ptr, osz, True)})"
    unfolding u r3 .
  have xin': "(x, asz, True) \<in> set bs'"
    using us used_iff[of x asz True bs'] by simp
  have xS: "(x, asz, True) \<in> set (pre3 @ (x, asz, True) # post3)" by simp
  have copy: "mem ?s' (x + i) = mem s (ptr + i)" if i: "i < min osz asz - 8" for i
  proof -
    have "mem ?s' (x + i) = mem ?s3 (x + i)"
      by (rule same_usedD[OF su xS]) (use i in arith)+
    also have "\<dots> = mem ?s2 (ptr + i)" by (rule cp3[OF i])
    also have "\<dots> = mem s (ptr + i)"
      by (rule frame_ok_alloc[OF ok tb(4) pinF]) (use i in arith)+
    finally show ?thesis .
  qed
  have keep: "mem ?s' c = mem s c"
    if y: "(y, ysz, True) \<in> set (pre @ post)" "y \<noteq> ptr" and c: "y - 4 \<le> c" "c < y + ysz - 4"
    for y ysz c
  proof -
    have yx: "y \<noteq> x" using y(1) xnot by (auto dest: fst_in_set)
    have "(y, ysz, True) \<in> set (used (pre @ post)) - {(ptr, osz, True)}"
      using y by (simp add: used_iff)
    then have "(y, ysz, True) \<in> set (used (pre3 @ post3))" unfolding r3 .
    then have y3: "(y, ysz, True) \<in> set (pre3 @ (x, asz, True) # post3)"
      by (auto simp: used_iff)
    have yB: "(y, ysz, True) \<in> set ?B" and yF: "(y, ysz, True) \<in> set ?F" using y(1) by auto
    have "mem ?s' c = mem ?s3 c" by (rule same_usedD[OF su y3 c])
    also have "\<dots> = mem ?s2 c" by (rule kp3[OF yB y(2) yx c])
    also have "\<dots> = mem s c" by (rule frame_ok_alloc[OF ok tb(4) yF c])
    finally show ?thesis .
  qed
  have pr: "place_realloc W s ptr osz x asize = Some (Returns (x, ?s'))"
    by (simp add: place_realloc_steps hx asz_def Let_def)
  show ?thesis
    unfolding pr using v' az(4) xin' us copy keep f f3 tb(5,6,7)
    by (intro exI[of _ ?s'] exI[of _ bs'] exI[of _ fl'] exI[of _ asz]) simp
qed

section \<open>mm_realloc keeps the invariant\<close>

lemma mm_realloc_valid:
  assumes v: "valid s bs fl" and W: "32 \<le> W" and n: "0 < n" "n + 16 \<le> 2 ^ W"
    and pin: "(ptr, osz, True) \<in> set bs"
  shows "(mm_realloc W s ptr n = Some Fault \<and>
            find (\<lambda>x. asize_of W n \<le> SIZE (mem s) (HDR x)) fl = None \<and>
            mem_max_addr s < mem_brk s + (if asize_of W n > 4096 then asize_of W n else 4096)) \<or>
         (\<exists>r s' bs' fl' rsz. mm_realloc W s ptr n = Some (Returns (r, s')) \<and> r \<noteq> 0 \<and>
            valid s' bs' fl' \<and>
            head s' = head s \<and> mem_max_addr s' = mem_max_addr s \<and> mem_brk s \<le> mem_brk s' \<and>
            n + 8 \<le> rsz \<and> (r, rsz, True) \<in> set bs' \<and>
            set (used bs') = insert (r, rsz, True) (set (used bs) - {(ptr, osz, True)}) \<and>
            (\<forall>i < min osz rsz - 8. mem s' (r + i) = mem s (ptr + i)) \<and>
            (\<forall>y ysz c. (y, ysz, True) \<in> set bs \<longrightarrow> y \<noteq> ptr \<longrightarrow>
                y - 4 \<le> c \<longrightarrow> c < y + ysz - 4 \<longrightarrow> mem s' c = mem s c))"
proof -
  define asize where "asize = asize_of W n"
  note ab = asize_of_bounds[OF W n(2), folded asize_def]
  let ?ff = "find (\<lambda>x. asize \<le> SIZE (mem s) (HDR x)) fl"
  note ff = valid_first_fit[OF v, of asize]
  from v have iv: "ivalid 0 s bs fl" by (simp add: valid_ivalid)
  from v have ok: "heap_ok s bs fl" by (simp add: valid_def)
  note pb = heap_ok_block[OF ok pin]
  have os: "SIZE (mem s) (HDR ptr) = osz" by (rule valid_block_hdr[OF iv pin pb(8)])
  have st: "mm_realloc W s ptr n =
      (case (if (case ?ff of None \<Rightarrow> 0 | Some x \<Rightarrow> x) = 0 then extend_heap W s asize
             else Some (case ?ff of None \<Rightarrow> 0 | Some x \<Rightarrow> x, s)) of
         None \<Rightarrow> Some Fault
       | Some (newptr, s1) \<Rightarrow> place_realloc W s1 ptr osz newptr asize)"
    using n(1) unfolding mm_realloc_stages asize_def[symmetric] ff os by simp
  have place: "\<exists>r s' bs' fl' rsz. place_realloc W s1 ptr osz x asize = Some (Returns (r, s')) \<and>
           r \<noteq> 0 \<and> valid s' bs' fl' \<and>
           head s' = head s1 \<and> mem_max_addr s' = mem_max_addr s1 \<and> mem_brk s1 = mem_brk s' \<and>
           n + 8 \<le> rsz \<and> (r, rsz, True) \<in> set bs' \<and>
           set (used bs') = insert (r, rsz, True) (set (used bs1) - {(ptr, osz, True)}) \<and>
           (\<forall>i < min osz rsz - 8. mem s' (r + i) = mem s1 (ptr + i)) \<and>
           (\<forall>y ysz c. (y, ysz, True) \<in> set bs1 \<longrightarrow> y \<noteq> ptr \<longrightarrow>
               y - 4 \<le> c \<longrightarrow> c < y + ysz - 4 \<longrightarrow> mem s' c = mem s1 c)"
    if v1: "valid s1 bs1 fl1" and xin: "(x, fsize, False) \<in> set bs1" and le: "asize \<le> fsize"
      and p1: "(ptr, osz, True) \<in> set bs1"
    for s1 bs1 fl1 x fsize
  proof -
    from xin obtain pre post where bs1: "bs1 = pre @ (x, fsize, False) # post"
      by (auto simp: in_set_conv_decomp)
    from v1 have ok1: "heap_ok s1 bs1 fl1" by (simp add: valid_def)
    have x0: "x \<noteq> 0" by (rule heap_ok_block(8)[OF ok1 xin])
    have p1': "(ptr, osz, True) \<in> set (pre @ post)" using p1 unfolding bs1 by auto
    from place_realloc_valid[OF v1[unfolded bs1] W ab(1,2) le p1'] obtain s' bs' fl' asz where
      p: "place_realloc W s1 ptr osz x asize = Some (Returns (x, s'))" "valid s' bs' fl'"
        "asize \<le> asz" "(x, asz, True) \<in> set bs'"
        "set (used bs') = insert (x, asz, True) (set (used (pre @ post)) - {(ptr, osz, True)})"
        "\<forall>i < min osz asz - 8. mem s' (x + i) = mem s1 (ptr + i)"
        "\<forall>y ysz c. (y, ysz, True) \<in> set (pre @ post) \<longrightarrow> y \<noteq> ptr \<longrightarrow>
               y - 4 \<le> c \<longrightarrow> c < y + ysz - 4 \<longrightarrow> mem s' c = mem s1 c"
        "head s' = head s1" "mem_brk s' = mem_brk s1" "mem_max_addr s' = mem_max_addr s1"
      by blast
    have u1: "used bs1 = used (pre @ post)" by (simp add: bs1)
    have m1: "(y, ysz, True) \<in> set bs1 \<longleftrightarrow> (y, ysz, True) \<in> set (pre @ post)" for y ysz
      unfolding bs1 by auto
    have sz: "n + 8 \<le> asz" using ab(3) p(3) by simp
    from p(1,2,4,5,6,7,8,9,10) x0 sz show ?thesis
      unfolding u1 m1
      by (intro exI[of _ x] exI[of _ s'] exI[of _ bs'] exI[of _ fl'] exI[of _ asz]) simp
  qed
  show ?thesis
  proof (cases ?ff)
    case (Some x)
    from valid_found[OF v Some] obtain pre fsize post where
      b: "bs = pre @ (x, fsize, False) # post" "asize \<le> fsize" "x \<noteq> 0" by blast
    have e: "mm_realloc W s ptr n = place_realloc W s ptr osz x asize"
      unfolding st using Some b(3) by simp
    have xin: "(x, fsize, False) \<in> set bs" using b(1) by simp
    from place[OF v xin b(2) pin] obtain r s' bs' fl' rsz where
      p: "place_realloc W s ptr osz x asize = Some (Returns (r, s'))" "r \<noteq> 0" "valid s' bs' fl'"
        "head s' = head s" "mem_max_addr s' = mem_max_addr s" "mem_brk s = mem_brk s'"
        "n + 8 \<le> rsz" "(r, rsz, True) \<in> set bs'"
        "set (used bs') = insert (r, rsz, True) (set (used bs) - {(ptr, osz, True)})"
        "\<forall>i < min osz rsz - 8. mem s' (r + i) = mem s (ptr + i)"
        "\<forall>y ysz c. (y, ysz, True) \<in> set bs \<longrightarrow> y \<noteq> ptr \<longrightarrow>
               y - 4 \<le> c \<longrightarrow> c < y + ysz - 4 \<longrightarrow> mem s' c = mem s c"
      by blast
    have "\<exists>r s' bs' fl' rsz. mm_realloc W s ptr n = Some (Returns (r, s')) \<and> r \<noteq> 0 \<and>
            valid s' bs' fl' \<and>
            head s' = head s \<and> mem_max_addr s' = mem_max_addr s \<and> mem_brk s \<le> mem_brk s' \<and>
            n + 8 \<le> rsz \<and> (r, rsz, True) \<in> set bs' \<and>
            set (used bs') = insert (r, rsz, True) (set (used bs) - {(ptr, osz, True)}) \<and>
            (\<forall>i < min osz rsz - 8. mem s' (r + i) = mem s (ptr + i)) \<and>
            (\<forall>y ysz c. (y, ysz, True) \<in> set bs \<longrightarrow> y \<noteq> ptr \<longrightarrow>
                y - 4 \<le> c \<longrightarrow> c < y + ysz - 4 \<longrightarrow> mem s' c = mem s c)"
      unfolding e using p
      by (intro exI[of _ r] exI[of _ s'] exI[of _ bs'] exI[of _ fl'] exI[of _ rsz]) simp
    then show ?thesis ..
  next
    case None
    have e: "mm_realloc W s ptr n =
      (case extend_heap W s asize of None \<Rightarrow> Some Fault
       | Some (newptr, s1) \<Rightarrow> place_realloc W s1 ptr osz newptr asize)"
      unfolding st using None by simp
    show ?thesis
    proof (cases "mem_brk s + (if asize > 4096 then asize else 4096) \<le> mem_max_addr s")
      case False
      then have "mem_sbrk s (if asize > CHUNKSIZE then asize else CHUNKSIZE) = None"
        by (simp add: mem_sbrk_none split: if_splits)
      from extend_heap_none[OF this] have "mm_realloc W s ptr n = Some Fault"
        unfolding e by simp
      with None False show ?thesis unfolding asize_def by simp
    next
      case True
      from extend_heap_valid[OF v W ab(1,2) True] obtain x s1 bs1 fl1 fsz where
        x: "extend_heap W s asize = Some (x, s1)" "valid s1 bs1 fl1"
          "(x, fsz, False) \<in> set bs1" "asize \<le> fsz" "used bs1 = used bs"
          "same_used bs (mem s) (mem s1)" "head s1 = head s" "mem_max_addr s1 = mem_max_addr s"
          "mem_brk s1 = mem_brk s + (if asize > 4096 then asize else 4096)"
        by blast
      have p1: "(ptr, osz, True) \<in> set bs1" by (rule used_eq_mem[OF x(5) pin])
      from place[OF x(2,3,4) p1] obtain r s' bs' fl' rsz where
        p: "place_realloc W s1 ptr osz x asize = Some (Returns (r, s'))" "r \<noteq> 0" "valid s' bs' fl'"
          "head s' = head s1" "mem_max_addr s' = mem_max_addr s1" "mem_brk s1 = mem_brk s'"
          "n + 8 \<le> rsz" "(r, rsz, True) \<in> set bs'"
          "set (used bs') = insert (r, rsz, True) (set (used bs1) - {(ptr, osz, True)})"
        and r4: "\<And>i. i < min osz rsz - 8 \<Longrightarrow> mem s' (r + i) = mem s1 (ptr + i)"
        and r5: "\<And>y ysz c. (y, ysz, True) \<in> set bs1 \<Longrightarrow> y \<noteq> ptr \<Longrightarrow>
                       y - 4 \<le> c \<Longrightarrow> c < y + ysz - 4 \<Longrightarrow> mem s' c = mem s1 c"
        by blast
      have c1: "mem s' (r + i) = mem s (ptr + i)" if i: "i < min osz rsz - 8" for i
      proof -
        have "mem s1 (ptr + i) = mem s (ptr + i)"
          by (rule same_usedD[OF x(6) pin]) (use i in arith)+
        with r4[OF i] show ?thesis by simp
      qed
      have c2: "mem s' c = mem s c"
        if y: "(y, ysz, True) \<in> set bs" "y \<noteq> ptr" and c: "y - 4 \<le> c" "c < y + ysz - 4"
        for y ysz c
        using r5[OF used_eq_mem[OF x(5) y(1)] y(2) c] same_usedD[OF x(6) y(1) c] by simp
      have br: "mem_brk s \<le> mem_brk s'" using x(9) p(6) by simp
      have "\<exists>r s' bs' fl' rsz. mm_realloc W s ptr n = Some (Returns (r, s')) \<and> r \<noteq> 0 \<and>
            valid s' bs' fl' \<and>
            head s' = head s \<and> mem_max_addr s' = mem_max_addr s \<and> mem_brk s \<le> mem_brk s' \<and>
            n + 8 \<le> rsz \<and> (r, rsz, True) \<in> set bs' \<and>
            set (used bs') = insert (r, rsz, True) (set (used bs) - {(ptr, osz, True)}) \<and>
            (\<forall>i < min osz rsz - 8. mem s' (r + i) = mem s (ptr + i)) \<and>
            (\<forall>y ysz c. (y, ysz, True) \<in> set bs \<longrightarrow> y \<noteq> ptr \<longrightarrow>
                y - 4 \<le> c \<longrightarrow> c < y + ysz - 4 \<longrightarrow> mem s' c = mem s c)"
        unfolding e using p(1,2,3,4,5,7,8,9) c1 c2 br x(1,5,7,8)
        by (intro exI[of _ r] exI[of _ s'] exI[of _ bs'] exI[of _ fl'] exI[of _ rsz]) simp
      then show ?thesis ..
    qed
  qed
qed

section \<open>Stores of the client\<close>

lemma in_payloadE:
  assumes "in_payload bs a"
  obtains p sz where "(p, sz, True) \<in> set bs" "p \<le> a" "a + 8 < p + sz"
  using assms unfolding in_payload_def list_ex_iff by auto

lemma valid_store:
  assumes v: "valid s bs fl" and a: "in_payload bs a"
  shows "valid (s\<lparr>mem := (mem s)(a := b)\<rparr>) bs fl"
proof -
  let ?m' = "(mem s)(a := b)"
  from v have ok: "heap_ok s bs fl" and fl: "set fl = set (free_blocks bs)"
    and naf: "no_adjacent_free bs" and h: "hdrs (mem s) ((head s, 16, True) # bs)"
    and e: "SIZE (mem s) (mem_brk s - 4) = 0"
    by (simp_all add: valid_def)
  from a obtain p sz where p: "(p, sz, True) \<in> set bs" "p \<le> a" "a + 8 < p + sz"
    by (rule in_payloadE)
  note pb = heap_ok_block[OF ok p(1)]
  have ok': "heap_ok (s\<lparr>mem := ?m'\<rparr>) bs fl"
  proof (rule heap_ok_payload[OF ok p(1)])
    show "set fl \<subseteq> set (free_blocks bs)" using fl by simp
    show "?m' c = mem s c" if "c < p \<or> p + sz - 8 \<le> c" for c
      using that p(2,3) by auto
  qed
  have h': "hdrs ?m' ((head s, 16, True) # bs)"
  proof (rule hdrs_frame[OF h])
    fix y ysz i assume y: "(y, ysz, True) \<in> set ((head s, 16, True) # bs)" and i: "(i::nat) < 4"
    have big: "16 \<le> ysz"
    proof (cases "(y, ysz, True) \<in> set bs")
      case True from heap_ok_big[OF ok True] show ?thesis .
    next
      case False with y show ?thesis by simp
    qed
    from heap_ok_sep[OF ok p(1) y] have "y = p \<or> p + sz \<le> y \<or> y + ysz \<le> p" by auto
    then have "a \<noteq> y - 4 + i" using p(2,3) i pb(1,3) big by arith
    then show "?m' (y - 4 + i) = mem s (y - 4 + i)" by simp
  qed
  have e': "SIZE ?m' (mem_brk s - 4) = SIZE (mem s) (mem_brk s - 4)"
  proof (rule SIZE_cong)
    fix i :: nat assume "i < 4"
    have "a \<noteq> mem_brk s - 4 + i" using p(3) pb(2) by arith
    then show "?m' (mem_brk s - 4 + i) = mem s (mem_brk s - 4 + i)" by simp
  qed
  show ?thesis unfolding valid_def using ok' fl naf h' e e' by simp
qed

section \<open>One call, and a sequence of calls, on a valid heap\<close>

lemma mm_realloc_null: "mm_realloc W s 0 n = mm_malloc W s n"
proof -
  have "mm_free W s 0 = s" by (simp add: mm_free_def)
  then show ?thesis
    unfolding mm_realloc_stages mm_malloc_stages place_realloc_null by simp
qed

lemma mm_realloc_zero: "mm_realloc W s p 0 = Some (Returns (0, mm_free W s p))"
  unfolding mm_realloc_stages by simp

lemma mm_malloc_zero: "mm_malloc W s 0 = Some (Returns (0, s))"
  unfolding mm_malloc_stages by simp

lemma mm_free_live_valid:
  assumes v: "valid s bs fl" and W: "32 \<le> W" and p: "p = 0 \<or> p \<in> set (live bs)"
  shows "\<exists>bs' fl'. valid (mm_free W s p) bs' fl' \<and> head (mm_free W s p) = head s \<and>
           mem_max_addr (mm_free W s p) = mem_max_addr s \<and> mem_brk (mm_free W s p) = mem_brk s"
proof (cases "p = 0")
  case True
  with v show ?thesis by (auto simp: mm_free_null)
next
  case False
  with p obtain sz where "(p, sz, True) \<in> set bs" by (auto simp: live_iff)
  then obtain pre post where bs: "bs = pre @ (p, sz, True) # post"
    by (auto simp: in_set_conv_decomp)
  from mm_free_valid[OF v[unfolded bs] W] show ?thesis by blast
qed

lemma exec_valid:
  assumes v: "valid s bs fl" and W: "32 \<le> W" and lc: "legal_call W s c"
  shows "exec W s c = Some Fault \<or>
         (\<exists>s' bs' fl'. exec W s c = Some (Returns s') \<and> valid s' bs' fl' \<and>
            head s' = head s \<and> mem_max_addr s' = mem_max_addr s \<and> mem_brk s \<le> mem_brk s')"
proof (cases c)
  case (Malloc n)
  show ?thesis
  proof (cases "n = 0")
    case True
    with v show ?thesis unfolding Malloc by (auto simp: mm_malloc_zero)
  next
    case False
    with lc Malloc have n: "0 < n" "n + 16 \<le> 2 ^ W" by simp_all
    from mm_malloc_valid[OF v W n] show ?thesis unfolding Malloc
      by (elim disjE conjE exE) (simp, fastforce)
  qed
next
  case (Free p)
  from lc Free have "p = 0 \<or> p \<in> set (live bs)" by (simp add: valid_blocks[OF v])
  from mm_free_live_valid[OF v W this] show ?thesis unfolding Free by auto
next
  case (Realloc p n)
  from lc Realloc have p: "p = 0 \<or> p \<in> set (live bs)" and n16: "n + 16 \<le> 2 ^ W"
    by (simp_all add: valid_blocks[OF v])
  show ?thesis
  proof (cases "n = 0")
    case True
    from mm_free_live_valid[OF v W p] show ?thesis
      unfolding Realloc True by (auto simp: mm_realloc_zero)
  next
    case False
    then have n: "0 < n" by simp
    show ?thesis
    proof (cases "p = 0")
      case True
      from mm_malloc_valid[OF v W n n16] show ?thesis unfolding Realloc True
        by (elim disjE conjE exE) (simp add: mm_realloc_null, fastforce simp: mm_realloc_null)
    next
      case False
      with p obtain sz where "(p, sz, True) \<in> set bs" by (auto simp: live_iff)
      from mm_realloc_valid[OF v W n n16 this] show ?thesis unfolding Realloc
        by (elim disjE conjE exE) (simp, fastforce)
    qed
  qed
next
  case (Store a b)
  from lc Store have "in_payload bs a" by (simp add: valid_blocks[OF v])
  from valid_store[OF v this, of b] show ?thesis unfolding Store by auto
qed

lemma run_valid:
  assumes "valid s bs fl" and W: "32 \<le> W" and "legal W s cs"
  shows "run W s cs = Some Fault \<or>
         (\<exists>s' bs' fl'. run W s cs = Some (Returns s') \<and> valid s' bs' fl' \<and>
            head s' = head s \<and> mem_max_addr s' = mem_max_addr s \<and> mem_brk s \<le> mem_brk s')"
  using assms(1,3)
proof (induction cs arbitrary: s bs fl)
  case Nil
  then show ?case by auto
next
  case (Cons c cs)
  from Cons.prems(2) have lc: "legal_call W s c" by simp
  from exec_valid[OF Cons.prems(1) W lc] show ?case
  proof (elim disjE exE conjE)
    assume "exec W s c = Some Fault"
    then show ?thesis by simp
  next
    fix s' bs' fl'
    assume e: "exec W s c = Some (Returns s')" and v': "valid s' bs' fl'"
      and k: "head s' = head s" "mem_max_addr s' = mem_max_addr s" "mem_brk s \<le> mem_brk s'"
    from Cons.prems(2) e have l': "legal W s' cs" by simp
    from Cons.IH[OF v' l'] show ?thesis
    proof (elim disjE exE conjE)
      assume "run W s' cs = Some Fault"
      then show ?thesis using e by simp
    next
      fix s'' bs'' fl''
      assume "run W s' cs = Some (Returns s'')" "valid s'' bs'' fl''"
        "head s'' = head s'" "mem_max_addr s'' = mem_max_addr s'" "mem_brk s' \<le> mem_brk s''"
      with e k have "run W s (c # cs) = Some (Returns s'') \<and> valid s'' bs'' fl'' \<and>
            head s'' = head s \<and> mem_max_addr s'' = mem_max_addr s \<and> mem_brk s \<le> mem_brk s''"
        by simp
      then show ?thesis by blast
    qed
  qed
qed

section \<open>mm_malloc on a block found in the free list, in full\<close>

lemma wvalid_frame_valid:
  assumes ok: "heap_ok s F fl" and fr: "frame_ok s F m'"
    and wv: "wvalid (s\<lparr>mem := m'\<rparr>) bs' fl'"
    and u: "set (used bs') \<subseteq> set (used F)"
    and h: "hdrs_but 0 (mem s) ((head s, 16, True) # F)"
    and e: "SIZE (mem s) (mem_brk s - 4) = 0"
  shows "valid (s\<lparr>mem := m'\<rparr>) bs' fl'"
proof -
  have h2: "hdrs_but 0 m' ((head s, 16, True) # bs')"
    by (rule frame_ok_hdrs[OF ok fr h u])
  have e2: "SIZE m' (mem_brk s - 4) = 0"
    using frame_ok_epilogue[OF ok fr] e by simp
  show ?thesis
    unfolding valid_ivalid ivalid_def using wv h2 e2 by simp
qed

lemma split_rest_AA:
  assumes iv: "ivalid x s (pre @ (x, fsize, True) # post) fl"
    and hx: "SIZE (mem s) (x - 4) = asz" and inner: "SIZE (mem s) (x + asz - 8) = asz"
    and a: "16 \<le> asz" "8 dvd asz" "asz + 16 \<le> fsize" and W: "32 \<le> W"
    and na: "post = [] \<or> snd (snd (hd post))"
  shows "valid (split_rest W s x asz fsize)
           (pre @ (x, asz, True) # (x + asz, fsize - asz, False) # post) ((x + asz) # fl)"
    and "head (split_rest W s x asz fsize) = head s"
    and "mem_brk (split_rest W s x asz fsize) = mem_brk s"
    and "mem_max_addr (split_rest W s x asz fsize) = mem_max_addr s"
proof -
  note lt = a(3)
  let ?B = "pre @ (x, fsize, True) # post" and ?r = "fsize - asz" and ?y = "x + asz"
  let ?F = "(pre @ [(x, asz, True)]) @ (?y, ?r, False) # post"
  let ?s4 = "s\<lparr>mem := set_tags (mem s) ?y ?r 0\<rparr>"
  from iv have ok: "heap_ok s ?B fl" and fl: "set fl = set (free_blocks ?B)"
    and naf: "no_adjacent_free ?B" and h: "hdrs_but x (mem s) ((head s, 16, True) # ?B)"
    and e: "SIZE (mem s) (mem_brk s - 4) = 0"
    by (simp_all add: ivalid_def wvalid_def)
  have xin: "(x, fsize, True) \<in> set ?B" by simp
  note xb = heap_ok_block[OF ok xin]
  have nx: "NEXT (mem s) x = ?y" using hx by (simp add: NEXT_def)
  have md: "(fsize + 2 ^ W - asz) mod 2 ^ W = ?r"
    by (rule carve_size_cases(2)[OF W xb(7)]) (use lt in simp)
  have sr: "split_rest W s x asz fsize = snd (coalesce W ?s4 ?y)"
    using lt by (simp add: split_rest_def nx md)
  have sub: "set fl \<subseteq> fst ` set (pre @ post)"
    using fl free_blocks_subset[of "pre @ post"] by simp
  have ok4': "heap_ok ?s4 (pre @ (x, asz, True) # (?y, ?r, False) # post) fl"
    by (rule heap_ok_split[OF ok sub a(1,2) lt inner])
  then have ok4: "heap_ok ?s4 ?F fl" by simp
  have pc: "pre_coalesce ?s4 (pre @ [(x, asz, True)]) ?y ?r post fl"
    unfolding pre_coalesce_def using ok4 fl naf_split[OF naf] by simp
  have r: "16 \<le> ?r" "8 dvd ?r" "?r < 4294967296"
    using a lt xb by simp_all
  have y4: "4 \<le> ?y" using xb by simp
  have other: "set_tags (mem s) ?y ?r 0 c = mem s c"
    if "c < x + asz - 4 \<or> x + fsize - 4 \<le> c" for c
    by (rule set_tags_other[OF r(2) r(3) _ y4 r(1)]) (use that lt in arith)+
  have yin: "(?y, ?r, False) \<in> set ?F" by simp
  have away: "y + ysz \<le> x + asz \<or> x + fsize \<le> y"
    if "(y, ysz, True) \<in> set ((head s, 16, True) # pre @ (x, asz, True) # post)" for y ysz
  proof -
    have "(y, ysz, True) \<in> set ((head ?s4, 16, True) # ?F)" using that by auto
    from heap_ok_sep[OF ok4 yin this] lt show ?thesis by auto
  qed
  have hdr_s: "SIZE (mem s) (y - 4) = ysz"
    if y: "(y, ysz, True) \<in> set ((head s, 16, True) # pre @ (x, asz, True) # post)" for y ysz
  proof (cases "y = x")
    case True
    have "x \<noteq> head s" using xb(1) by simp
    with y True have "(x, ysz, True) \<in> set ?F" by auto
    moreover have "(x, asz, True) \<in> set ?F" by simp
    ultimately have "ysz = asz" using heap_ok_inj[OF ok4] by blast
    with hx True show ?thesis by simp
  next
    case False
    with y have "(y, ysz, True) \<in> set ((head s, 16, True) # ?B)" by auto
    from hdrs_butD[OF h this False] show ?thesis .
  qed
  have big: "16 \<le> ysz"
    if y: "(y, ysz, True) \<in> set ((head s, 16, True) # pre @ (x, asz, True) # post)" for y ysz
  proof (cases "(y, ysz, True) = (head s, 16, True)")
    case True then show ?thesis by simp
  next
    case False
    with y have "(y, ysz, True) \<in> set ?F" by auto
    from heap_ok_big[OF ok4 this] show ?thesis .
  qed
  have h4: "hdrs_but 0 (mem ?s4) ((head ?s4, 16, True) # ?F)"
  proof (rule hdrs_butI)
    fix y ysz
    assume "(y, ysz, True) \<in> set ((head ?s4, 16, True) # ?F)"
    then have y: "(y, ysz, True) \<in> set ((head s, 16, True) # pre @ (x, asz, True) # post)"
      by auto
    have "SIZE (set_tags (mem s) ?y ?r 0) (y - 4) = SIZE (mem s) (y - 4)"
      by (rule SIZE_cong, rule other) (use away[OF y] big[OF y] in arith)
    with hdr_s[OF y] show "SIZE (mem ?s4) (y - 4) = ysz" by simp
  qed
  have e4: "SIZE (mem ?s4) (mem_brk ?s4 - 4) = 0"
  proof -
    have "SIZE (set_tags (mem s) ?y ?r 0) (mem_brk s - 4) = SIZE (mem s) (mem_brk s - 4)"
      by (rule SIZE_cong, rule other) (use xb(2) in arith)
    with e show ?thesis by simp
  qed
  have pa: "pre @ [(x, asz, True)] = [] \<or> snd (snd (last (pre @ [(x, asz, True)])))" by simp
  note AA = coalesce_AA[OF pc pa na]
  have sr': "split_rest W s x asz fsize = ?s4\<lparr>mem := push_front (mem ?s4) (head ?s4) ?y\<rparr>"
    unfolding sr AA(1) by simp
  have "valid (?s4\<lparr>mem := push_front (mem ?s4) (head ?s4) ?y\<rparr>) ?F (?y # fl)"
    by (rule wvalid_frame_valid[OF ok4 AA(3) AA(2) _ h4 e4]) simp
  then show "valid (split_rest W s x asz fsize)
           (pre @ (x, asz, True) # (x + asz, fsize - asz, False) # post) ((x + asz) # fl)"
    unfolding sr' by simp
  show "head (split_rest W s x asz fsize) = head s"
    "mem_brk (split_rest W s x asz fsize) = mem_brk s"
    "mem_max_addr (split_rest W s x asz fsize) = mem_max_addr s"
    unfolding sr' by simp_all
qed

lemma naf_after_free:
  "no_adjacent_free (pre @ (x, fsize, False) # post) \<Longrightarrow> post = [] \<or> snd (snd (hd post))"
  by (cases post) (auto simp: naf_append naf_Cons)

lemma mm_malloc_found:
  assumes v: "valid s (pre @ (x, fsize, False) # post) fl" and W: "32 \<le> W"
    and n: "0 < n" "n + 16 \<le> 2 ^ W"
    and f: "find (\<lambda>y. asize_of W n \<le> SIZE (mem s) (HDR y)) fl = Some x"
  shows "\<exists>s'. mm_malloc W s n = Some (Returns (x, s')) \<and>
           head s' = head s \<and> mem_brk s' = mem_brk s \<and> mem_max_addr s' = mem_max_addr s \<and>
           (if fsize - asize_of W n < 16
            then valid s' (pre @ (x, fsize, True) # post) (remove1 x fl)
            else valid s' (pre @ (x, asize_of W n, True) #
                             (x + asize_of W n, fsize - asize_of W n, False) # post)
                   ((x + asize_of W n) # remove1 x fl))"
proof -
  define asize where "asize = asize_of W n"
  note ab = asize_of_bounds[OF W n(2), folded asize_def]
  let ?F = "pre @ (x, fsize, False) # post"
  note ff = valid_first_fit[OF v, of asize]
  from valid_found[OF v f[folded asize_def]] obtain pre' fsize' post' where
    b: "?F = pre' @ (x, fsize', False) # post'" "asize \<le> fsize'" "x \<noteq> 0"
      "SIZE (mem s) (HDR x) = fsize'" by blast
  from v have iv: "ivalid 0 s ?F fl" by (simp add: valid_ivalid)
  from iv have ok: "heap_ok s ?F fl" and naf: "no_adjacent_free ?F"
    by (simp_all add: ivalid_def wvalid_def)
  have xin: "(x, fsize, False) \<in> set ?F" by simp
  note xb = heap_ok_block[OF ok xin]
  have hx: "SIZE (mem s) (HDR x) = fsize" using heap_ok_tags(3)[OF ok xin] by (simp add: HDR_def)
  have le: "asize \<le> fsize" using b(2,4) hx by simp
  define asz where "asz = carve_size W fsize asize"
  have asz: "asz = (if fsize - asize < 16 then fsize else asize)"
    unfolding asz_def by (rule carve_size_cases(1)[OF W xb(7) le])
  let ?s2 = "take_block W s x asize"
  let ?s' = "split_rest W ?s2 x asz fsize"
  note tb = take_block_ivalid[OF iv W ab(1,2) le, folded asz_def]
  have e: "mm_malloc W s n = Some (Returns (x, ?s'))"
    using n(1) b(3) unfolding mm_malloc_stages asize_def[symmetric] ff f[folded asize_def]
    by (simp add: place_malloc_steps hx asz_def Let_def)
  show ?thesis
  proof (cases "fsize - asize < 16")
    case True
    then have az: "asz = fsize" by (simp add: asz)
    have s': "?s' = ?s2" by (simp add: split_rest_def az)
    have "valid ?s2 (pre @ (x, fsize, True) # post) (remove1 x fl)"
      by (rule ivalid_full[OF tb(1)]) (use tb(2) az in simp_all)
    with True tb(5,6,7) show ?thesis
      unfolding e asize_def[symmetric] s' by simp
  next
    case False
    then have az: "asz = asize" "asize + 16 \<le> fsize" by (simp_all add: asz)
    note sp = split_rest_AA[OF tb(1) tb(2) tb(3) _ _ _ W naf_after_free[OF naf], of ]
    have "valid ?s' (pre @ (x, asz, True) # (x + asz, fsize - asz, False) # post)
            ((x + asz) # remove1 x fl)"
      and "head ?s' = head ?s2" "mem_brk ?s' = mem_brk ?s2" "mem_max_addr ?s' = mem_max_addr ?s2"
      using sp ab(1,2) az by simp_all
    with False tb(5,6,7) show ?thesis
      unfolding e asize_def[symmetric] az(1) by simp
  qed
qed

section \<open>States reached from mm_init\<close>

lemma mm_init_returns:
  assumes "mm_init s0 = Returns (r, s1)"
  shows "mem_brk s0 + 4120 \<le> mem_max_addr s0" "r = 0"
    "s1 = s0\<lparr>mem := init_mem (mem s0) (mem_brk s0), mem_brk := mem_brk s0 + 4120,
               head := mem_brk s0 + 8\<rparr>"
  using assms unfolding mm_init_cases by (simp_all split: if_splits)





lemma reach_valid:
  assumes i: "mm_init s0 = Returns (r, s1)" and m: "mem_max_addr s0 \<le> 2 ^ 32" and W: "32 \<le> W"
    and l: "legal W s1 cs" and r: "run W s1 cs = Some (Returns s)"
  obtains fl where "valid s (blocks s) fl" "head s = mem_brk s0 + 8"
    "mem_max_addr s = mem_max_addr s0"
proof -
  note ir = mm_init_returns[OF i]
  have v1: "valid s1 [(mem_brk s0 + 24, 4096, False)] [mem_brk s0 + 24]"
    unfolding ir(3) by (rule mm_init_valid[OF ir(1) m])
  from run_valid[OF v1 W l] r obtain bs fl where
    v: "valid s bs fl" and h: "head s = head s1" "mem_max_addr s = mem_max_addr s1"
    by auto
  have "valid s (blocks s) fl" using v valid_blocks[OF v] by simp
  moreover have "head s = mem_brk s0 + 8" "mem_max_addr s = mem_max_addr s0"
    using h unfolding ir(3) by simp_all
  ultimately show thesis by (rule that)
qed

lemma run_total:
  assumes i: "mm_init s0 = Returns (r, s1)" and m: "mem_max_addr s0 \<le> 2 ^ 32" and W: "32 \<le> W"
    and l: "legal W s1 cs"
  shows "run W s1 cs \<noteq> None"
proof -
  note ir = mm_init_returns[OF i]
  have v1: "valid s1 [(mem_brk s0 + 24, 4096, False)] [mem_brk s0 + 24]"
    unfolding ir(3) by (rule mm_init_valid[OF ir(1) m])
  from run_valid[OF v1 W l] show ?thesis by auto
qed

section \<open>The concrete heaps\<close>

lemma heap1_init: "mm_init heap0 = Returns (0, heap1)"
  by (simp add: mm_init_cases heap0_def heap1_def)

lemma heap1_fields:
  "head heap1 = 65544" "mem_brk heap1 = 69656" "mem_max_addr heap1 = 21037056"
  "mem heap1 = init_mem (\<lambda>a. 0) 65536"
  by (simp_all add: heap1_def heap0_def)

lemma heap1_valid: "valid heap1 [(65560, 4096, False)] [65560]"
  using mm_init_valid[of heap0] by (simp add: heap0_def heap1_def)

lemma asize_100: "asize_of 64 100 = 112"
proof -
  have "(107::nat) AND (2 ^ 64 - 8) = 8 * (107 div 8)" by (rule and_mask_upper) simp_all
  then show ?thesis by (simp add: asize_of_def ALIGN_def)
qed

lemma heap1_size: "SIZE (mem heap1) (HDR 65560) = 4096"
  using init_mem_reads(5)[of "\<lambda>a. 0" 65536] by (simp add: heap1_fields HDR_def)

lemma heap2_malloc:
  "mm_malloc 64 heap1 100 = Some (Returns (65560, heap2))"
  "valid heap2 [(65560, 112, True), (65672, 3984, False)] [65672]"
  "head heap2 = 65544" "mem_brk heap2 = 69656" "mem_max_addr heap2 = 21037056"
proof -
  have v: "valid heap1 ([] @ (65560, 4096, False) # []) [65560]" using heap1_valid by simp
  have f: "find (\<lambda>y. asize_of 64 100 \<le> SIZE (mem heap1) (HDR y)) [65560] = Some 65560"
    by (simp add: asize_100 heap1_size)
  from mm_malloc_found[OF v _ _ _ f] obtain s' where
    s': "mm_malloc 64 heap1 100 = Some (Returns (65560, s'))"
      "head s' = head heap1" "mem_brk s' = mem_brk heap1" "mem_max_addr s' = mem_max_addr heap1"
      "valid s' [(65560, 112, True), (65672, 3984, False)] [65672]"
    by (auto simp: asize_100)
  have e: "heap2 = s'" by (simp add: heap2_def s'(1))
  show "mm_malloc 64 heap1 100 = Some (Returns (65560, heap2))"
    "valid heap2 [(65560, 112, True), (65672, 3984, False)] [65672]"
    "head heap2 = 65544" "mem_brk heap2 = 69656" "mem_max_addr heap2 = 21037056"
    unfolding e using s' by (simp_all add: heap1_fields)
qed

lemma heap2_blocks: "blocks heap2 = [(65560, 112, True), (65672, 3984, False)]"
  by (rule valid_blocks[OF heap2_malloc(2)])

lemma trace2_legal: "legal 64 heap1 [Malloc 100, Free 65560]"
  by (simp add: heap2_malloc(1) heap2_blocks)

lemma trace2_run:
  "run 64 heap1 [Malloc 100, Free 65560] = Some (Returns (mm_free 64 heap2 65560))"
  by (simp add: heap2_malloc(1))



lemma heap0_max: "mem_max_addr heap0 \<le> 2 ^ 32"
  by (simp add: heap0_def)

section \<open>The provider fails\<close>

lemma mm_malloc_fault:
  assumes v: "valid s bs fl" and n: "0 < n"
    and f: "find (\<lambda>x. asize_of W n \<le> SIZE (mem s) (HDR x)) fl = None"
    and r: "mem_max_addr s < mem_brk s + (if asize_of W n > 4096 then asize_of W n else 4096)"
  shows "mm_malloc W s n = Some Fault"
proof -
  from r have "mem_sbrk s (if asize_of W n > CHUNKSIZE then asize_of W n else CHUNKSIZE) = None"
    by (simp add: mem_sbrk_none split: if_splits)
  from extend_heap_none[OF this] show ?thesis
    using n unfolding mm_malloc_stages valid_first_fit[OF v] f by simp
qed

lemma mm_realloc_fault:
  assumes v: "valid s bs fl" and n: "0 < n"
    and f: "find (\<lambda>x. asize_of W n \<le> SIZE (mem s) (HDR x)) fl = None"
    and r: "mem_max_addr s < mem_brk s + (if asize_of W n > 4096 then asize_of W n else 4096)"
  shows "mm_realloc W s p n = Some Fault"
proof -
  from r have "mem_sbrk s (if asize_of W n > CHUNKSIZE then asize_of W n else CHUNKSIZE) = None"
    by (simp add: mem_sbrk_none split: if_splits)
  from extend_heap_none[OF this] show ?thesis
    using n unfolding mm_realloc_stages valid_first_fit[OF v] f by simp
qed

lemma valid_limit:
  assumes "valid s bs fl" "mem_brk s \<le> M" "M \<le> 2 ^ 32"
  shows "valid (s\<lparr>mem_max_addr := M\<rparr>) bs fl"
  using assms by (simp add: valid_def heap_ok_def)

lemma heap1_lim_init: "mm_init heap0_lim = Returns (0, heap1_lim)"
  by (simp add: mm_init_cases heap0_lim_def heap1_lim_def heap0_def heap1_def)

lemma heap1_lim_valid: "valid heap1_lim [(65560, 4096, False)] [65560]"
  unfolding heap1_lim_def by (rule valid_limit[OF heap1_valid]) (simp_all add: heap1_fields)

lemma heap1_lim_fields:
  "head heap1_lim = 65544" "mem_brk heap1_lim = 69656" "mem_max_addr heap1_lim = 69656"
  "mem heap1_lim = mem heap1"
  by (simp_all add: heap1_lim_def heap1_fields)

lemma asize_5000: "asize_of 64 5000 = 5008"
proof -
  have "(5007::nat) AND (2 ^ 64 - 8) = 8 * (5007 div 8)" by (rule and_mask_upper) simp_all
  then show ?thesis by (simp add: asize_of_def ALIGN_def)
qed

lemma heap1_lim_fault: "mm_malloc 64 heap1_lim 5000 = Some Fault"
  by (rule mm_malloc_fault[OF heap1_lim_valid])
    (simp_all add: asize_5000 heap1_lim_fields heap1_size)

lemma heap2_lim_malloc:
  "mm_malloc 64 heap1_lim 100 = Some (Returns (65560, heap2_lim))"
  "valid heap2_lim [(65560, 112, True), (65672, 3984, False)] [65672]"
  "head heap2_lim = 65544" "mem_brk heap2_lim = 69656" "mem_max_addr heap2_lim = 69656"
proof -
  have v: "valid heap1_lim ([] @ (65560, 4096, False) # []) [65560]"
    using heap1_lim_valid by simp
  have f: "find (\<lambda>y. asize_of 64 100 \<le> SIZE (mem heap1_lim) (HDR y)) [65560] = Some 65560"
    by (simp add: asize_100 heap1_size heap1_lim_fields)
  from mm_malloc_found[OF v _ _ _ f] obtain s' where
    s': "mm_malloc 64 heap1_lim 100 = Some (Returns (65560, s'))"
      "head s' = head heap1_lim" "mem_brk s' = mem_brk heap1_lim"
      "mem_max_addr s' = mem_max_addr heap1_lim"
      "valid s' [(65560, 112, True), (65672, 3984, False)] [65672]"
    by (auto simp: asize_100)
  have e: "heap2_lim = s'" by (simp add: heap2_lim_def s'(1))
  show "mm_malloc 64 heap1_lim 100 = Some (Returns (65560, heap2_lim))"
    "valid heap2_lim [(65560, 112, True), (65672, 3984, False)] [65672]"
    "head heap2_lim = 65544" "mem_brk heap2_lim = 69656" "mem_max_addr heap2_lim = 69656"
    unfolding e using s' by (simp_all add: heap1_lim_fields)
qed

lemma valid_free_size:
  assumes "valid s bs fl" "(x, sz, False) \<in> set bs"
  shows "SIZE (mem s) (HDR x) = sz"
  using heap_ok_tags(3)[of s bs fl x sz False] assms by (simp add: valid_def HDR_def)

lemma heap2_lim_fault: "mm_realloc 64 heap2_lim 65560 5000 = Some Fault"
proof (rule mm_realloc_fault[OF heap2_lim_malloc(2)])
  have "SIZE (mem heap2_lim) (HDR 65672) = 3984"
    by (rule valid_free_size[OF heap2_lim_malloc(2)]) simp
  then show "find (\<lambda>x. asize_of 64 5000 \<le> SIZE (mem heap2_lim) (HDR x)) [65672] = None"
    by (simp add: asize_5000)
qed (simp_all add: asize_5000 heap2_lim_malloc)

lemma init_tiny_fault: "mm_init (heap0\<lparr>mem_max_addr := 65636\<rparr>) = Fault"
  by (simp add: mm_init_cases heap0_def)

section \<open>A region that crosses \<open>2 ^ 32\<close>\<close>





section \<open>A request whose rounding wraps\<close>

lemma asize_overflow: "asize_of 64 SIZE_MAX_7 = 0"
proof -
  have "(18446744073709551615::nat) AND (2 ^ 64 - 8) = 8 * (18446744073709551615 div 8)"
    by (rule and_mask_upper) simp_all
  then show ?thesis by (simp add: asize_of_def ALIGN_def SIZE_MAX_7_def)
qed

lemma mm_free_between_used:
  assumes v: "valid s (pre @ (p, sz, True) # post) fl" and W: "32 \<le> W"
    and pa: "pre = [] \<or> snd (snd (last pre))" and na: "post = [] \<or> snd (snd (hd post))"
  shows "valid (mm_free W s p) (pre @ (p, sz, False) # post) (p # fl)"
    and "head (mm_free W s p) = head s" and "mem_brk (mm_free W s p) = mem_brk s"
    and "mem_max_addr (mm_free W s p) = mem_max_addr s"
proof -
  let ?bs = "pre @ (p, sz, True) # post" and ?F = "pre @ (p, sz, False) # post"
  let ?s1 = "s\<lparr>mem := set_tags (mem s) p sz 0\<rparr>"
  let ?s2 = "?s1\<lparr>mem := push_front (mem ?s1) (head ?s1) p\<rparr>"
  from v have iv: "ivalid 0 s ?bs fl" by (simp add: valid_ivalid)
  have pin: "(p, sz, True) \<in> set ?bs" by simp
  from iv have wv: "wvalid s ?bs fl" and h: "hdrs_but 0 (mem s) ((head s, 16, True) # ?bs)"
    and e: "SIZE (mem s) (mem_brk s - 4) = 0" by (simp_all add: ivalid_def)
  note ok = wvalid_heap_ok[OF wv]
  have p0: "p \<noteq> 0" using heap_ok_block(8)[OF ok pin] .
  have sz: "SIZE (mem s) (HDR p) = sz" by (rule valid_block_hdr[OF iv pin p0])
  note pc = release_pre(1)[OF wv]
  note c = coalesce_AA(1)[OF pc pa na, of W] coalesce_AA(2,3)[OF pc pa na]
  have eq: "mm_free W s p = ?s2"
    using p0 sz by (simp add: mm_free_steps c(1))
  from pre_coalesce_facts(1)[OF pc] have ok1: "heap_ok ?s1 ?F fl" .
  have h1: "hdrs_but 0 (mem ?s1) ((head ?s1, 16, True) # ?F)"
  proof (rule hdrs_butI)
    fix y ysz assume "(y, ysz, True) \<in> set ((head ?s1, 16, True) # ?F)" "y \<noteq> 0"
    then show "SIZE (mem ?s1) (y - 4) = ysz"
      using hdrs_butD[OF hdrs_but_set_tags(1)[OF ok h, of 0], of y ysz] by auto
  qed
  have e1: "SIZE (mem ?s1) (mem_brk ?s1 - 4) = 0"
    using hdrs_but_set_tags(2)[OF ok h, of 0] e by simp
  have "valid (?s1\<lparr>mem := push_front (mem ?s1) (head ?s1) p\<rparr>) ?F (p # fl)"
    by (rule wvalid_frame_valid[OF ok1 c(3) c(2) _ h1 e1]) simp
  then show "valid (mm_free W s p) ?F (p # fl)" unfolding eq .
  show "head (mm_free W s p) = head s" "mem_brk (mm_free W s p) = mem_brk s"
    "mem_max_addr (mm_free W s p) = mem_max_addr s"
    unfolding eq by simp_all
qed

lemma heap3_malloc:
  "mm_malloc 64 heap2 100 = Some (Returns (65672, heap3))"
  "valid heap3 [(65560, 112, True), (65672, 112, True), (65784, 3872, False)] [65784]"
  "head heap3 = 65544" "mem_brk heap3 = 69656" "mem_max_addr heap3 = 21037056"
proof -
  have v: "valid heap2 ([(65560, 112, True)] @ (65672, 3984, False) # []) [65672]"
    using heap2_malloc(2) by simp
  have sz: "SIZE (mem heap2) (HDR 65672) = 3984"
    by (rule valid_free_size[OF heap2_malloc(2)]) simp
  have f: "find (\<lambda>y. asize_of 64 100 \<le> SIZE (mem heap2) (HDR y)) [65672] = Some 65672"
    by (simp add: asize_100 sz)
  from mm_malloc_found[OF v _ _ _ f] obtain s' where
    s': "mm_malloc 64 heap2 100 = Some (Returns (65672, s'))"
      "head s' = head heap2" "mem_brk s' = mem_brk heap2" "mem_max_addr s' = mem_max_addr heap2"
      "valid s' [(65560, 112, True), (65672, 112, True), (65784, 3872, False)] [65784]"
    by (auto simp: asize_100)
  have e: "heap3 = s'" by (simp add: heap3_def s'(1))
  show "mm_malloc 64 heap2 100 = Some (Returns (65672, heap3))"
    "valid heap3 [(65560, 112, True), (65672, 112, True), (65784, 3872, False)] [65784]"
    "head heap3 = 65544" "mem_brk heap3 = 69656" "mem_max_addr heap3 = 21037056"
    unfolding e using s' by (simp_all add: heap2_malloc)
qed

lemma heap5_valid:
  "valid heap5 [(65560, 112, False), (65672, 112, True), (65784, 3872, False)] [65560, 65784]"
  "head heap5 = 65544" "mem_brk heap5 = 69656" "mem_max_addr heap5 = 21037056"
proof -
  have v: "valid heap3 ([] @ (65560, 112, True) # [(65672, 112, True), (65784, 3872, False)])
      [65784]"
    using heap3_malloc(2) by simp
  note f = mm_free_between_used[OF v, of 64]
  show "valid heap5 [(65560, 112, False), (65672, 112, True), (65784, 3872, False)]
      [65560, 65784]"
    using f(1) by (simp add: heap5_def)
  show "head heap5 = 65544" "mem_brk heap5 = 69656" "mem_max_addr heap5 = 21037056"
    using f(2-4) by (simp_all add: heap5_def heap3_malloc)
qed

lemma heap5_reads:
  "SIZE (mem heap5) 65540 = 16" "SIZE (mem heap5) 65556 = 112" "ALLOC (mem heap5) 65668 = 1"
  "SIZE (mem heap5) 65780 = 3872" "ALLOC (mem heap5) 65780 = 0"
  "ptr_of (GET (mem heap5) 65548) = 65560" "ptr_of (GET (mem heap5) 65560) = 65544"
  "ptr_of (GET (mem heap5) 65564) = 65784" "ptr_of (GET (mem heap5) 65788) = 0"
proof -
  note v = heap5_valid(1)
  from v have ok: "heap_ok heap5 [(65560, 112, False), (65672, 112, True), (65784, 3872, False)]
      [65560, 65784]" by (simp add: valid_def)
  from v show "SIZE (mem heap5) 65540 = 16"
    by (simp add: valid_def hdrs_def heap5_valid(2))
  show "SIZE (mem heap5) 65556 = 112"
    using heap_ok_tags(3)[OF ok, of 65560 112 False] by simp
  show "ALLOC (mem heap5) 65668 = 1"
    using heap_ok_tags(1)[OF ok, of 65672 112 True] by simp
  show "SIZE (mem heap5) 65780 = 3872"
    using heap_ok_tags(3)[OF ok, of 65784 3872 False] by simp
  show "ALLOC (mem heap5) 65780 = 0"
    using heap_ok_tags(1)[OF ok, of 65784 3872 False] by simp
  from ok have d: "dll (mem heap5) 65544 [65560, 65784] (ptr_of (GET (mem heap5) 65548))"
    by (simp add: heap_ok_def dlist_def heap5_valid(2))
  from d show "ptr_of (GET (mem heap5) 65548) = 65560" "ptr_of (GET (mem heap5) 65560) = 65544"
    "ptr_of (GET (mem heap5) 65564) = 65784" "ptr_of (GET (mem heap5) 65788) = 0"
    by simp_all
qed

lemma heap5_first_fit_0:
  "first_fit (mem heap5) 0 (ptr_of (GET (mem heap5) (SUCC (head heap5)))) = Some 65560"
  using valid_first_fit[OF heap5_valid(1), of 0] by simp

lemma PACK_free2: "PACK 112 0 = 112" "PACK 224 0 = 224"
  by (simp_all add: PACK_def)

lemma tags_112: "SIZE (SET m p 112) p = 112" "ALLOC (SET m p 112) p = 0"
  using SIZE_SET_same[of 112 0 m p] ALLOC_SET_same[of 112 0 m p] by (simp_all add: PACK_free2)

lemma tags_224: "SIZE (SET m p 224) p = 224" "ALLOC (SET m p 224) p = 0"
  using SIZE_SET_same[of 224 0 m p] ALLOC_SET_same[of 224 0 m p] by (simp_all add: PACK_free2)

lemma ovf5_take: "take_block 64 heap5 65560 0 =
   heap5\<lparr>mem := SET (SET (SET (SET (mem heap5) 65556 1) 65552 1) 65548 65784) 65784 65544\<rparr>"
proof -
  let ?m = "mem heap5"
  have c: "carve_size 64 112 0 = 0" by (simp add: carve_size_def)
  have s: "SIZE (SET m 65556 (Suc 0)) 65556 = 0" for m by (rule SIZE_SET_1)
  have st: "set_tags ?m 65560 0 (Suc 0) = SET (SET ?m 65556 (Suc 0)) 65552 (Suc 0)"
    by (simp add: set_tags_def HDR_def FTR_def Let_def s)
  have p: "ptr_of (GET (SET (SET ?m 65556 (Suc 0)) 65552 (Suc 0)) 65560) = 65544"
    "ptr_of (GET (SET (SET ?m 65556 (Suc 0)) 65552 (Suc 0)) 65564) = 65784"
    by (simp_all add: ptr_SET_other heap5_reads)
  show ?thesis
    by (simp add: take_block_def HDR_def heap5_reads c st unlink_def PRED_def
        SUCC_def p Let_def int_of_ptr_def)
qed

lemma ovf5_split: "split_rest 64 (take_block 64 heap5 65560 0) 65560 0 112 =
   heap5\<lparr>mem := SET (SET (SET (SET (SET (SET (SET (SET (mem heap5) 65556 1) 65552 1)
      65548 65784) 65784 65544) 65556 112) 65664 112) 65556 224) 65776 224\<rparr>"
proof -
  let ?m = "mem heap5"
  let ?m2 = "SET (SET (SET (SET ?m 65556 (Suc 0)) 65552 (Suc 0)) 65548 65784) 65784 65544"
  let ?m3 = "SET (SET ?m2 65556 112) 65664 112"
  have n: "SIZE ?m2 65556 = 0"
    by (simp add: SIZE_SET_other SIZE_SET_1)
  have st: "set_tags ?m2 65560 112 0 = ?m3"
    by (simp add: set_tags_def HDR_def FTR_def Let_def PACK_free2 tags_112)
  have rd: "SIZE ?m3 65552 = 0" "SIZE ?m3 65556 = 112" "ALLOC ?m3 65556 = 0" "ALLOC ?m3 65668 = 1"
    using heap5_reads(3)
    by (simp_all add: SIZE_SET_other ALLOC_SET_other SIZE_SET_1 tags_112)
  have st2: "set_tags ?m3 65560 224 0 = SET (SET ?m3 65556 224) 65776 224"
    by (simp add: set_tags_def HDR_def FTR_def Let_def PACK_free2 tags_224)
  show ?thesis
    unfolding ovf5_take
    by (simp add: split_rest_def NEXT_def n st coalesce_steps PREV_def HDR_def
        rd st2 Let_def)
qed

lemma ovf5_malloc:
  "mm_malloc 64 heap5 SIZE_MAX_7 = Some (Returns (65560, heap5_ovf))"
  "heap5_ovf = heap5\<lparr>mem := SET (SET (SET (SET (SET (SET (SET (SET (mem heap5) 65556 1) 65552 1)
      65548 65784) 65784 65544) 65556 112) 65664 112) 65556 224) 65776 224\<rparr>"
proof -
  have n0: "SIZE_MAX_7 \<noteq> 0" by (simp add: SIZE_MAX_7_def)
  have c: "carve_size 64 112 0 = 0" by (simp add: carve_size_def)
  have hs: "SIZE (mem heap5) (HDR 65560) = 112" by (simp add: HDR_def heap5_reads)
  have e: "mm_malloc 64 heap5 SIZE_MAX_7 =
      Some (Returns (65560, split_rest 64 (take_block 64 heap5 65560 0) 65560 0 112))"
    using n0 unfolding mm_malloc_stages asize_overflow heap5_first_fit_0
    by (simp add: place_malloc_steps hs c Let_def)
  show "heap5_ovf = heap5\<lparr>mem := SET (SET (SET (SET (SET (SET (SET (SET (mem heap5) 65556 1)
      65552 1) 65548 65784) 65784 65544) 65556 112) 65664 112) 65556 224) 65776 224\<rparr>"
    unfolding heap5_ovf_def e by (simp add: ovf5_split)
  then show "mm_malloc 64 heap5 SIZE_MAX_7 = Some (Returns (65560, heap5_ovf))"
    unfolding e by (simp add: ovf5_split)
qed

lemma ovf5_blocks: "blocks heap5_ovf = [(65560, 224, False), (65784, 3872, False)]"
proof -
  let ?M = "SET (SET (SET (SET (SET (SET (SET (SET (mem heap5) 65556 (Suc 0)) 65552 (Suc 0))
      65548 65784) 65784 65544) 65556 112) 65664 112) 65556 224) 65776 224"
  have rd: "SIZE ?M 65540 = 16" "SIZE ?M 65556 = 224" "ALLOC ?M 65556 = 0"
    "SIZE ?M 65780 = 3872" "ALLOC ?M 65780 = 0"
    using heap5_reads(1,4,5)
    by (simp_all add: SIZE_SET_other ALLOC_SET_other tags_224)
  have 1: "blocks_from ?M 69656 69656 = []" by (subst blocks_from.simps) simp
  have 2: "blocks_from ?M 65784 69656 = [(65784, 3872, False)]"
    by (subst blocks_from.simps) (simp add: HDR_def NEXT_def rd 1)
  have 3: "blocks_from ?M 65560 69656 = [(65560, 224, False), (65784, 3872, False)]"
    by (subst blocks_from.simps) (simp add: HDR_def NEXT_def rd 2)
  show ?thesis
    unfolding ovf5_malloc(2) blocks_def
    by (simp add: heap5_valid NEXT_def rd 3)
qed

lemma ovf5_free_list: "free_list heap5_ovf = Some [65784]"
proof -
  let ?M = "SET (SET (SET (SET (SET (SET (SET (SET (mem heap5) 65556 (Suc 0)) 65552 (Suc 0))
      65548 65784) 65784 65544) 65556 112) 65664 112) 65556 224) 65776 224"
  have i: "int_of_ptr 65784 = 65784" by (simp add: int_of_ptr_def)
  have "ptr_of (GET (SET m 65548 65784) 65548) = 65784" for m
    using ptr_SET_same[of 65784 m 65548] by (simp add: i)
  then have a: "ptr_of (GET ?M 65548) = 65784"
    by (simp add: ptr_SET_other)
  have b: "ptr_of (GET ?M 65788) = 0"
    using heap5_reads(9) by (simp add: ptr_SET_other)
  have l0: "list_from ?M 0 = Some []" by (subst list_from.simps) simp
  have l1: "list_from ?M 65784 = Some [65784]"
    by (subst list_from.simps) (simp add: SUCC_def b l0)
  show ?thesis
    unfolding ovf5_malloc(2) free_list_def
    by (simp add: heap5_valid SUCC_def a l1)
qed

lemma ovf5_tags:
  "SIZE (mem heap5_ovf) (HDR 65560) = 224" "ALLOC (mem heap5_ovf) (HDR 65560) = 0"
  unfolding ovf5_malloc(2) by (simp_all add: HDR_def SIZE_SET_other ALLOC_SET_other tags_224)

lemma heap3_run: "run 64 heap1 [Malloc 100, Malloc 100] = Some (Returns heap3)"
  by (simp add: heap2_malloc(1) heap3_malloc(1))

lemma trace5_run:
  "run 64 heap1 [Malloc 100, Malloc 100, Free 65560, Malloc SIZE_MAX_7] =
     Some (Returns heap5_ovf)"
  by (simp add: heap2_malloc(1) heap3_malloc(1) heap5_def[symmetric] ovf5_malloc(1))

section \<open>Claims\<close>

lemma wvalid_free_list: "wvalid s bs fl \<Longrightarrow> free_list s = Some fl"
proof -
  assume "wvalid s bs fl"
  then have "dll (mem s) (head s) fl (ptr_of (GET (mem s) (head s + 4)))"
    by (simp add: wvalid_def heap_ok_def dlist_def)
  from list_from_dll[OF this] show ?thesis by (simp add: free_list_def SUCC_def)
qed

lemma wvalid_free_tags:
  assumes "wvalid s bs fl" "(x, sz, False) \<in> set bs"
  shows "SIZE (mem s) (HDR x) = sz" "ALLOC (mem s) (HDR x) = 0"
  using heap_ok_tags(1,3)[of s bs fl x sz False] assms by (simp_all add: wvalid_def HDR_def)


text \<open>
  Claim C1. After \<open>mm_init\<close>, two calls \<open>mm_malloc(100)\<close> return the blocks 65560 and
  65672, and \<open>mm_free(65560)\<close> follows. Then \<open>mm_malloc(SIZE_MAX - 7)\<close>, of a 64-bit
  \<open>size_t\<close>, returns, and the heap it leaves has two blocks, at 65560 (224 bytes) and at
  65784 (3872 bytes), which are physically adjacent and both marked free. Every store of
  the four calls goes to an address of the region the provider has granted.
\<close>

theorem wrapped_request_leaves_adjacent_free_blocks:
  "mm_init heap0 = Returns (0, heap1) \<and>
   run 64 heap1 [Malloc 100, Malloc 100] = Some (Returns heap3) \<and>
   live (blocks heap3) = [65560, 65672] \<and>
   run 64 heap1 [Malloc 100, Malloc 100, Free 65560, Malloc SIZE_MAX_7] =
     Some (Returns heap5_ovf) \<and>
   blocks heap5_ovf = [(65560, 224, False), (65784, 3872, False)] \<and>
   no_adjacent_free (blocks heap5_ovf) = False"
proof (intro conjI)
  show "mm_init heap0 = Returns (0, heap1)" by (rule heap1_init)
  show "run 64 heap1 [Malloc 100, Malloc 100] = Some (Returns heap3)" by (rule heap3_run)
  show "live (blocks heap3) = [65560, 65672]"
    by (simp add: valid_blocks[OF heap3_malloc(2)] live_def)
  show "run 64 heap1 [Malloc 100, Malloc 100, Free 65560, Malloc SIZE_MAX_7] =
     Some (Returns heap5_ovf)" by (rule trace5_run)
  show "blocks heap5_ovf = [(65560, 224, False), (65784, 3872, False)]" by (rule ovf5_blocks)
  show "no_adjacent_free (blocks heap5_ovf) = False" by (simp add: ovf5_blocks)
qed

text \<open>
  Claim C2. After \<open>mm_init\<close>, \<open>mm_malloc(100)\<close> twice and \<open>mm_free\<close> of the first block,
  the call \<open>mm_malloc(SIZE_MAX - 7)\<close> of a 64-bit \<open>size_t\<close> returns, and in the heap it
  leaves the blocks at 65560 and at 65784 are marked free while the traversal of the free
  list from the sentinel visits the block at 65784 only: the blocks that the free list
  reaches are not the blocks whose header marks them free.
\<close>

theorem free_list_misses_free_block:
  "run 64 heap1 [Malloc 100, Malloc 100, Free 65560, Malloc SIZE_MAX_7] =
     Some (Returns heap5_ovf) \<and>
   free_blocks (blocks heap5_ovf) = [65560, 65784] \<and> free_list heap5_ovf = Some [65784]"
proof (intro conjI)
  show "run 64 heap1 [Malloc 100, Malloc 100, Free 65560, Malloc SIZE_MAX_7] =
     Some (Returns heap5_ovf)" by (rule trace5_run)
  show "free_blocks (blocks heap5_ovf) = [65560, 65784]"
    by (simp add: ovf5_blocks free_blocks_def)
  show "free_list heap5_ovf = Some [65784]" by (rule ovf5_free_list)
qed

text \<open>
  Claim C3. When the provider fails, no call returns its failure indicator: the test
  \<open>(p = mem_sbrk(n)) < 0\<close> is never true, and the call goes on to store through the value
  the provider returned. \<open>mm_init\<close> on a provider with 100 bytes, \<open>mm_malloc(5000)\<close> and
  \<open>mm_realloc(p, 5000)\<close> of the allocated block \<open>p = 65560\<close> on a provider that has nothing left
  after \<open>mm_init\<close>, all have the outcome \<open>Fault\<close>.
\<close>

theorem provider_failure_is_not_returned:
  "mm_init (heap0\<lparr>mem_max_addr := 65636\<rparr>) = Fault \<and>
   mm_init heap0_lim = Returns (0, heap1_lim) \<and>
   mm_malloc 64 heap1_lim 5000 = Some Fault \<and>
   mm_malloc 64 heap1_lim 100 = Some (Returns (65560, heap2_lim)) \<and>
   mm_realloc 64 heap2_lim 65560 5000 = Some Fault"
  by (simp add: init_tiny_fault heap1_lim_init heap1_lim_fault heap2_lim_malloc(1) heap2_lim_fault)

text \<open>
  Claim C4. On the heap \<open>heap5\<close> (after \<open>mm_init\<close>, \<open>mm_malloc(100)\<close> twice and \<open>mm_free\<close>
  of the first block), the call \<open>mm_malloc(SIZE_MAX - 7)\<close> of a 64-bit \<open>size_t\<close> computes
  the block size 0 (the sum \<open>ALIGN(size) + DWSIZE\<close> wraps) and returns the address 65560,
  not \<open>NULL\<close>. The header of the block it returns carries the size 224 and marks the
  block free: its usable size, 216 bytes, is less than the size asked for.
\<close>

theorem malloc_wraps_to_small_block:
  "0 < SIZE_MAX_7 \<and> SIZE_MAX_7 < 2 ^ 64 \<and> asize_of 64 SIZE_MAX_7 = 0 \<and>
   mm_malloc 64 heap5 SIZE_MAX_7 = Some (Returns (65560, heap5_ovf)) \<and>
   SIZE (mem heap5_ovf) (HDR 65560) = 224 \<and> ALLOC (mem heap5_ovf) (HDR 65560) = 0 \<and>
   SIZE (mem heap5_ovf) (HDR 65560) - 8 < SIZE_MAX_7"
  by (simp add: asize_overflow ovf5_malloc(1) ovf5_tags) (simp add: SIZE_MAX_7_def)

text \<open>
  Claim C5. For every size \<open>n\<close>, \<open>mm_realloc(NULL, n)\<close> is \<open>mm_malloc(n)\<close>: the same
  outcome, with the same returned pointer and the same state (and neither returns when the
  first-fit loop of the other does not). For every address \<open>p\<close>, \<open>mm_realloc(p, 0)\<close>
  returns \<open>NULL\<close> and leaves the state \<open>mm_free(p)\<close> leaves.
\<close>

theorem realloc_null_and_zero:
  "mm_realloc W s 0 n = mm_malloc W s n \<and>
   mm_realloc W s p 0 = Some (Returns (0, mm_free W s p))"
proof
  have "mm_free W s 0 = s" by (simp add: mm_free_def)
  then show "mm_realloc W s 0 n = mm_malloc W s n"
    unfolding mm_realloc_stages mm_malloc_stages place_realloc_null by simp
  show "mm_realloc W s p 0 = Some (Returns (0, mm_free W s p))"
    unfolding mm_realloc_stages by simp
qed



text \<open>
  Claim C7. On the heap \<open>heap5\<close>, whose free list is 65560 (112 bytes), 65784, the call
  \<open>mm_malloc(SIZE_MAX - 7)\<close> of a 64-bit \<open>size_t\<close> computes the block size 0 and chooses the
  block at 65560, the first of the free list. What is left after carving 0 bytes is 112
  bytes, at least the minimum block size; but the heap the call leaves has no allocated
  block where the chosen block was and no free remainder in the free list: the block at
  65560 is marked free, with 224 bytes (it has taken in the allocated block at 65672), and
  the free list holds the block at 65784 only.
\<close>

theorem wrapped_request_is_not_split:
  "asize_of 64 SIZE_MAX_7 = 0 \<and>
   blocks heap5 = [(65560, 112, False), (65672, 112, True), (65784, 3872, False)] \<and>
   free_list heap5 = Some [65560, 65784] \<and>
   first_fit (mem heap5) (asize_of 64 SIZE_MAX_7)
     (ptr_of (GET (mem heap5) (SUCC (head heap5)))) = Some 65560 \<and>
   mm_malloc 64 heap5 SIZE_MAX_7 = Some (Returns (65560, heap5_ovf)) \<and>
   blocks heap5_ovf = [(65560, 224, False), (65784, 3872, False)] \<and>
   live (blocks heap5_ovf) = [] \<and> free_list heap5_ovf = Some [65784]"
  by (simp add: asize_overflow heap5_first_fit_0 valid_blocks[OF heap5_valid(1)]
      valid_free_list[OF heap5_valid(1)] ovf5_malloc(1) ovf5_blocks ovf5_free_list live_def)

text \<open>
  Claim C8. \<open>coalesce\<close> is called on a block \<open>p\<close> that carries free tags and is not in the
  free list, in a heap that is well formed otherwise (\<open>pre_coalesce\<close>: \<open>pre\<close> are the blocks
  before \<open>p\<close>, \<open>post\<close> those after it, \<open>fl\<close> the free list). It returns the address of the
  block that holds the merged region, whose header carries the sum of the sizes:
  when the block before \<open>p\<close> is free, alone or with the block after \<open>p\<close>, the block returned
  is that predecessor \<open>q\<close>, which was in the free list and stays where it was (the list is
  unchanged, but for the successor \<open>n\<close> taken out when it is free too);
  when only the block after \<open>p\<close> is free, that successor \<open>n\<close> is taken out of the list and
  \<open>p\<close>, the merged block, is put at its head;
  when neither is free, \<open>p\<close> is put at the head of the list.
\<close>

theorem coalesce_returns_merged_block:
  assumes "pre_coalesce s pre p sz post fl" and "32 \<le> W"
  shows "(pre = pre' @ [(q, qsz, False)] \<and> post = (n, nsz, False) # post' \<longrightarrow>
            fst (coalesce W s p) = q \<and> q \<in> set fl \<and>
            SIZE (mem (snd (coalesce W s p))) (HDR q) = qsz + sz + nsz \<and>
            ALLOC (mem (snd (coalesce W s p))) (HDR q) = 0 \<and>
            free_list (snd (coalesce W s p)) = Some (remove1 n fl)) \<and>
         (pre = pre' @ [(q, qsz, False)] \<and> (post = [] \<or> snd (snd (hd post))) \<longrightarrow>
            fst (coalesce W s p) = q \<and> q \<in> set fl \<and>
            SIZE (mem (snd (coalesce W s p))) (HDR q) = qsz + sz \<and>
            ALLOC (mem (snd (coalesce W s p))) (HDR q) = 0 \<and>
            free_list (snd (coalesce W s p)) = Some fl) \<and>
         ((pre = [] \<or> snd (snd (last pre))) \<and> post = (n, nsz, False) # post' \<longrightarrow>
            fst (coalesce W s p) = p \<and>
            SIZE (mem (snd (coalesce W s p))) (HDR p) = sz + nsz \<and>
            ALLOC (mem (snd (coalesce W s p))) (HDR p) = 0 \<and>
            free_list (snd (coalesce W s p)) = Some (p # remove1 n fl)) \<and>
         ((pre = [] \<or> snd (snd (last pre))) \<and> (post = [] \<or> snd (snd (hd post))) \<longrightarrow>
            fst (coalesce W s p) = p \<and>
            SIZE (mem (snd (coalesce W s p))) (HDR p) = sz \<and>
            ALLOC (mem (snd (coalesce W s p))) (HDR p) = 0 \<and>
            free_list (snd (coalesce W s p)) = Some (p # fl))"
proof (intro conjI impI)
  note pc = assms(1) and W = assms(2)
  {
    assume a: "pre = pre' @ [(q, qsz, False)] \<and> post = (n, nsz, False) # post'"
    note c = coalesce_FF[OF pc[unfolded conjunct1[OF a] conjunct2[OF a]] W]
    have qf: "q \<in> set fl" using pre_coalesce_facts(2)[OF pc] a by simp
    have m: "(q, qsz + sz + nsz, False) \<in> set (pre' @ (q, qsz + sz + nsz, False) # post')" by simp
    show "fst (coalesce W s p) = q" "q \<in> set fl"
      "SIZE (mem (snd (coalesce W s p))) (HDR q) = qsz + sz + nsz"
      "ALLOC (mem (snd (coalesce W s p))) (HDR q) = 0"
      "free_list (snd (coalesce W s p)) = Some (remove1 n fl)"
      using qf wvalid_free_tags[OF c(2) m] wvalid_free_list[OF c(2)] unfolding c(1)
      by simp_all
  }
  {
    assume a: "pre = pre' @ [(q, qsz, False)] \<and> (post = [] \<or> snd (snd (hd post)))"
    note c = coalesce_FA[OF pc[unfolded conjunct1[OF a]] conjunct2[OF a] W]
    have qf: "q \<in> set fl" using pre_coalesce_facts(2)[OF pc] a by simp
    have m: "(q, qsz + sz, False) \<in> set (pre' @ (q, qsz + sz, False) # post)" by simp
    show "fst (coalesce W s p) = q" "q \<in> set fl"
      "SIZE (mem (snd (coalesce W s p))) (HDR q) = qsz + sz"
      "ALLOC (mem (snd (coalesce W s p))) (HDR q) = 0"
      "free_list (snd (coalesce W s p)) = Some fl"
      using qf wvalid_free_tags[OF c(2) m] wvalid_free_list[OF c(2)] unfolding c(1)
      by simp_all
  }
  {
    assume a: "(pre = [] \<or> snd (snd (last pre))) \<and> post = (n, nsz, False) # post'"
    note c = coalesce_AF[OF pc[unfolded conjunct2[OF a]] conjunct1[OF a] W]
    have m: "(p, sz + nsz, False) \<in> set (pre @ (p, sz + nsz, False) # post')" by simp
    show "fst (coalesce W s p) = p"
      "SIZE (mem (snd (coalesce W s p))) (HDR p) = sz + nsz"
      "ALLOC (mem (snd (coalesce W s p))) (HDR p) = 0"
      "free_list (snd (coalesce W s p)) = Some (p # remove1 n fl)"
      using wvalid_free_tags[OF c(2) m] wvalid_free_list[OF c(2)] unfolding c(1)
      by simp_all
  }
  {
    assume a: "(pre = [] \<or> snd (snd (last pre))) \<and> (post = [] \<or> snd (snd (hd post)))"
    note c = coalesce_AA(1)[OF pc conjunct1[OF a] conjunct2[OF a], of W]
      coalesce_AA(2)[OF pc conjunct1[OF a] conjunct2[OF a]]
    have m: "(p, sz, False) \<in> set (pre @ (p, sz, False) # post)" by simp
    show "fst (coalesce W s p) = p"
      "SIZE (mem (snd (coalesce W s p))) (HDR p) = sz"
      "ALLOC (mem (snd (coalesce W s p))) (HDR p) = 0"
      "free_list (snd (coalesce W s p)) = Some (p # fl)"
      using wvalid_free_tags[OF c(2) m] wvalid_free_list[OF c(2)] unfolding c(1)
      by simp_all
  }
qed

theorem coalesce_returns_merged_block_witness:
  "fst (coalesce 64 (heap2\<lparr>mem := set_tags (mem heap2) 65560 112 0\<rparr>) 65560) = 65560 \<and>
   SIZE (mem (snd (coalesce 64 (heap2\<lparr>mem := set_tags (mem heap2) 65560 112 0\<rparr>) 65560)))
     (HDR 65560) = 4096 \<and>
   free_list (snd (coalesce 64 (heap2\<lparr>mem := set_tags (mem heap2) 65560 112 0\<rparr>) 65560)) =
     Some [65560]"
proof -
  have "wvalid heap2 ([] @ (65560, 112, True) # [(65672, 3984, False)]) [65672]"
    using heap2_malloc(2) by (simp add: valid_def wvalid_def)
  from release_pre(1)[OF this]
  have pc: "pre_coalesce (heap2\<lparr>mem := set_tags (mem heap2) 65560 112 0\<rparr>) [] 65560 112
              [(65672, 3984, False)] [65672]" .
  from coalesce_returns_merged_block[OF pc, of 64 "[]" 0 0 65672 3984 "[]"]
  show ?thesis by simp
qed

text \<open>
  Claim C9, amended. Let \<open>s\<close> be a state reached from a successful \<open>mm_init\<close> by a legal
  sequence of calls (no request whose rounding wraps), in a region below \<open>2 ^ 32\<close>. The
  sizes of the blocks between the prologue and the epilogue, allocated and free, sum to
  the number of bytes the provider has granted less 24: the padding word, the prologue
  block and the epilogue header, which \<open>mm_init\<close> takes from the first grant, are no part of
  any block.
\<close>

theorem block_sizes_sum_to_granted_less_24:
  assumes "mm_init s0 = Returns (r, s1)" and "mem_max_addr s0 \<le> 2 ^ 32" and "32 \<le> W"
    and "legal W s1 cs" and "run W s1 cs = Some (Returns s)"
  shows "total_size (blocks s) + 24 = mem_brk s - mem_brk s0"
proof -
  from reach_valid[OF assms] obtain fl where v: "valid s (blocks s) fl"
    and h: "head s = mem_brk s0 + 8" by blast
  from valid_total[OF v] h show ?thesis by simp
qed

theorem block_sizes_sum_witness:
  "total_size (blocks (mm_free 64 heap2 65560)) + 24 =
     mem_brk (mm_free 64 heap2 65560) - mem_brk heap0"
  by (rule block_sizes_sum_to_granted_less_24[OF heap1_init heap0_max _ trace2_legal trace2_run])
    simp

theorem block_sizes_sum_counterexample:
  "mm_init heap0 = Returns (0, heap1) \<and> total_size (blocks heap1) = 4096 \<and>
   mem_brk heap1 - mem_brk heap0 = 4120 \<and>
   total_size (blocks heap1) \<noteq> mem_brk heap1 - mem_brk heap0"
  by (simp add: heap1_init valid_blocks[OF heap1_valid] heap1_fields) (simp add: heap0_def)




end
